(* ===== verification/P2P_Prelude.thy ===== *)
theory P2P_Prelude
  imports Main "HOL-Library.Word"
begin

text \<open>
  Shared vocabulary of the development: byte strings, Go's error values, the big-endian
  encodings of \<^verbatim>\<open>encoding/binary\<close>, \<^verbatim>\<open>io.ReadFull\<close> on a byte stream, and the two contracts
  the wire formats share: a fixed-width codec (\<open>fixed_codec\<close>) and a self-delimiting stream of
  items (\<open>framed\<close>). A third locale, \<open>guarded_system\<close>, lifts an invariant of single operations
  to every state a sequence of operations reaches.
\<close>

unbundle bit_operations_syntax

section \<open>Types\<close>

type_synonym byte = "8 word"
type_synonym bytes = "byte list"
type_synonym u8 = "8 word"
type_synonym u16 = "16 word"
type_synonym u32 = "32 word"
type_synonym u64 = "64 word"

text \<open>
  Error values. \<open>NetError\<close> is any error that implements Go's \<^verbatim>\<open>net.Error\<close> interface, \<open>Errorf\<close> a
  plain error with its message, \<open>Wrap\<close> the result of \<^verbatim>\<open>fmt.Errorf("...: %w", err)\<close>.
\<close>

datatype error =
    IoEOF
  | IoErrUnexpectedEOF
  | IoErrShortBuffer
  | NetErrClosed
  | NetError string
  | Errorf string
  | Wrap string error

type_synonym 'a result = "error + 'a"

text \<open>
  How the environment answers one \<^verbatim>\<open>Write\<close> call on a file or a connection: \<open>None\<close> when all
  bytes are taken, \<open>Some (k, e)\<close> when the call fails with \<open>e\<close> after \<open>k\<close> bytes.
\<close>

type_synonym write_fault = "(nat \<times> error) option"

text \<open>Go's \<^verbatim>\<open>errors.Is\<close> follows the chain of wrapped errors.\<close>

fun errors_is :: "error \<Rightarrow> error \<Rightarrow> bool" where
  "errors_is (Wrap s e) t = (Wrap s e = t \<or> errors_is e t)"
| "errors_is e t = (e = t)"

text \<open>Go's \<^verbatim>\<open>errors.As\<close> for the target type \<^verbatim>\<open>net.Error\<close>.\<close>

fun errors_as_net :: "error \<Rightarrow> bool" where
  "errors_as_net (NetError _) = True"
| "errors_as_net (Wrap _ e) = errors_as_net e"
| "errors_as_net _ = False"

section \<open>Big-endian integers\<close>

named_theorems codec_simps \<open>widths and round trips of the wire codecs\<close>

text \<open>
  \<open>put_be n v\<close> writes the low \<open>n\<close> bytes of \<open>v\<close>, most significant first, as
  \<^verbatim>\<open>binary.BigEndian.PutUint16/32/64\<close> do; \<open>get_be\<close> reads them back.
\<close>

fun put_be :: "nat \<Rightarrow> 'a::len word \<Rightarrow> bytes" where
  "put_be 0 v = []"
| "put_be (Suc n) v = put_be n (drop_bit 8 v) @ [ucast v]"

definition get_be :: "bytes \<Rightarrow> 'a::len word" where
  "get_be bs = foldl (\<lambda>acc b. push_bit 8 acc OR ucast b) 0 bs"

definition PutUint16 :: "u16 \<Rightarrow> bytes" where "PutUint16 = put_be 2"
definition PutUint32 :: "u32 \<Rightarrow> bytes" where "PutUint32 = put_be 4"
definition PutUint64 :: "u64 \<Rightarrow> bytes" where "PutUint64 = put_be 8"
definition Uint16 :: "bytes \<Rightarrow> u16" where "Uint16 = get_be"
definition Uint32 :: "bytes \<Rightarrow> u32" where "Uint32 = get_be"
definition Uint64 :: "bytes \<Rightarrow> u64" where "Uint64 = get_be"

lemma length_put_be [simp]: "length (put_be n v) = n"
  by (induction n arbitrary: v) auto

lemma get_be_Nil [simp]: "get_be [] = 0"
  by (simp add: get_be_def)

lemma get_be_snoc [simp]: "get_be (bs @ [b]) = push_bit 8 (get_be bs) OR ucast b"
  by (simp add: get_be_def)

lemma byte_join_take:
  "push_bit 8 (take_bit m (drop_bit 8 v)) OR ucast (ucast v :: byte) = take_bit (m + 8) v"
  for v :: "'a::len word"
proof (rule bit_word_eqI)
  fix n
  assume "n < LENGTH('a)"
  show "bit (push_bit 8 (take_bit m (drop_bit 8 v)) OR ucast (ucast v :: byte)) n
    = bit (take_bit (m + 8) v) n"
    using \<open>n < LENGTH('a)\<close>
    by (cases "n < 8") (auto simp: bit_simps)
qed

lemma get_put_be: "get_be (put_be n v) = take_bit (8 * n) v" for v :: "'a::len word"
  by (induction n arbitrary: v) (simp_all add: byte_join_take add.commute)

lemma take_bit_get_be: "take_bit (8 * length bs) (get_be bs :: 'a::len word) = get_be bs"
proof (induction bs rule: rev_induct)
  case Nil
  then show ?case by simp
next
  case (snoc b bs)
  let ?g = "get_be bs :: 'a word"
  have "take_bit (8 * length (bs @ [b])) (push_bit 8 ?g OR ucast b)
      = push_bit 8 (take_bit (8 * length bs) ?g) OR ucast b"
    by (rule bit_word_eqI) (auto simp: bit_simps dest: bit_imp_le_length)
  then show ?case by (simp add: snoc)
qed

lemma put_get_be:
  "8 * length bs \<le> LENGTH('a) \<Longrightarrow> put_be (length bs) (get_be bs :: 'a::len word) = bs"
proof (induction bs rule: rev_induct)
  case Nil
  then show ?case by simp
next
  case (snoc b bs)
  let ?g = "get_be bs :: 'a word"
  have small: "n < 8 * length bs" if "bit ?g n" for n
    using that by (subst (asm) take_bit_get_be [symmetric]) (simp add: bit_simps)
  have hi: "drop_bit 8 (push_bit 8 ?g OR ucast b) = ?g"
    by (rule bit_word_eqI) (use snoc.prems in \<open>auto simp: bit_simps dest: bit_imp_le_length small\<close>)
  have lo: "ucast (push_bit 8 ?g OR ucast b) = b"
    by (rule bit_word_eqI) (use snoc.prems in \<open>auto simp: bit_simps\<close>)
  have "put_be (length bs) ?g = bs" using snoc by simp
  with hi lo show ?case by simp
qed

lemma put_get_be_width:
  "length bs = n \<Longrightarrow> 8 * n \<le> LENGTH('a) \<Longrightarrow> put_be n (get_be bs :: 'a::len word) = bs"
  using put_get_be [of bs, where 'a = 'a] by auto

section \<open>Lengths as machine words\<close>

lemma unat_word_of_nat16 [simp]: "n < 65536 \<Longrightarrow> unat (word_of_nat n :: u16) = n"
  by (simp add: unat_of_nat take_bit_nat_eq_self)

lemma unat_word_of_nat32 [simp]: "n < 4294967296 \<Longrightarrow> unat (word_of_nat n :: u32) = n"
  by (simp add: unat_of_nat take_bit_nat_eq_self)

lemma word_of_nat16_inject:
  "m < 65536 \<Longrightarrow> n < 65536 \<Longrightarrow> (word_of_nat m :: u16) = word_of_nat n \<longleftrightarrow> m = n"
  by (metis unat_word_of_nat16)

lemma word_of_nat16_less:
  "m < 65536 \<Longrightarrow> n < 65536 \<Longrightarrow> (word_of_nat m :: u16) < word_of_nat n \<longleftrightarrow> m < n"
  by (simp add: word_less_nat_alt)

section \<open>Fixed-width codecs\<close>

text \<open>
  The contract of an encoding into a fixed number of bytes: every value takes exactly
  \<open>width\<close> bytes, decoding inverts encoding, and every string of that width is an encoding.
\<close>

locale fixed_codec =
  fixes enc :: "'a \<Rightarrow> bytes" and dec :: "bytes \<Rightarrow> 'a" and width :: nat
  assumes length_enc: "length (enc x) = width"
    and dec_enc: "dec (enc x) = x"
    and enc_dec: "length bs = width \<Longrightarrow> enc (dec bs) = bs"
begin

lemma enc_inj: "enc x = enc y \<longleftrightarrow> x = y"
  by (metis dec_enc)

lemma take_enc: "take width (enc x @ rest) = enc x"
  by (simp add: length_enc)

lemma drop_enc: "drop width (enc x @ rest) = rest"
  by (simp add: length_enc)

lemma dec_take_enc: "dec (take width (enc x @ rest)) = x"
  by (simp only: take_enc dec_enc)

lemma dec_inj: "length bs = width \<Longrightarrow> length cs = width \<Longrightarrow> dec bs = dec cs \<longleftrightarrow> bs = cs"
  by (metis enc_dec)

end

interpretation u16_codec: fixed_codec PutUint16 Uint16 2
  by unfold_locales
    (simp_all add: PutUint16_def Uint16_def get_put_be put_get_be_width take_bit_word_eq_self)

interpretation u32_codec: fixed_codec PutUint32 Uint32 4
  by unfold_locales
    (simp_all add: PutUint32_def Uint32_def get_put_be put_get_be_width take_bit_word_eq_self)

interpretation u64_codec: fixed_codec PutUint64 Uint64 8
  by unfold_locales
    (simp_all add: PutUint64_def Uint64_def get_put_be put_get_be_width take_bit_word_eq_self)

lemmas uint_codecs [codec_simps] =
  u16_codec.length_enc u16_codec.dec_enc u16_codec.enc_dec
  u32_codec.length_enc u32_codec.dec_enc u32_codec.enc_dec
  u64_codec.length_enc u64_codec.dec_enc u64_codec.enc_dec

section \<open>Reading from a byte stream\<close>

text \<open>
  \<open>ReadFull n rx e\<close> is \<^verbatim>\<open>io.ReadFull\<close> for \<open>n\<close> bytes on a stream that still delivers \<open>rx\<close>
  and then fails with \<open>e\<close>: a stream that ends before the first byte reports \<open>e\<close> itself, one that
  ends in the middle turns \<^verbatim>\<open>io.EOF\<close> into \<^verbatim>\<open>io.ErrUnexpectedEOF\<close>. The second component is
  what is left unread.
\<close>

definition ReadFull :: "nat \<Rightarrow> bytes \<Rightarrow> error \<Rightarrow> bytes result \<times> bytes" where
  "ReadFull n rx e =
     (if n \<le> length rx then (Inr (take n rx), drop n rx)
      else if rx = [] then (Inl e, [])
      else (Inl (if e = IoEOF then IoErrUnexpectedEOF else e), []))"

lemma ReadFull_append [simp]: "length bs = n \<Longrightarrow> ReadFull n (bs @ rest) e = (Inr bs, rest)"
  by (auto simp: ReadFull_def)

lemma ReadFull_short: "length rx < n \<Longrightarrow> \<exists>err. ReadFull n rx e = (Inl err, [])"
  by (auto simp: ReadFull_def)

lemma ReadFull_Inr: "ReadFull n rx e = (Inr bs, rest) \<Longrightarrow> rx = bs @ rest \<and> length bs = n"
  by (auto simp: ReadFull_def split: if_splits)

lemma ReadFull_Inl: "ReadFull n rx e = (Inl err, rest) \<Longrightarrow> rest = [] \<and> length rx < n"
  by (auto simp: ReadFull_def split: if_splits)

text \<open>
  A reader of items takes the unread bytes and the error that ends the stream.
  \<open>read_many\<close> reads a given number of items; \<open>read_until\<close> reads until the first error, with a
  bound on the number of items that \<open>framed.read_until_prefix\<close> shows never matters once it
  exceeds the length of the stream.
\<close>

type_synonym 'm reader = "bytes \<Rightarrow> error \<Rightarrow> 'm result \<times> bytes"

fun read_many :: "'m reader \<Rightarrow> nat \<Rightarrow> bytes \<Rightarrow> error \<Rightarrow> 'm list result \<times> bytes" where
  "read_many rd 0 rx e = (Inr [], rx)"
| "read_many rd (Suc n) rx e =
     (case rd rx e of
        (Inl err, rest) \<Rightarrow> (Inl err, rest)
      | (Inr m, rest) \<Rightarrow>
          (case read_many rd n rest e of
             (Inl err, rest') \<Rightarrow> (Inl err, rest')
           | (Inr ms, rest') \<Rightarrow> (Inr (m # ms), rest')))"

fun read_until :: "'m reader \<Rightarrow> nat \<Rightarrow> bytes \<Rightarrow> error \<Rightarrow> 'm list" where
  "read_until rd 0 rx e = []"
| "read_until rd (Suc n) rx e =
     (case rd rx e of
        (Inl err, rest) \<Rightarrow> []
      | (Inr m, rest) \<Rightarrow> m # read_until rd n rest e)"

lemma append_cut:
  assumes "a @ b = xs @ ys"
  shows "(\<exists>xs'. xs = a @ xs' \<and> b = xs' @ ys) \<or> (\<exists>zs. a = xs @ zs \<and> zs \<noteq> [])"
proof -
  from assms obtain us where "a = xs @ us \<and> us @ b = ys \<or> a @ us = xs \<and> b = us @ ys"
    by (auto simp: append_eq_append_conv2)
  then show ?thesis by (cases us) auto
qed

section \<open>Self-delimiting streams\<close>

text \<open>
  The contract of a framing: what the writer emits for an acceptable item \<open>m\<close>, the reader takes
  back off the front of the stream as \<open>norm m\<close> and leaves the rest alone; a stream cut inside an
  item gives an error, not an item.
\<close>

locale framed =
  fixes wr :: "'m \<Rightarrow> bytes" and rd :: "'m reader"
    and ok :: "'m \<Rightarrow> bool" and norm :: "'m \<Rightarrow> 'm"
  assumes rd_wr: "ok m \<Longrightarrow> rd (wr m @ rest) e = (Inr (norm m), rest)"
    and rd_Nil: "\<exists>err. rd [] e = (Inl err, [])"
    and rd_torn: "ok m \<Longrightarrow> wr m = xs @ ys \<Longrightarrow> ys \<noteq> [] \<Longrightarrow> \<exists>err. rd xs e = (Inl err, [])"
begin

lemma wr_nonempty: "ok m \<Longrightarrow> wr m \<noteq> []"
  using rd_wr [of m "[]" IoEOF] rd_Nil [of IoEOF] by auto

lemma read_many_wr:
  "\<forall>m\<in>set ms. ok m \<Longrightarrow>
   read_many rd (length ms) (concat (map wr ms) @ rest) e = (Inr (map norm ms), rest)"
  by (induction ms) (simp_all add: rd_wr)

text \<open>Cutting the stream anywhere loses exactly the items that are not complete.\<close>

lemma read_until_prefix:
  "\<forall>m\<in>set ms. ok m \<Longrightarrow> concat (map wr ms) = xs @ ys \<Longrightarrow> length xs < n \<Longrightarrow>
   \<exists>k tail. k \<le> length ms \<and> read_until rd n xs e = map norm (take k ms) \<and>
     xs = concat (map wr (take k ms)) @ tail \<and>
     (k < length ms \<longrightarrow> length tail < length (wr (ms ! k)))"
proof (induction ms arbitrary: xs n)
  case Nil
  then obtain n' where "n = Suc n'" by (cases n) auto
  with Nil show ?case using rd_Nil [of e] by auto
next
  case (Cons m ms)
  then obtain n' where n: "n = Suc n'" by (cases n) auto
  from Cons.prems have okm: "ok m" and eq: "wr m @ concat (map wr ms) = xs @ ys" by auto
  from eq consider (whole) xs' where "xs = wr m @ xs'" "concat (map wr ms) = xs' @ ys"
    | (torn) zs where "wr m = xs @ zs" "zs \<noteq> []"
    using append_cut [OF eq] by blast
  then show ?case
  proof cases
    case whole
    then have "length xs' < n'"
      using Cons.prems n wr_nonempty [OF okm] by (cases "wr m") auto
    from Cons.IH [OF _ whole(2) this] Cons.prems(1) obtain k tail where "k \<le> length ms" "read_until rd n' xs' e = map norm (take k ms)"
      "xs' = concat (map wr (take k ms)) @ tail" "k < length ms \<longrightarrow> length tail < length (wr (ms ! k))"
      by auto
    with n whole rd_wr [OF okm] show ?thesis
      by (intro exI [of _ "Suc k"] exI [of _ tail]) auto
  next
    case torn
    with okm obtain err where "rd xs e = (Inl err, [])" using rd_torn by blast
    with n torn show ?thesis by (intro exI [of _ 0] exI [of _ xs]) auto
  qed
qed

lemma read_until_wr:
  assumes "\<forall>m\<in>set ms. ok m" and "length (concat (map wr ms)) < n"
  shows "read_until rd n (concat (map wr ms)) e = map norm ms"
proof -
  from assms obtain k tail where k: "k \<le> length ms"
    "read_until rd n (concat (map wr ms)) e = map norm (take k ms)"
    "concat (map wr ms) = concat (map wr (take k ms)) @ tail"
    "k < length ms \<longrightarrow> length tail < length (wr (ms ! k))"
    using read_until_prefix [OF assms(1) append_Nil2 [symmetric] assms(2), of e] by blast
  have "\<not> k < length ms"
  proof
    assume lt: "k < length ms"
    have "concat (map wr ms) = concat (map wr (take k ms)) @ wr (ms ! k) @ concat (map wr (drop (Suc k) ms))"
      by (subst id_take_nth_drop [OF lt]) simp
    with k(3) have "tail = wr (ms ! k) @ concat (map wr (drop (Suc k) ms))" by simp
    then have "length (wr (ms ! k)) \<le> length tail" by simp
    with k(4) lt show False by simp
  qed
  with k(1,2) show ?thesis by simp
qed

end

section \<open>Invariants of event-driven components\<close>

text \<open>
  A component that handles events one at a time, and a property every handler keeps: it holds after
  any sequence of events.
\<close>

locale guarded_system =
  fixes handle :: "'s \<Rightarrow> 'e \<Rightarrow> 's" and inv :: "'s \<Rightarrow> bool"
  assumes handle_inv: "inv s \<Longrightarrow> inv (handle s ev)"
begin

lemma run_inv: "inv s \<Longrightarrow> inv (foldl handle s evs)"
  by (induction evs arbitrary: s) (simp_all add: handle_inv)

text \<open>A quantity no handler decreases is at least as large after any run.\<close>

lemma run_mono:
  fixes f :: "'s \<Rightarrow> 'o::order"
  assumes "\<And>s ev. inv s \<Longrightarrow> f s \<le> f (handle s ev)" and "inv s"
  shows "f s \<le> f (foldl handle s evs)"
  using assms(2)
proof (induction evs arbitrary: s)
  case Nil
  then show ?case by simp
next
  case (Cons ev evs)
  have "f s \<le> f (handle s ev)" using assms(1) Cons.prems .
  also have "\<dots> \<le> f (foldl handle (handle s ev) evs)" by (rule Cons.IH) (rule handle_inv, rule Cons.prems)
  finally show ?case by simp
qed

end

end
