(* ===== verification/Protocol.thy ===== *)
theory Protocol
  imports P2P_Prelude
begin

text \<open>
  The wire header of \<^verbatim>\<open>pkg/protocol/protocol.go\<close>: the \<open>Header\<close> and \<open>Message\<close> structs, the
  enumerations (open byte types in the source: the decoder accepts every value), and the 20-byte
  big-endian encoding with its inverse.
\<close>

section \<open>Constants and structs\<close>

type_synonym MsgType = u8
type_synonym ContentType = u8
type_synonym Flags = u8
type_synonym Priority = u8

definition HeaderSize :: nat where "HeaderSize = 20"

abbreviation (input) MsgData :: MsgType where "MsgData \<equiv> 0"
abbreviation (input) MsgACK :: MsgType where "MsgACK \<equiv> 1"
abbreviation (input) MsgNACK :: MsgType where "MsgNACK \<equiv> 2"
abbreviation (input) MsgPing :: MsgType where "MsgPing \<equiv> 3"
abbreviation (input) MsgPong :: MsgType where "MsgPong \<equiv> 4"

abbreviation (input) ContentJSON :: ContentType where "ContentJSON \<equiv> 0"
abbreviation (input) ContentBinary :: ContentType where "ContentBinary \<equiv> 1"
abbreviation (input) ContentText :: ContentType where "ContentText \<equiv> 2"
abbreviation (input) ContentProtobuf :: ContentType where "ContentProtobuf \<equiv> 3"
abbreviation (input) ContentAvro :: ContentType where "ContentAvro \<equiv> 4"
abbreviation (input) ContentRaw :: ContentType where "ContentRaw \<equiv> 5"

abbreviation (input) FlagCompressed :: Flags where "FlagCompressed \<equiv> 1"
abbreviation (input) FlagFragmented :: Flags where "FlagFragmented \<equiv> 2"
abbreviation (input) FlagPriority :: Flags where "FlagPriority \<equiv> 4"

abbreviation (input) PriorityLow :: Priority where "PriorityLow \<equiv> 0"
abbreviation (input) PriorityNormal :: Priority where "PriorityNormal \<equiv> 1"
abbreviation (input) PriorityHigh :: Priority where "PriorityHigh \<equiv> 2"

record Header =
  MsgID :: u64
  MsgType :: MsgType
  ContentType :: ContentType
  Flags :: Flags
  Priority :: Priority
  FragIndex :: u16
  FragTotal :: u16
  PayloadLen :: u32

record Message =
  Hdr :: Header
  Payload :: bytes

text \<open>Go's zero value of a header, the base of composite literals that name only some fields.\<close>

definition zero_Header :: Header where
  "zero_Header = \<lparr>MsgID = 0, MsgType = 0, ContentType = 0, Flags = 0, Priority = 0,
     FragIndex = 0, FragTotal = 0, PayloadLen = 0\<rparr>"

section \<open>Encoding\<close>

definition EncodeHeader :: "Header \<Rightarrow> bytes" where
  "EncodeHeader h =
     PutUint64 (MsgID h)
     @ [MsgType h]
     @ [ContentType h]
     @ [Flags h]
     @ [Priority h]
     @ PutUint16 (FragIndex h)
     @ PutUint16 (FragTotal h)
     @ PutUint32 (PayloadLen h)"

text \<open>\<open>slice_of b i j\<close> is Go's \<^verbatim>\<open>b[i:j]\<close> for indices within range.\<close>

definition slice_of :: "bytes \<Rightarrow> nat \<Rightarrow> nat \<Rightarrow> bytes" where
  "slice_of b i j = take (j - i) (drop i b)"

definition DecodeHeader :: "bytes \<Rightarrow> Header" where
  "DecodeHeader b =
     \<lparr>MsgID = Uint64 (slice_of b 0 8),
      MsgType = b ! 8,
      ContentType = b ! 9,
      Flags = b ! 10,
      Priority = b ! 11,
      FragIndex = Uint16 (slice_of b 12 14),
      FragTotal = Uint16 (slice_of b 14 16),
      PayloadLen = Uint32 (slice_of b 16 20)\<rparr>"

section \<open>Round trips\<close>

lemma length_EncodeHeader [simp]: "length (EncodeHeader h) = HeaderSize"
  by (simp add: EncodeHeader_def HeaderSize_def codec_simps)

lemma length_slice_of [simp]: "j \<le> length b \<Longrightarrow> length (slice_of b i j) = j - i"
  by (simp add: slice_of_def)

lemma slice_of_append_left:
  "length a = n \<Longrightarrow> j \<le> n \<Longrightarrow> slice_of (a @ b) i j = slice_of a i j"
  by (cases "i \<le> n") (auto simp: slice_of_def)

lemma slice_of_append_right:
  "length a = n \<Longrightarrow> n \<le> i \<Longrightarrow> slice_of (a @ b) i j = slice_of b (i - n) (j - n)"
  by (cases "i \<le> j") (auto simp: slice_of_def)

lemma slice_of_Cons: "0 < i \<Longrightarrow> slice_of (x # b) i j = slice_of b (i - 1) (j - 1)"
  by (cases i) (auto simp: slice_of_def)

lemma slice_of_all: "length a = j \<Longrightarrow> slice_of a 0 j = a"
  by (simp add: slice_of_def)

lemma slice_of_join: "i \<le> j \<Longrightarrow> j \<le> k \<Longrightarrow> slice_of b i j @ slice_of b j k = slice_of b i k"
proof -
  assume "i \<le> j" "j \<le> k"
  then have "slice_of b i k = take ((j - i) + (k - j)) (drop i b)" by (simp add: slice_of_def)
  also have "\<dots> = take (j - i) (drop i b) @ take (k - j) (drop (j - i) (drop i b))"
    by (rule take_add)
  finally show ?thesis using \<open>i \<le> j\<close> by (simp add: slice_of_def)
qed

lemma slice_of_single: "i < length b \<Longrightarrow> [b ! i] = slice_of b i (Suc i)"
  by (simp add: slice_of_def take_Suc_conv_app_nth hd_drop_conv_nth)

lemma DecodeHeader_EncodeHeader: "DecodeHeader (EncodeHeader h) = h"
  by (cases h)
    (simp add: DecodeHeader_def EncodeHeader_def slice_of_append_left slice_of_append_right slice_of_all
      slice_of_Cons nth_append codec_simps)

lemma EncodeHeader_DecodeHeader:
  assumes "length b = HeaderSize"
  shows "EncodeHeader (DecodeHeader b) = b"
proof -
  have len: "length b = 20" using assms by (simp add: HeaderSize_def)
  have "EncodeHeader (DecodeHeader b) =
      slice_of b 0 8 @ slice_of b 8 9 @ slice_of b 9 10 @ slice_of b 10 11 @ slice_of b 11 12
      @ slice_of b 12 14 @ slice_of b 14 16 @ slice_of b 16 20"
    using len by (simp add: EncodeHeader_def DecodeHeader_def codec_simps slice_of_single)
  also have "\<dots> = slice_of b 0 20" by (simp add: slice_of_join)
  also have "\<dots> = b" using len by (rule slice_of_all)
  finally show ?thesis .
qed

interpretation header_codec: fixed_codec EncodeHeader DecodeHeader HeaderSize
  by unfold_locales (simp_all add: DecodeHeader_EncodeHeader EncodeHeader_DecodeHeader)

text \<open>Bits of the flag byte.\<close>

definition has_flag :: "Flags \<Rightarrow> Flags \<Rightarrow> bool" where
  "has_flag f m \<longleftrightarrow> f AND m \<noteq> 0"

end
