(* ===== verification/Compress.thy ===== *)
theory Compress
  imports P2P_Prelude
begin

text \<open>
  \<^verbatim>\<open>pkg/compress/compress.go\<close>: payloads above a threshold go through zstd. The codec is a
  third-party library; its two entry points \<open>EncodeAll\<close> and \<open>DecodeAll\<close> are arguments of the
  definitions, and what the program relies on is \<open>zstd_roundtrip\<close>, the documented behaviour
  that a decoder restores what the encoder produced. The pools of encoders and decoders carry no
  state between calls and are not modelled.
\<close>

type_synonym encoder = "bytes \<Rightarrow> bytes"
type_synonym decoder = "bytes \<Rightarrow> bytes result"

definition zstd_roundtrip :: "encoder \<Rightarrow> decoder \<Rightarrow> bool" where
  "zstd_roundtrip EncodeAll DecodeAll \<longleftrightarrow> (\<forall>src. DecodeAll (EncodeAll src) = Inr src)"

definition ThresholdBytes :: nat where "ThresholdBytes = 256"

definition Compress :: "encoder \<Rightarrow> bytes \<Rightarrow> (bytes \<times> bool) result" where
  "Compress EncodeAll src =
     (if length src \<le> ThresholdBytes then Inr (src, False)
      else Inr (EncodeAll src, True))"

definition Decompress :: "decoder \<Rightarrow> bytes \<Rightarrow> bytes result" where
  "Decompress DecodeAll src = DecodeAll src"

lemma Compress_total: "\<exists>data co. Compress E src = Inr (data, co)"
  by (auto simp: Compress_def)

lemma Decompress_Compress:
  "zstd_roundtrip E D \<Longrightarrow> Compress E src = Inr (data, True) \<Longrightarrow> Decompress D data = Inr src"
  by (auto simp: Compress_def Decompress_def zstd_roundtrip_def split: if_splits)

lemma Compress_plain: "Compress E src = Inr (data, False) \<Longrightarrow> data = src"
  by (auto simp: Compress_def split: if_splits)

end
