(* ===== verification/Chunker.thy ===== *)
theory Chunker
  imports Protocol Compress
begin

text \<open>
  \<^verbatim>\<open>pkg/chunker/chunker.go\<close>: fragmentation of a payload into messages of at most 512 KB
  (\<open>Split\<close>) and its reassembly (\<open>Assembler\<close>, \<open>Add\<close>, \<open>Purge\<close>). The mutex makes each \<open>Add\<close> and
  \<open>Purge\<close> one atomic step; the clock is an argument. An index outside a Go slice panics, which is
  the outcome \<open>AddPanic\<close>.
\<close>

section \<open>Splitting\<close>

definition ChunkSize :: nat where "ChunkSize = 512 * 1024"

definition DefaultMaxStreams :: nat where "DefaultMaxStreams = 1024"

function splitLoop :: "bytes \<Rightarrow> bytes list" where
  "splitLoop data =
     (if length data > 0 then
        let n = (if ChunkSize > length data then length data else ChunkSize)
        in take n data # splitLoop (drop n data)
      else [])"
  by pat_completeness auto
termination
  by (relation "measure length") (auto simp: ChunkSize_def)

declare splitLoop.simps [simp del]

definition splitBytes :: "bytes \<Rightarrow> bytes list" where
  "splitBytes data = (if length data = 0 then [data] else splitLoop data)"

definition buildFlags :: "bool \<Rightarrow> bool \<Rightarrow> Flags" where
  "buildFlags fragmented compressed =
     (let f = 0;
          f = (if compressed then f OR FlagCompressed else f);
          f = (if fragmented then f OR FlagFragmented else f)
      in f)"

text \<open>The message literal of the loop body of \<open>Split\<close>.\<close>

definition mk_fragment ::
  "u64 \<Rightarrow> ContentType \<Rightarrow> bool \<Rightarrow> u16 \<Rightarrow> nat \<Rightarrow> bytes \<Rightarrow> Message" where
  "mk_fragment msgID ct wasCompressed tot i chunk =
     \<lparr>Hdr = \<lparr>MsgID = msgID, MsgType = MsgData, ContentType = ct,
             Flags = buildFlags (tot > 1) wasCompressed, Priority = PriorityNormal,
             FragIndex = word_of_nat i, FragTotal = tot,
             PayloadLen = word_of_nat (length chunk)\<rparr>,
      Payload = chunk\<rparr>"

definition Split :: "encoder \<Rightarrow> u64 \<Rightarrow> ContentType \<Rightarrow> bytes \<Rightarrow> Message list result" where
  "Split E msgID ct payload =
     (case Compress E payload of
        Inl err \<Rightarrow> Inl err
      | Inr (data, wasCompressed) \<Rightarrow>
          let chunks = splitBytes data in
          if length chunks > 65535
          then Inl (Errorf ''chunker: payload too large (exceeds 65535 fragments)'')
          else let tot = word_of_nat (length chunks) in
               Inr (map (\<lambda>i. mk_fragment msgID ct wasCompressed tot i (chunks ! i))
                     [0..<length chunks]))"

section \<open>Reassembly\<close>

record streamState =
  st_frags :: "bytes option list"
  st_total :: u16
  st_received :: u16
  st_compressed :: bool
  st_arrivedAt :: int

record Assembler =
  streams :: "u64 \<rightharpoonup> streamState"
  maxStreams :: nat

definition NewAssembler :: Assembler where
  "NewAssembler = \<lparr>streams = Map.empty, maxStreams = DefaultMaxStreams\<rparr>"

text \<open>Outcomes of \<^verbatim>\<open>Add\<close>: an error, not complete yet, a complete payload, or a panic.\<close>

datatype AddOutcome = AddErr error | AddPending | AddDone bytes | AddPanic

definition validateFragment :: "Header \<Rightarrow> bytes \<Rightarrow> error option" where
  "validateFragment h payload =
     (if FragTotal h = 0 then Some (Errorf ''chunker: FragTotal is 0'')
      else if FragIndex h \<ge> FragTotal h then Some (Errorf ''chunker: FragIndex >= FragTotal'')
      else if word_of_nat (length payload) \<noteq> PayloadLen h
        then Some (Errorf ''chunker: payload length mismatch'')
      else None)"

definition joinChunks :: "bytes option list \<Rightarrow> bytes" where
  "joinChunks frags = concat (map (case_option [] id) frags)"

definition decompress :: "decoder \<Rightarrow> bytes \<Rightarrow> Flags \<Rightarrow> AddOutcome" where
  "decompress D data flags =
     (if flags AND FlagCompressed = 0 then AddDone data
      else case Decompress D data of
             Inl err \<Rightarrow> AddErr err
           | Inr out \<Rightarrow> AddDone out)"

definition getOrCreate :: "int \<Rightarrow> Assembler \<Rightarrow> Header \<Rightarrow> (Assembler \<times> streamState) result" where
  "getOrCreate now a h =
     (case streams a (MsgID h) of
        Some st \<Rightarrow> Inr (a, st)
      | None \<Rightarrow>
          if card (dom (streams a)) \<ge> maxStreams a
          then Inl (Errorf ''chunker: too many in-flight streams'')
          else let st = \<lparr>st_frags = replicate (unat (FragTotal h)) None,
                         st_total = FragTotal h, st_received = 0,
                         st_compressed = (Flags h AND FlagCompressed \<noteq> 0),
                         st_arrivedAt = now\<rparr>
               in Inr (a\<lparr>streams := (streams a)(MsgID h \<mapsto> st)\<rparr>, st))"

definition Add :: "decoder \<Rightarrow> int \<Rightarrow> Assembler \<Rightarrow> Message \<Rightarrow> Assembler \<times> AddOutcome" where
  "Add D now a msg =
     (let h = Hdr msg in
      case validateFragment h (Payload msg) of
        Some err \<Rightarrow> (a, AddErr err)
      | None \<Rightarrow>
          if FragTotal h = 1 then (a, decompress D (Payload msg) (Flags h))
          else (case getOrCreate now a h of
                  Inl err \<Rightarrow> (a, AddErr err)
                | Inr (a', st) \<Rightarrow>
                    let i = unat (FragIndex h) in
                    if i \<ge> length (st_frags st) then (a', AddPanic)
                    else if st_frags st ! i \<noteq> None then (a', AddPending)
                    else let st' = st\<lparr>st_frags := (st_frags st)[i := Some (Payload msg)],
                                       st_received := st_received st + 1\<rparr>
                         in if st_received st' = st_total st'
                            then (a'\<lparr>streams := (streams a')(MsgID h := None)\<rparr>,
                                  decompress D (joinChunks (st_frags st')) (Flags h))
                            else (a'\<lparr>streams := (streams a')(MsgID h \<mapsto> st')\<rparr>, AddPending)))"

definition Purge :: "int \<Rightarrow> int \<Rightarrow> Assembler \<Rightarrow> Assembler" where
  "Purge now ttl a =
     (let cutoff = now - ttl in
      a\<lparr>streams := (\<lambda>id. case streams a id of
                            None \<Rightarrow> None
                          | Some st \<Rightarrow> if st_arrivedAt st < cutoff then None else Some st)\<rparr>)"

text \<open>Feeding a sequence of fragments, each with its arrival time.\<close>

fun addAll ::
  "decoder \<Rightarrow> Assembler \<Rightarrow> (int \<times> Message) list \<Rightarrow> Assembler \<times> AddOutcome list" where
  "addAll D a [] = (a, [])"
| "addAll D a ((t, m) # ms) =
     (let (a', r) = Add D t a m; (a'', rs) = addAll D a' ms in (a'', r # rs))"

section \<open>Splitting: facts\<close>

lemma ChunkSize_pos [simp]: "0 < ChunkSize"
  by (simp add: ChunkSize_def)

lemma splitLoop_Nil [simp]: "splitLoop [] = []"
  by (simp add: splitLoop.simps)

lemma splitLoop_step:
  "data \<noteq> [] \<Longrightarrow> splitLoop data = take ChunkSize data # splitLoop (drop ChunkSize data)"
  by (subst splitLoop.simps) (simp add: Let_def)

lemma splitLoop_induct [case_names Nil step]:
  assumes "P []"
    and "\<And>data. data \<noteq> [] \<Longrightarrow> P (drop ChunkSize data) \<Longrightarrow> P data"
  shows "P data"
proof (induction data rule: length_induct)
  case (1 data)
  then show ?case by (cases "data = []") (auto intro: assms)
qed

lemma concat_splitLoop: "concat (splitLoop data) = data"
  by (induction data rule: splitLoop_induct) (simp_all add: splitLoop_step)

lemma splitLoop_chunk: "c \<in> set (splitLoop data) \<Longrightarrow> 0 < length c \<and> length c \<le> ChunkSize"
proof (induction data rule: splitLoop_induct)
  case Nil
  then show ?case by simp
next
  case (step data)
  from step.prems have "c = take ChunkSize data \<or> c \<in> set (splitLoop (drop ChunkSize data))"
    by (simp add: splitLoop_step [OF step.hyps])
  then show ?case
  proof
    assume "c = take ChunkSize data"
    then show ?thesis using step.hyps by simp
  next
    assume "c \<in> set (splitLoop (drop ChunkSize data))"
    then show ?thesis by (rule step.IH)
  qed
qed

lemma length_splitLoop: "length (splitLoop data) = (length data + (ChunkSize - 1)) div ChunkSize"
proof (induction data rule: splitLoop_induct)
  case Nil
  then show ?case by (simp add: ChunkSize_def)
next
  case (step data)
  then have pos: "0 < length data" by simp
  show ?case
  proof (cases "length data \<le> ChunkSize")
    case True
    with pos have "(length data + (ChunkSize - 1)) div ChunkSize = 1"
      by (intro div_nat_eqI) (auto simp: ChunkSize_def Suc_le_eq)
    with True step(1) show ?thesis by (simp add: splitLoop_step [of data])
  next
    case False
    then have "(length data + (ChunkSize - 1)) div ChunkSize
        = Suc ((length data - ChunkSize + (ChunkSize - 1)) div ChunkSize)"
      by (simp add: le_div_geq)
    with step show ?thesis by (simp add: splitLoop_step [of data])
  qed
qed

lemma concat_splitBytes [simp]: "concat (splitBytes data) = data"
  by (simp add: splitBytes_def concat_splitLoop)

lemma splitBytes_chunk: "c \<in> set (splitBytes data) \<Longrightarrow> length c \<le> ChunkSize"
  by (auto simp: splitBytes_def dest: splitLoop_chunk split: if_splits)

lemma splitBytes_nonempty [simp]: "splitBytes data \<noteq> []"
  by (cases data) (simp_all add: splitBytes_def splitLoop_step)

section \<open>Reassembly: one fragment\<close>

text \<open>
  \<open>carries mid fl c i m\<close>: message \<open>m\<close> is fragment \<open>i\<close> of the chunk list \<open>c\<close> under message mid
  \<open>mid\<close> with flags \<open>fl\<close>. Content type and priority are left open: reassembly ignores them.
\<close>

definition carries :: "u64 \<Rightarrow> Flags \<Rightarrow> bytes list \<Rightarrow> nat \<Rightarrow> Message \<Rightarrow> bool" where
  "carries mid fl c i m \<longleftrightarrow>
     i < length c \<and> Payload m = c ! i \<and> MsgID (Hdr m) = mid \<and> Flags (Hdr m) = fl \<and>
     FragIndex (Hdr m) = word_of_nat i \<and> FragTotal (Hdr m) = word_of_nat (length c) \<and>
     PayloadLen (Hdr m) = word_of_nat (length (c ! i))"

text \<open>
  \<open>holding mid c S a\<close>: the assembler holds exactly the chunks with indices in \<open>S\<close> for message
  \<open>mid\<close>; for no chunk at all there is no stream.
\<close>

definition held :: "bytes list \<Rightarrow> nat set \<Rightarrow> bytes option list" where
  "held c S = map (\<lambda>i. if i \<in> S then Some (c ! i) else None) [0..<length c]"

definition holding :: "u64 \<Rightarrow> bytes list \<Rightarrow> nat set \<Rightarrow> Assembler \<Rightarrow> bool" where
  "holding mid c S a \<longleftrightarrow>
     (if S = {} then streams a mid = None
      else (\<exists>st. streams a mid = Some st \<and> st_frags st = held c S \<and>
              st_total st = word_of_nat (length c) \<and> st_received st = word_of_nat (card S)))"

lemma length_held [simp]: "length (held c S) = length c"
  by (simp add: held_def)

lemma nth_held [simp]: "i < length c \<Longrightarrow> held c S ! i = (if i \<in> S then Some (c ! i) else None)"
  by (simp add: held_def)

lemma held_insert: "i < length c \<Longrightarrow> (held c S)[i := Some (c ! i)] = held c (insert i S)"
  by (rule nth_equalityI) (auto simp: nth_list_update)

lemma held_empty: "held c {} = replicate (length c) None"
  by (rule nth_equalityI) auto

lemma joinChunks_held_all: "joinChunks (held c {..<length c}) = concat c"
proof -
  have "map (case_option [] id) (held c {..<length c}) = c"
    by (rule nth_equalityI) auto
  then show ?thesis by (simp add: joinChunks_def)
qed

lemma validateFragment_carries:
  "carries mid fl c i m \<Longrightarrow> length c \<le> 65535 \<Longrightarrow> validateFragment (Hdr m) (Payload m) = None"
  by (auto simp: validateFragment_def carries_def word_of_nat16_inject [of _ 0, simplified]
      word_le_nat_alt)

text \<open>The stream that \<open>getOrCreate\<close> hands to \<open>Add\<close> when \<open>S\<close> has arrived.\<close>

lemma getOrCreate_holding:
  assumes "carries mid fl c i m" "holding mid c S a" "length c \<le> 65535"
    and "S = {} \<Longrightarrow> card (dom (streams a)) < maxStreams a"
  obtains a' st where "getOrCreate t a (Hdr m) = Inr (a', st)" "maxStreams a' = maxStreams a"
    "S \<noteq> {} \<Longrightarrow> a' = a" "\<And>v. (streams a')(mid := v) = (streams a)(mid := v)"
    "st_frags st = held c S" "st_total st = word_of_nat (length c)"
    "st_received st = word_of_nat (card S)"
proof (cases "S = {}")
  case True
  let ?st = "\<lparr>st_frags = replicate (length c) None, st_total = word_of_nat (length c), st_received = 0,
    st_compressed = (Flags (Hdr m) AND FlagCompressed \<noteq> 0), st_arrivedAt = t\<rparr>"
  show ?thesis
    by (rule that [of "a\<lparr>streams := (streams a)(mid \<mapsto> ?st)\<rparr>" ?st])
      (use True assms in \<open>auto simp: getOrCreate_def holding_def carries_def held_empty Let_def\<close>)
next
  case False
  with assms show ?thesis
    by (auto simp: getOrCreate_def holding_def carries_def intro!: that)
qed

lemma Add_duplicate:
  assumes "carries mid fl c i m" "holding mid c S a" "2 \<le> length c" "length c \<le> 65535" "i \<in> S"
  shows "Add D t a m = (a, AddPending)"
proof -
  obtain a' st where g: "getOrCreate t a (Hdr m) = Inr (a', st)" "a' = a" "st_frags st = held c S"
    using getOrCreate_holding [OF assms(1,2,4), of t] assms(5) by blast
  with assms show ?thesis
    using validateFragment_carries [OF assms(1,4)]
    by (simp add: Add_def Let_def carries_def word_of_nat16_inject [of _ 1, simplified])
qed

lemma Add_fresh:
  assumes m: "carries mid fl c i m" and h: "holding mid c S a"
    and len: "2 \<le> length c" "length c \<le> 65535" and S: "S \<subseteq> {..<length c}" "i \<notin> S"
    and cap: "S = {} \<Longrightarrow> card (dom (streams a)) < maxStreams a"
  obtains a' where "maxStreams a' = maxStreams a" "(streams a')(mid := None) = (streams a)(mid := None)"
    "insert i S \<noteq> {..<length c} \<Longrightarrow> Add D t a m = (a', AddPending) \<and> holding mid c (insert i S) a'"
    "insert i S = {..<length c} \<Longrightarrow>
       Add D t a m = (a', decompress D (concat c) fl) \<and> streams a' mid = None"
proof -
  obtain a1 st where g: "getOrCreate t a (Hdr m) = Inr (a1, st)" "maxStreams a1 = maxStreams a"
    "\<And>v. (streams a1)(mid := v) = (streams a)(mid := v)" "st_frags st = held c S"
    "st_total st = word_of_nat (length c)" "st_received st = word_of_nat (card S)"
    using getOrCreate_holding [OF m h len(2) cap, of t] by blast
  let ?st = "st\<lparr>st_frags := held c (insert i S), st_received := word_of_nat (card (insert i S))\<rparr>"
  have fin: "finite S" using S(1) finite_subset by blast
  have il: "i < length c" using m by (simp add: carries_def)
  have cardle: "card (insert i S) \<le> length c"
    using card_mono [of "{..<length c}" "insert i S"] S(1) il by simp
  have full: "insert i S = {..<length c} \<longleftrightarrow> card (insert i S) = length c"
    using card_subset_eq [of "{..<length c}" "insert i S"] S(1) il by auto
  have st': "st\<lparr>st_frags := (st_frags st)[i := Some (Payload m)], st_received := st_received st + 1\<rparr> = ?st"
    using m g il fin S(2) by (simp add: held_insert carries_def add.commute)
  have add: "Add D t a m =
    (if card (insert i S) = length c
     then (a1\<lparr>streams := (streams a)(mid := None)\<rparr>, decompress D (joinChunks (held c (insert i S))) fl)
     else (a1\<lparr>streams := (streams a)(mid \<mapsto> ?st)\<rparr>, AddPending))"
    using validateFragment_carries [OF m len(2)] m g il S(2) len cardle st'
    by (auto simp: Add_def Let_def carries_def word_of_nat16_inject [of _ 1, simplified]
        word_of_nat16_inject)
  show ?thesis
  proof (cases "card (insert i S) = length c")
    case True
    show ?thesis
      by (rule that [of "a1\<lparr>streams := (streams a)(mid := None)\<rparr>"])
        (use True full add g joinChunks_held_all [of c] in auto)
  next
    case False
    show ?thesis
      by (rule that [of "a1\<lparr>streams := (streams a)(mid \<mapsto> ?st)\<rparr>"])
        (use False full add g in \<open>auto simp: holding_def\<close>)
  qed
qed

section \<open>Reassembly: whole messages\<close>

text \<open>
  Fragments may arrive in any order and any number of times: whatever has arrived so far, once the
  missing fragments of \<open>c\<close> arrive, with \<open>j\<close> the last of them, the payload is complete at \<open>j\<close> and
  not before, and the stream is gone.
\<close>

lemma addAll_complete:
  assumes "2 \<le> length c" "length c \<le> 65535"
  shows "list_all2 (\<lambda>i tm. carries mid fl c i (snd tm)) (ks @ [j]) tms \<Longrightarrow> holding mid c S a \<Longrightarrow>
    S \<union> set ks \<union> {j} = {..<length c} \<Longrightarrow> j \<notin> S \<union> set ks \<Longrightarrow>
    (S = {} \<Longrightarrow> card (dom (streams a)) < maxStreams a) \<Longrightarrow>
    \<exists>a'. addAll D a tms = (a', replicate (length ks) AddPending @ [decompress D (concat c) fl]) \<and>
      streams a' = (streams a)(mid := None) \<and> maxStreams a' = maxStreams a"
proof (induction ks arbitrary: S a tms)
  case Nil
  from Nil.prems(1) obtain t m where tms: "tms = [(t, m)]" and m: "carries mid fl c j m"
    by (auto simp: list_all2_Cons1)
  have eq: "insert j S = {..<length c}" using Nil.prems(3) by auto
  then have sub: "S \<subseteq> {..<length c}" "j \<notin> S" using Nil.prems(4) by auto
  obtain a' where "Add D t a m = (a', decompress D (concat c) fl)" "streams a' mid = None"
    "(streams a')(mid := None) = (streams a)(mid := None)" "maxStreams a' = maxStreams a"
    using Add_fresh [OF m Nil.prems(2) assms sub Nil.prems(5), of D t] eq by metis
  then show ?case using tms by (auto simp: fun_upd_idem)
next
  case (Cons k ks)
  from Cons.prems(1) obtain t m tms' where tms: "tms = (t, m) # tms'" and m: "carries mid fl c k m"
    and rest: "list_all2 (\<lambda>i tm. carries mid fl c i (snd tm)) (ks @ [j]) tms'"
    by (auto simp: list_all2_Cons1)
  show ?case
  proof (cases "k \<in> S")
    case True
    then have "Add D t a m = (a, AddPending)"
      using Add_duplicate [OF m Cons.prems(2) assms] by simp
    moreover have "\<exists>a'. addAll D a tms' =
        (a', replicate (length ks) AddPending @ [decompress D (concat c) fl]) \<and>
        streams a' = (streams a)(mid := None) \<and> maxStreams a' = maxStreams a"
      by (rule Cons.IH [OF rest Cons.prems(2)]) (use True Cons.prems in auto)
    ultimately show ?thesis using tms by auto
  next
    case False
    have sub: "S \<subseteq> {..<length c}" and ne: "insert k S \<noteq> {..<length c}"
      using Cons.prems(3,4) by auto
    obtain a1 where a1: "Add D t a m = (a1, AddPending)" "holding mid c (insert k S) a1"
      "(streams a1)(mid := None) = (streams a)(mid := None)" "maxStreams a1 = maxStreams a"
      using Add_fresh [OF m Cons.prems(2) assms sub False Cons.prems(5), of D t] ne by metis
    have "\<exists>a'. addAll D a1 tms' =
        (a', replicate (length ks) AddPending @ [decompress D (concat c) fl]) \<and>
        streams a' = (streams a1)(mid := None) \<and> maxStreams a' = maxStreams a1"
      by (rule Cons.IH [OF rest a1(2)]) (use Cons.prems in auto)
    then show ?thesis using tms a1 by auto
  qed
qed

text \<open>What \<open>Split\<close> produces, in terms of \<open>carries\<close>, and what \<open>decompress\<close> makes of it.\<close>

lemma buildFlags_compressed [simp]: "buildFlags fr co AND FlagCompressed = 0 \<longleftrightarrow> \<not> co"
  by (cases fr; cases co) (simp_all add: buildFlags_def)

lemma Split_carries:
  assumes "Split E mid ct payload = Inr ms"
  obtains data co where "Compress E payload = Inr (data, co)"
    "length ms = length (splitBytes data)" "length (splitBytes data) \<le> 65535"
    "\<And>i. i < length ms \<Longrightarrow>
       carries mid (buildFlags (length ms > 1) co) (splitBytes data) i (ms ! i)"
proof -
  obtain data co where c: "Compress E payload = Inr (data, co)"
    using Compress_total by blast
  let ?n = "length (splitBytes data)"
  from assms c have n: "?n \<le> 65535"
    and ms: "ms = map (\<lambda>i. mk_fragment mid ct co (word_of_nat ?n) i (splitBytes data ! i)) [0..<?n]"
    by (auto simp: Split_def Let_def split: if_splits)
  show ?thesis
    by (rule that [OF c _ n])
      (use ms n in \<open>auto simp: carries_def mk_fragment_def word_less_nat_alt\<close>)
qed

lemma decompress_Compress:
  assumes "zstd_roundtrip E D" "Compress E payload = Inr (data, co)"
  shows "decompress D data (buildFlags fr co) = AddDone payload"
  using assms Decompress_Compress [OF assms(1)] Compress_plain
  by (cases co) (auto simp: decompress_def)

lemma carries_priority:
  "carries mid fl c i m \<Longrightarrow> carries mid fl c i (m\<lparr>Hdr := (Hdr m)\<lparr>Priority := p\<rparr>\<rparr>)"
  by (simp add: carries_def)

lemma Add_single:
  assumes "carries mid fl [c] 0 m"
  shows "Add D t a m = (a, decompress D c fl)"
  using assms validateFragment_carries [OF assms] by (simp add: Add_def carries_def)

text \<open>
  The fragments of one payload, each possibly with its priority rewritten, in any order and with any
  duplicates, reassemble to the payload at the moment the last missing one arrives.
\<close>

lemma addAll_Split:
  assumes "zstd_roundtrip E D" and sp: "Split E mid ct payload = Inr ms"
    and len: "2 \<le> length ms" and a: "streams a mid = None" "card (dom (streams a)) < maxStreams a"
    and order: "set ks \<union> {j} = {..<length ms}" "j \<notin> set ks"
    and tms: "map snd tms = map (\<lambda>i. (ms ! i)\<lparr>Hdr := (Hdr (ms ! i))\<lparr>Priority := p\<rparr>\<rparr>) (ks @ [j])"
  shows "\<exists>a'. addAll D a tms = (a', replicate (length ks) AddPending @ [AddDone payload]) \<and>
    streams a' = streams a \<and> maxStreams a' = maxStreams a"
proof -
  obtain data co where c: "Compress E payload = Inr (data, co)"
    "length ms = length (splitBytes data)" "length (splitBytes data) \<le> 65535"
    "\<And>i. i < length ms \<Longrightarrow>
       carries mid (buildFlags (length ms > 1) co) (splitBytes data) i (ms ! i)"
    using Split_carries [OF sp] by blast
  let ?fl = "buildFlags (length ms > 1) co"
  have "list_all2 (\<lambda>i m. carries mid ?fl (splitBytes data) i m) (ks @ [j]) (map snd tms)"
    unfolding tms list_all2_map2
    by (rule list.rel_refl_strong) (use order c(4) in \<open>auto intro!: carries_priority\<close>)
  then have all: "list_all2 (\<lambda>i tm. carries mid ?fl (splitBytes data) i (snd tm)) (ks @ [j]) tms"
    by (simp add: list_all2_map2)
  have "\<exists>a'. addAll D a tms =
      (a', replicate (length ks) AddPending @ [decompress D (concat (splitBytes data)) ?fl]) \<and>
      streams a' = (streams a)(mid := None) \<and> maxStreams a' = maxStreams a"
    by (rule addAll_complete [OF _ c(3) all, of "{}"])
      (use len c(2) order a in \<open>auto simp: holding_def\<close>)
  then show ?thesis
    using decompress_Compress [OF assms(1) c(1)] a(1) by (auto simp: fun_upd_idem)
qed

section \<open>Invariant of the assembler\<close>

definition present :: "'a option list \<Rightarrow> nat" where
  "present xs = length (filter (\<lambda>x. x \<noteq> None) xs)"

definition stream_ok :: "streamState \<Rightarrow> bool" where
  "stream_ok st \<longleftrightarrow>
     length (st_frags st) = unat (st_total st) \<and>
     unat (st_received st) = present (st_frags st) \<and>
     st_received st < st_total st"

definition assembler_ok :: "Assembler \<Rightarrow> bool" where
  "assembler_ok a \<longleftrightarrow>
     finite (dom (streams a)) \<and> card (dom (streams a)) \<le> maxStreams a \<and>
     (\<forall>st\<in>ran (streams a). stream_ok st)"

lemma assembler_ok_New: "assembler_ok NewAssembler"
  by (simp add: assembler_ok_def NewAssembler_def)

lemma assembler_ok_del: "assembler_ok a \<Longrightarrow> assembler_ok (a\<lparr>streams := (streams a)(mid := None)\<rparr>)"
  using card_Diff1_le [of "dom (streams a)" mid]
  by (auto simp: assembler_ok_def ran_def split: if_splits)

lemma assembler_ok_upd:
  "assembler_ok a \<Longrightarrow> mid \<in> dom (streams a) \<Longrightarrow> stream_ok st \<Longrightarrow>
   assembler_ok (a\<lparr>streams := (streams a)(mid \<mapsto> st)\<rparr>)"
  by (auto simp: assembler_ok_def ran_def insert_absorb split: if_splits)

lemma present_replicate [simp]: "present (replicate n None) = 0"
  by (simp add: present_def)

lemma present_update:
  "i < length xs \<Longrightarrow> xs ! i = None \<Longrightarrow> present (xs[i := Some v]) = Suc (present xs)"
  unfolding present_def by (induction xs arbitrary: i) (auto split: nat.splits)

lemma getOrCreate_ok:
  assumes "assembler_ok a" "getOrCreate t a h = Inr (a', st)" "FragTotal h \<noteq> 0"
  shows "assembler_ok a'" "streams a' (MsgID h) = Some st" "stream_ok st"
proof -
  have "assembler_ok a' \<and> streams a' (MsgID h) = Some st \<and> stream_ok st"
  proof (cases "streams a (MsgID h)")
    case None
    with assms show ?thesis
      by (auto simp: getOrCreate_def assembler_ok_def stream_ok_def Let_def ran_map_upd word_gt_0
          domIff split: if_splits)
  next
    case (Some x)
    with assms show ?thesis by (auto simp: getOrCreate_def assembler_ok_def ran_def)
  qed
  then show "assembler_ok a'" "streams a' (MsgID h) = Some st" "stream_ok st" by auto
qed

lemma stream_ok_receive:
  assumes "stream_ok st" "i < length (st_frags st)" "st_frags st ! i = None"
    and "st_received st + 1 \<noteq> st_total st"
  shows "stream_ok (st\<lparr>st_frags := (st_frags st)[i := Some v], st_received := st_received st + 1\<rparr>)"
proof -
  have lt: "unat (st_received st) < unat (st_total st)"
    using assms(1) by (simp add: stream_ok_def word_less_nat_alt)
  have b: "unat (st_total st) < 65536" using unsigned_less [of "st_total st"] by simp
  have suc: "unat (st_received st + 1) = Suc (unat (st_received st))"
    using lt b by (simp add: unat_word_ariths)
  moreover have "unat (st_received st + 1) \<noteq> unat (st_total st)" using assms(4) by (simp add: word_unat_eq_iff)
  ultimately show ?thesis
    using assms(1-3) lt by (simp add: stream_ok_def present_update word_less_nat_alt)
qed

lemma Add_ok:
  assumes "assembler_ok a"
  shows "assembler_ok (fst (Add D t a m))"
proof (cases "validateFragment (Hdr m) (Payload m) = None \<and> FragTotal (Hdr m) \<noteq> 1")
  case False
  then show ?thesis using assms by (auto simp: Add_def Let_def split: option.splits)
next
  case True
  then have ft: "FragTotal (Hdr m) \<noteq> 0" by (auto simp: validateFragment_def split: if_splits)
  show ?thesis
  proof (cases "getOrCreate t a (Hdr m)")
    case (Inl e)
    then show ?thesis using assms True by (simp add: Add_def Let_def)
  next
    case (Inr r)
    then obtain a' st where g: "getOrCreate t a (Hdr m) = Inr (a', st)" by (cases r) auto
    note ok = getOrCreate_ok [OF assms g ft]
    show ?thesis
      using True g ok assembler_ok_del [OF ok(1)] stream_ok_receive [OF ok(3)]
        assembler_ok_upd [OF ok(1), of "MsgID (Hdr m)"]
      by (auto simp: Add_def Let_def not_le dom_def)
  qed
qed

lemma Purge_ok: "assembler_ok a \<Longrightarrow> assembler_ok (Purge t ttl a)"
proof -
  assume ok: "assembler_ok a"
  have sub: "dom (streams (Purge t ttl a)) \<subseteq> dom (streams a)"
    and ran: "ran (streams (Purge t ttl a)) \<subseteq> ran (streams a)"
    by (auto simp: Purge_def Let_def ran_def split: option.splits if_splits)
  then show ?thesis
    using ok card_mono [OF _ sub] finite_subset [OF sub]
    by (auto simp: assembler_ok_def Purge_def Let_def intro: le_trans)
qed

text \<open>A message for one id never touches the stream of another.\<close>

lemma Add_other: "MsgID (Hdr m) \<noteq> mid \<Longrightarrow> streams (fst (Add D t a m)) mid = streams a mid"
  by (auto simp: Add_def Let_def getOrCreate_def split: option.splits sum.splits if_splits)

text \<open>The two operations of the assembler as events.\<close>

datatype assembler_event = EvAdd int Message | EvPurge int int

fun assembler_step :: "decoder \<Rightarrow> Assembler \<Rightarrow> assembler_event \<Rightarrow> Assembler" where
  "assembler_step D a (EvAdd t m) = fst (Add D t a m)"
| "assembler_step D a (EvPurge t ttl) = Purge t ttl a"

interpretation assembler: guarded_system "assembler_step D" assembler_ok for D
proof
  fix a ev
  assume "assembler_ok a"
  then show "assembler_ok (assembler_step D a ev)"
    by (cases ev) (simp_all add: Add_ok Purge_ok)
qed

text \<open>The index check of \<open>Add\<close> is against the stream in progress.\<close>

lemma Add_panic_iff:
  assumes "assembler_ok a"
  shows "snd (Add D t a m) = AddPanic \<longleftrightarrow>
    validateFragment (Hdr m) (Payload m) = None \<and>
    (\<exists>st. streams a (MsgID (Hdr m)) = Some st \<and> st_total st \<le> FragIndex (Hdr m))"
proof (cases "validateFragment (Hdr m) (Payload m)")
  case (Some e)
  then show ?thesis by (simp add: Add_def Let_def)
next
  case None
  then have v: "FragTotal (Hdr m) \<noteq> 0" "FragIndex (Hdr m) < FragTotal (Hdr m)"
    by (auto simp: validateFragment_def not_le split: if_splits)
  show ?thesis
  proof (cases "streams a (MsgID (Hdr m))")
    case None' : None
    with None v show ?thesis
      by (auto simp: Add_def Let_def getOrCreate_def decompress_def word_less_nat_alt
          split: sum.splits if_splits)
  next
    case (Some st)
    then have ok: "stream_ok st" using assms by (auto simp: assembler_ok_def ran_def)
    then have "st_total st \<noteq> 0" by (auto simp: stream_ok_def)
    have "FragIndex (Hdr m) < 1" if "FragTotal (Hdr m) = 1" using v that by simp
    then have one: "FragTotal (Hdr m) = 1 \<Longrightarrow> \<not> st_total st \<le> FragIndex (Hdr m)"
      using \<open>st_total st \<noteq> 0\<close> by (metis leD word_less_1 word_gt_0 order_le_less_trans)
    with None Some ok show ?thesis
      by (auto simp: Add_def Let_def getOrCreate_def decompress_def stream_ok_def word_le_nat_alt
          split: sum.splits)
  qed
qed

section \<open>Properties\<close>

text \<open>
  C4: A payload that \<open>Split\<close> cuts into several fragments is restored by the assembler whatever the
  order in which the fragments arrive and however often some are repeated: every fragment before
  the last missing one leaves the message incomplete, that one delivers the original payload, and the
  assembler is left as it was. The priority byte of the fragments may be rewritten in between, as
  the broker does. (Relies on the decoder restoring what the encoder produced.)
\<close>

theorem split_reassembles_any_order:
  assumes "zstd_roundtrip E D" and "Split E mid ct payload = Inr ms" and "2 \<le> length ms"
    and "streams a mid = None" and "card (dom (streams a)) < maxStreams a"
    and "set ks \<union> {j} = {..<length ms}" and "j \<notin> set ks"
    and "map snd tms = map (\<lambda>i. (ms ! i)\<lparr>Hdr := (Hdr (ms ! i))\<lparr>Priority := p\<rparr>\<rparr>) (ks @ [j])"
  shows "\<exists>a'. addAll D a tms = (a', replicate (length ks) AddPending @ [AddDone payload]) \<and>
    streams a' = streams a \<and> maxStreams a' = maxStreams a"
  using assms by (rule addAll_Split)

lemma Split_length:
  assumes "ThresholdBytes < length payload" "length (E payload) \<noteq> 0"
    and "length (E payload) \<le> 65535 * ChunkSize"
  shows "\<exists>ms. Split E mid ct payload = Inr ms \<and>
    length ms = (length (E payload) + (ChunkSize - 1)) div ChunkSize"
proof -
  define n where "n = (length (E payload) + (ChunkSize - 1)) div ChunkSize"
  have "n < Suc 65535"
    using assms(3) unfolding n_def by (subst div_less_iff_less_mult) (simp_all add: ChunkSize_def)
  moreover have "length (splitLoop (E payload)) = n" by (simp only: n_def length_splitLoop)
  ultimately show ?thesis
    unfolding n_def [symmetric] using assms(1,2) by (simp add: Split_def Compress_def Let_def splitBytes_def)
qed

theorem split_reassembles_any_order_witness:
  "\<exists>ms a'. Split (\<lambda>x. x) 7 ContentBinary (replicate 600000 0) = Inr ms \<and> length ms = 2 \<and>
    addAll Inr NewAssembler
      (map (\<lambda>i. (0, (ms ! i)\<lparr>Hdr := (Hdr (ms ! i))\<lparr>Priority := PriorityHigh\<rparr>\<rparr>)) [1, 1, 0])
    = (a', [AddPending, AddPending, AddDone (replicate 600000 0)])"
proof -
  let ?p = "replicate 600000 (0 :: byte)"
  have l: "length ?p = 600000" by (rule length_replicate)
  obtain ms where ms: "Split (\<lambda>x. x) 7 ContentBinary ?p = Inr ms" "length ms = 2"
    using Split_length [of ?p "\<lambda>x. x" 7 ContentBinary] unfolding l
    by (auto simp: ThresholdBytes_def ChunkSize_def)
  let ?tms = "map (\<lambda>i. (0 :: int, (ms ! i)\<lparr>Hdr := (Hdr (ms ! i))\<lparr>Priority := PriorityHigh\<rparr>\<rparr>)) ([1, 1] @ [0])"
  have "\<exists>a'. addAll Inr NewAssembler ?tms =
      (a', replicate (length [1, 1 :: nat]) AddPending @ [AddDone ?p]) \<and>
      streams a' = streams NewAssembler \<and> maxStreams a' = maxStreams NewAssembler"
    by (rule split_reassembles_any_order [OF _ ms(1), of Inr NewAssembler "[1, 1]" 0 _ PriorityHigh])
      (use ms(2) in \<open>auto simp: zstd_roundtrip_def NewAssembler_def DefaultMaxStreams_def\<close>)
  with ms show ?thesis by (auto simp: numeral_2_eq_2)
qed

text \<open>
  The shape of what \<open>Split\<close> sends: between 1 and 65535 fragments, numbered in order, all with
  the total count, none above 512 KB and each with its true length in the header; their payloads in
  order are the compressed data.
\<close>

theorem split_fragments:
  assumes "Split E mid ct payload = Inr ms"
  shows "0 < length ms \<and> length ms \<le> 65535 \<and>
    (\<forall>i<length ms. MsgID (Hdr (ms ! i)) = mid \<and> FragIndex (Hdr (ms ! i)) = word_of_nat i \<and>
       FragTotal (Hdr (ms ! i)) = word_of_nat (length ms) \<and>
       unat (PayloadLen (Hdr (ms ! i))) = length (Payload (ms ! i)) \<and>
       length (Payload (ms ! i)) \<le> 524288) \<and>
    Inr (concat (map Payload ms)) = map_sum id fst (Compress E payload)"
proof -
  obtain data co where c: "Compress E payload = Inr (data, co)"
    "length ms = length (splitBytes data)" "length (splitBytes data) \<le> 65535"
    "\<And>i. i < length ms \<Longrightarrow>
       carries mid (buildFlags (length ms > 1) co) (splitBytes data) i (ms ! i)"
    using Split_carries [OF assms] by blast
  have len: "length (splitBytes data ! i) \<le> 524288" if "i < length ms" for i
    using that c(2) splitBytes_chunk [of "splitBytes data ! i" data] by (simp add: ChunkSize_def)
  have "map Payload ms = splitBytes data"
    by (rule nth_equalityI) (use c(2,4) in \<open>auto simp: carries_def\<close>)
  moreover have "unat (word_of_nat (length (splitBytes data ! i)) :: u32) = length (splitBytes data ! i)"
    if "i < length ms" for i using len [OF that] by simp
  moreover have "0 < length ms" using c(2) splitBytes_nonempty [of data] by simp
  ultimately show ?thesis using c len by (auto simp: carries_def)
qed

theorem split_fragments_witness:
  "\<exists>ms. Split (\<lambda>x. x) 7 ContentText [1, 2, 3] = Inr ms \<and> length ms = 1 \<and>
     FragTotal (Hdr (ms ! 0)) = 1 \<and> Payload (ms ! 0) = [1, 2, 3]"
proof -
  obtain ms where ms: "Split (\<lambda>x. x) 7 ContentText [1, 2, 3] = Inr ms" "length ms = 1"
    by (simp add: Split_def Compress_def ThresholdBytes_def splitBytes_def splitLoop_step ChunkSize_def)
  have "Inr (concat (map Payload ms)) = map_sum id fst (Compress (\<lambda>x. x) [1, 2, 3])"
    and "FragTotal (Hdr (ms ! 0)) = word_of_nat (length ms)"
    using split_fragments [OF ms(1)] by auto
  with ms show ?thesis
    by (auto simp: Compress_def ThresholdBytes_def length_Suc_conv)
qed

text \<open>
  C20: In every state reached by any sequence of arriving messages and purges there are at most 1024
  streams, and each stream has one cell per expected fragment, counts exactly the cells that are
  filled, and still misses some.
\<close>

theorem assembler_reachable_ok:
  "assembler_ok (foldl (assembler_step D) NewAssembler evs) \<and>
   card (dom (streams (foldl (assembler_step D) NewAssembler evs))) \<le> 1024"
proof -
  let ?a = "foldl (assembler_step D) NewAssembler evs"
  have "maxStreams (assembler_step D a ev) = maxStreams a" for a ev
    by (cases ev) (auto simp: Add_def Let_def Purge_def getOrCreate_def
        split: option.splits sum.splits if_splits)
  then have "maxStreams ?a = maxStreams NewAssembler"
    by (induction evs rule: rev_induct) simp_all
  moreover have "assembler_ok ?a" by (rule assembler.run_inv) (rule assembler_ok_New)
  ultimately show ?thesis
    by (simp add: assembler_ok_def NewAssembler_def DefaultMaxStreams_def)
qed

text \<open>
  \<open>Add\<close> panics (slice index out of range) exactly on a fragment that passes validation and whose
  index is not below the fragment count with which its stream was opened: validation compares the
  index with the count in the same header, the slice was sized by an earlier one.
\<close>

theorem add_panic_condition:
  assumes "assembler_ok a"
  shows "snd (Add D t a m) = AddPanic \<longleftrightarrow>
    validateFragment (Hdr m) (Payload m) = None \<and>
    (\<exists>st. streams a (MsgID (Hdr m)) = Some st \<and> st_total st \<le> FragIndex (Hdr m))"
  using assms by (rule Add_panic_iff)

theorem add_panic_condition_witness:
  "snd (Add Inr 0 (fst (Add Inr 0 NewAssembler
       \<lparr>Hdr = zero_Header\<lparr>FragTotal := 2, PayloadLen := 1\<rparr>, Payload = [5]\<rparr>))
     \<lparr>Hdr = zero_Header\<lparr>FragIndex := 5, FragTotal := 10, PayloadLen := 1\<rparr>, Payload = [6]\<rparr>) = AddPanic"
proof -
  let ?a = "fst (Add Inr 0 NewAssembler
    \<lparr>Hdr = zero_Header\<lparr>FragTotal := 2, PayloadLen := 1\<rparr>, Payload = [5]\<rparr>)"
  have "assembler_ok ?a" by (rule Add_ok) (rule assembler_ok_New)
  moreover have "\<exists>st. streams ?a 0 = Some st \<and> st_total st = 2"
    by (simp add: Add_def zero_Header_def validateFragment_def getOrCreate_def NewAssembler_def
        DefaultMaxStreams_def Let_def)
  ultimately show ?thesis
    using add_panic_condition [of ?a Inr 0
      "\<lparr>Hdr = zero_Header\<lparr>FragIndex := 5, FragTotal := 10, PayloadLen := 1\<rparr>, Payload = [6]\<rparr>"]
    by (auto simp: zero_Header_def validateFragment_def)
qed

end
