(* ===== verification/Wal.thy ===== *)
theory Wal
  imports P2P_Prelude
begin

text \<open>
  The write-ahead log of \<^verbatim>\<open>pkg/wal/wal.go\<close>. The file is its bytes; every system call that can
  fail takes its outcome from the environment as an argument. \<open>Compact\<close> is composed of the part
  that runs without the lock (\<open>compactPrepare\<close>) and the part under the lock (\<open>compactCommit\<close>), so
  that an append between the two can be expressed.
\<close>

section \<open>Records\<close>

definition OpSend :: u8 where "OpSend = 1"
definition OpAck :: u8 where "OpAck = 2"
definition headerSize :: nat where "headerSize = 1 + 4 + 8"

type_synonym walrec = "u8 \<times> u64 \<times> bytes"

record Entry =
  e_MsgID :: u64
  e_Payload :: bytes

text \<open>
  The file contents, whether the write handle is usable (a failed reopen leaves a nil handle) and
  the \<^verbatim>\<open>fsync\<close> option.
\<close>

record WAL =
  w_file :: bytes
  w_handle :: bool
  w_fsync :: bool

text \<open>The buffer one record is serialised into, by \<open>writeRecord\<close> and by \<open>Compact\<close>.\<close>

definition recordBytes :: "u8 \<Rightarrow> u64 \<Rightarrow> bytes \<Rightarrow> bytes" where
  "recordBytes op msgID payload =
     (let payLen = word_of_nat (length payload) :: u32
      in [op] @ PutUint32 payLen @ PutUint64 msgID @ take (unat payLen) payload)"

definition Open :: "error option \<Rightarrow> bytes \<Rightarrow> bool \<Rightarrow> WAL result" where
  "Open openErr file fsync =
     (case openErr of
        Some e \<Rightarrow> Inl (Wrap ''wal: open'' e)
      | None \<Rightarrow> Inr \<lparr>w_file = file, w_handle = True, w_fsync = fsync\<rparr>)"

definition writeRecord ::
  "write_fault \<Rightarrow> error option \<Rightarrow> u8 \<Rightarrow> u64 \<Rightarrow> bytes \<Rightarrow> WAL \<Rightarrow> WAL \<times> error option" where
  "writeRecord wfl sfl op msgID payload w =
     (let buf = recordBytes op msgID payload in
      if \<not> w_handle w then (w, Some (Wrap ''wal: write record'' (Errorf ''invalid argument'')))
      else case wfl of
             Some (k, e) \<Rightarrow> (w\<lparr>w_file := w_file w @ take k buf\<rparr>, Some (Wrap ''wal: write record'' e))
           | None \<Rightarrow>
               let w' = w\<lparr>w_file := w_file w @ buf\<rparr> in
               if w_fsync w
               then (case sfl of
                       Some e \<Rightarrow> (w', Some (Wrap ''wal: fsync'' e))
                     | None \<Rightarrow> (w', None))
               else (w', None))"

definition Append ::
  "write_fault \<Rightarrow> error option \<Rightarrow> u64 \<Rightarrow> bytes \<Rightarrow> WAL \<Rightarrow> WAL \<times> error option" where
  "Append wfl sfl msgID payload w = writeRecord wfl sfl OpSend msgID payload w"

definition Ack :: "write_fault \<Rightarrow> error option \<Rightarrow> u64 \<Rightarrow> WAL \<Rightarrow> WAL \<times> error option" where
  "Ack wfl sfl msgID w = writeRecord wfl sfl OpAck msgID [] w"

section \<open>Replay\<close>

type_synonym replayState = "(u64 \<rightharpoonup> bytes) \<times> u64 list"

text \<open>The switch on the operation of one record: the pending map and the insertion order.\<close>

fun applyRecord :: "replayState \<Rightarrow> walrec \<Rightarrow> replayState" where
  "applyRecord (pending, order) (op, msgID, payload) =
     (if op = OpSend
      then (pending(msgID \<mapsto> payload),
            if pending msgID = None then order @ [msgID] else order)
      else if op = OpAck then (pending(msgID := None), order)
      else (pending, order))"

function replayLoop :: "bytes \<Rightarrow> error \<Rightarrow> replayState \<Rightarrow> replayState result" where
  "replayLoop rx e s =
     (case ReadFull headerSize rx e of
        (Inl err, _) \<Rightarrow>
          if err = IoEOF \<or> err = IoErrUnexpectedEOF then Inr s
          else Inl (Wrap ''wal: replay read header'' err)
      | (Inr hdr, rest) \<Rightarrow>
          let op = hdr ! 0;
              payLen = Uint32 (take 4 (drop 1 hdr));
              msgID = Uint64 (take 8 (drop 5 hdr))
          in (case (if payLen > 0 then ReadFull (unat payLen) rest e else (Inr [], rest)) of
                (Inl _, _) \<Rightarrow> Inr s
              | (Inr payload, rest') \<Rightarrow> replayLoop rest' e (applyRecord s (op, msgID, payload))))"
  by pat_completeness auto
termination
  by (relation "measure (\<lambda>(rx, e, s). length rx)")
    (auto dest!: ReadFull_Inr [OF sym] simp: headerSize_def split: if_splits)

declare replayLoop.simps [simp del]

text \<open>The unacked entries in insertion order.\<close>

definition replayEntries :: "replayState \<Rightarrow> Entry list" where
  "replayEntries s =
     (case s of (pending, order) \<Rightarrow>
        concat (map (\<lambda>i. case pending i of
                            Some payload \<Rightarrow> [\<lparr>e_MsgID = i, e_Payload = payload\<rparr>]
                          | None \<Rightarrow> []) order))"

definition Replay :: "error option \<Rightarrow> error \<Rightarrow> WAL \<Rightarrow> Entry list result" where
  "Replay openErr readErr w =
     (case openErr of
        Some e \<Rightarrow> Inl (Wrap ''wal: replay open'' e)
      | None \<Rightarrow>
          (case replayLoop (w_file w) readErr (Map.empty, []) of
             Inl err \<Rightarrow> Inl err
           | Inr s \<Rightarrow> Inr (replayEntries s)))"

section \<open>Compaction\<close>

text \<open>The outcomes of the system calls of one \<open>Compact\<close>.\<close>

record compactEnv =
  ce_open :: "error option"
  ce_read :: error
  ce_create :: "error option"
  ce_write :: "error option"
  ce_sync :: "error option"
  ce_rename :: "error option"
  ce_reopen :: "error option"

definition compactPrepare :: "compactEnv \<Rightarrow> WAL \<Rightarrow> bytes result" where
  "compactPrepare env w =
     (case Replay (ce_open env) (ce_read env) w of
        Inl err \<Rightarrow> Inl (Wrap ''wal: compact replay'' err)
      | Inr entries \<Rightarrow>
          (case ce_create env of
             Some e \<Rightarrow> Inl (Wrap ''wal: compact create tmp'' e)
           | None \<Rightarrow>
               (case (entries, ce_write env) of
                  (_ # _, Some e) \<Rightarrow> Inl (Wrap ''wal: compact write'' e)
                | _ \<Rightarrow>
                   (case ce_sync env of
                      Some e \<Rightarrow> Inl (Wrap ''wal: compact sync'' e)
                    | None \<Rightarrow>
                        Inr (concat (map (\<lambda>e. recordBytes OpSend (e_MsgID e) (e_Payload e)) entries))))))"

definition compactCommit :: "compactEnv \<Rightarrow> bytes \<Rightarrow> WAL \<Rightarrow> WAL \<times> error option" where
  "compactCommit env tmp w =
     (case ce_rename env of
        Some e \<Rightarrow> (w\<lparr>w_handle := (ce_reopen env = None)\<rparr>, Some (Wrap ''wal: compact rename'' e))
      | None \<Rightarrow>
          (case ce_reopen env of
             Some e \<Rightarrow> (w\<lparr>w_file := tmp, w_handle := False\<rparr>, Some (Wrap ''wal: compact reopen'' e))
           | None \<Rightarrow> (w\<lparr>w_file := tmp, w_handle := True\<rparr>, None)))"

definition Compact :: "compactEnv \<Rightarrow> WAL \<Rightarrow> WAL \<times> error option" where
  "Compact env w =
     (case compactPrepare env w of
        Inl err \<Rightarrow> (w, Some err)
      | Inr tmp \<Rightarrow> compactCommit env tmp w)"

section \<open>The log as a stream of records\<close>

abbreviation wal_rec_bytes :: "walrec \<Rightarrow> bytes" where
  "wal_rec_bytes r \<equiv> recordBytes (fst r) (fst (snd r)) (snd (snd r))"

definition rec_ok :: "walrec \<Rightarrow> bool" where
  "rec_ok r \<longleftrightarrow> length (snd (snd r)) < 4294967296"

definition logBytes :: "walrec list \<Rightarrow> bytes" where
  "logBytes recs = concat (map wal_rec_bytes recs)"

text \<open>One turn of the loop of \<open>Replay\<close> as a reader of records.\<close>

definition readRecord :: "walrec reader" where
  "readRecord rx e =
     (case ReadFull headerSize rx e of
        (Inl err, rest) \<Rightarrow> (Inl err, rest)
      | (Inr hdr, rest) \<Rightarrow>
          let op = hdr ! 0;
              payLen = Uint32 (take 4 (drop 1 hdr));
              msgID = Uint64 (take 8 (drop 5 hdr))
          in (case (if payLen > 0 then ReadFull (unat payLen) rest e else (Inr [], rest)) of
                (Inl err, rest') \<Rightarrow> (Inl err, rest')
              | (Inr payload, rest') \<Rightarrow> (Inr (op, msgID, payload), rest')))"

definition recordHeader :: "u8 \<Rightarrow> u64 \<Rightarrow> bytes \<Rightarrow> bytes" where
  "recordHeader op i p = [op] @ PutUint32 (word_of_nat (length p)) @ PutUint64 i"

lemma length_recordHeader [simp]: "length (recordHeader op i p) = headerSize"
  by (simp add: recordHeader_def headerSize_def codec_simps)

lemma recordBytes_eq:
  "length p < 4294967296 \<Longrightarrow> recordBytes op i p = recordHeader op i p @ p"
  by (simp add: recordBytes_def recordHeader_def Let_def)

lemma recordHeader_fields:
  "recordHeader op i p ! 0 = op"
  "Uint32 (take 4 (drop (Suc 0) (recordHeader op i p))) = word_of_nat (length p)"
  "Uint64 (take 8 (drop 5 (recordHeader op i p))) = i"
  by (simp_all add: recordHeader_def codec_simps)

lemma readRecord_header:
  assumes "length p < 4294967296"
  shows "readRecord (recordHeader op i p @ rest) e =
     (case (if p = [] then (Inr [], rest) else ReadFull (length p) rest e) of
        (Inl err, rest') \<Rightarrow> (Inl err, rest')
      | (Inr payload, rest') \<Rightarrow> (Inr (op, i, payload), rest'))"
proof -
  have "(0 < (word_of_nat (length p) :: u32)) \<longleftrightarrow> p \<noteq> []"
    using assms by (simp add: word_less_nat_alt)
  then show ?thesis
    using assms by (simp add: readRecord_def recordHeader_fields)
qed

interpretation wal_stream: framed wal_rec_bytes readRecord rec_ok "\<lambda>r. r"
proof unfold_locales
  fix m rest e
  assume "rec_ok m"
  then show "readRecord (wal_rec_bytes m @ rest) e = (Inr m, rest)"
    by (cases m) (simp add: rec_ok_def recordBytes_eq readRecord_header)
next
  fix e
  show "\<exists>err. readRecord [] e = (Inl err, [])"
    by (simp add: readRecord_def ReadFull_def headerSize_def)
next
  fix m xs ys e
  assume "rec_ok m" and eq: "wal_rec_bytes m = xs @ ys" and "ys \<noteq> []"
  obtain op i p where m: "m = (op, i, p)" by (cases m)
  with \<open>rec_ok m\<close> have len: "length p < 4294967296" by (simp add: rec_ok_def)
  from eq m len have "recordHeader op i p @ p = xs @ ys" by (simp add: recordBytes_eq)
  from append_cut [OF this] consider (body) zs where "xs = recordHeader op i p @ zs" "p = zs @ ys"
    | (hdr) zs where "recordHeader op i p = xs @ zs" "zs \<noteq> []" by blast
  then show "\<exists>err. readRecord xs e = (Inl err, [])"
  proof cases
    case body
    with len \<open>ys \<noteq> []\<close> show ?thesis
      using ReadFull_short [of zs "length p" e] by (auto simp: readRecord_header)
  next
    case hdr
    then have "length xs < headerSize"
      using length_recordHeader [of op i p] by (metis length_append length_greater_0_conv less_add_same_cancel1)
    then show ?thesis using ReadFull_short [of xs headerSize e] by (auto simp: readRecord_def)
  qed
qed

section \<open>Replay computes the unacked records\<close>

lemma ReadFull_eof: "ReadFull n rx IoEOF = (Inl err, rest) \<Longrightarrow> err = IoEOF \<or> err = IoErrUnexpectedEOF"
  by (auto simp: ReadFull_def split: if_splits)

lemma readRecord_Inr_shorter: "readRecord rx e = (Inr r, rest) \<Longrightarrow> length rest < length rx"
  by (auto simp: readRecord_def Let_def headerSize_def split: prod.splits sum.splits if_splits
      dest!: ReadFull_Inr)

lemma replayLoop_step:
  "replayLoop rx IoEOF s =
     (case readRecord rx IoEOF of
        (Inl _, _) \<Rightarrow> Inr s
      | (Inr r, rest) \<Rightarrow> replayLoop rest IoEOF (applyRecord s r))"
  by (subst replayLoop.simps)
    (auto simp: readRecord_def Let_def split: prod.splits sum.splits if_splits dest!: ReadFull_eof)

lemma replayLoop_read_until:
  "length rx < n \<Longrightarrow> replayLoop rx IoEOF s = Inr (foldl applyRecord s (read_until readRecord n rx IoEOF))"
proof (induction n arbitrary: rx s)
  case 0
  then show ?case by simp
next
  case (Suc n)
  show ?case
  proof (cases "readRecord rx IoEOF")
    case (Pair r rest)
    show ?thesis
    proof (cases r)
      case (Inl err)
      with Pair show ?thesis by (simp add: replayLoop_step [of rx])
    next
      case (Inr m)
      with Pair Suc readRecord_Inr_shorter [of rx IoEOF m rest] show ?thesis
        by (simp add: replayLoop_step [of rx])
    qed
  qed
qed

abbreviation replay_of :: "walrec list \<Rightarrow> replayState" where
  "replay_of recs \<equiv> foldl applyRecord (Map.empty, []) recs"

lemma Replay_logBytes:
  assumes "\<forall>r\<in>set recs. rec_ok r" "w_file w = logBytes recs"
  shows "Replay None IoEOF w = Inr (replayEntries (replay_of recs))"
proof -
  have "replayLoop (logBytes recs) IoEOF (Map.empty, []) = Inr (replay_of recs)"
    using replayLoop_read_until [of "logBytes recs" "Suc (length (logBytes recs))" "(Map.empty, [])"]
      wal_stream.read_until_wr [OF assms(1), of "Suc (length (logBytes recs))" IoEOF]
    by (simp add: logBytes_def)
  with assms(2) show ?thesis by (simp add: Replay_def)
qed

text \<open>
  What it means for a message to be unacked in a log: its last send or ack record is a send, and
  carries the payload.
\<close>

definition unacked :: "walrec list \<Rightarrow> u64 \<Rightarrow> bytes \<Rightarrow> bool" where
  "unacked recs i p \<longleftrightarrow>
     (\<exists>xs ys. recs = xs @ (OpSend, i, p) # ys \<and>
        (\<forall>(op, j, q)\<in>set ys. j = i \<longrightarrow> op \<noteq> OpSend \<and> op \<noteq> OpAck))"

lemma OpSend_neq_OpAck [simp]: "OpSend \<noteq> OpAck" "OpAck \<noteq> OpSend"
  by (simp_all add: OpSend_def OpAck_def)

lemma unacked_Nil [simp]: "\<not> unacked [] i p"
  by (simp add: unacked_def)

lemma unacked_snoc:
  "unacked (recs @ [(op, j, q)]) i p \<longleftrightarrow>
     (if j = i \<and> op = OpSend then p = q
      else if j = i \<and> op = OpAck then False
      else unacked recs i p)" (is "?L \<longleftrightarrow> ?R")
proof
  assume ?L
  then obtain xs ys where eq: "recs @ [(op, j, q)] = xs @ (OpSend, i, p) # ys"
    and ys: "\<forall>(op, j, q)\<in>set ys. j = i \<longrightarrow> op \<noteq> OpSend \<and> op \<noteq> OpAck"
    by (auto simp: unacked_def)
  show ?R
  proof (cases ys rule: rev_cases)
    case Nil
    with eq show ?thesis by auto
  next
    case (snoc zs z)
    with eq have "recs = xs @ (OpSend, i, p) # zs" "z = (op, j, q)" by auto
    with ys snoc show ?thesis by (auto simp: unacked_def)
  qed
next
  assume R: ?R
  consider (send) "j = i" "op = OpSend" | (ack) "j = i" "op = OpAck"
    | (other) "\<not> (j = i \<and> op = OpSend)" "\<not> (j = i \<and> op = OpAck)" by blast
  then show ?L
  proof cases
    case send
    with R show ?thesis
      unfolding unacked_def by (intro exI [of _ recs] exI [of _ "[]"]) simp
  next
    case ack
    with R show ?thesis by simp
  next
    case other
    with R obtain xs ys where "recs = xs @ (OpSend, i, p) # ys"
      "\<forall>(op, j, q)\<in>set ys. j = i \<longrightarrow> op \<noteq> OpSend \<and> op \<noteq> OpAck"
      by (auto simp: unacked_def)
    with other show ?thesis
      unfolding unacked_def by (intro exI [of _ xs] exI [of _ "ys @ [(op, j, q)]"]) auto
  qed
qed

lemma replay_of_pending: "fst (replay_of recs) i = Some p \<longleftrightarrow> unacked recs i p"
proof (induction recs rule: rev_induct)
  case Nil
  then show ?case by simp
next
  case (snoc r recs)
  obtain op j q where r: "r = (op, j, q)" by (cases r)
  obtain pending order where s: "replay_of recs = (pending, order)" by fastforce
  show ?case using snoc by (auto simp: r s unacked_snoc)
qed

lemma replay_of_order: "dom (fst (replay_of recs)) \<subseteq> set (snd (replay_of recs))"
proof (induction recs rule: rev_induct)
  case Nil
  then show ?case by simp
next
  case (snoc r recs)
  obtain op j q where r: "r = (op, j, q)" by (cases r)
  obtain pending order where s: "replay_of recs = (pending, order)" by fastforce
  show ?case using snoc by (auto simp: r s subset_iff domIff)
qed

lemma set_replayEntries:
  "dom (fst s) \<subseteq> set (snd s) \<Longrightarrow>
   set (replayEntries s) = {\<lparr>e_MsgID = i, e_Payload = p\<rparr> | i p. fst s i = Some p}"
  by (cases s) (auto simp: replayEntries_def split: option.splits)

lemma set_replayEntries_of:
  "set (replayEntries (replay_of recs)) =
     {\<lparr>e_MsgID = i, e_Payload = p\<rparr> | i p. unacked recs i p}"
  by (simp add: set_replayEntries [OF replay_of_order] replay_of_pending)

lemma unacked_unique: "unacked recs i p \<Longrightarrow> unacked recs i q \<Longrightarrow> p = q"
  by (metis option.inject replay_of_pending)

lemma unacked_mem: "unacked recs i p \<Longrightarrow> (OpSend, i, p) \<in> set recs"
  by (auto simp: unacked_def)

section \<open>Identifiers are not reused\<close>

text \<open>
  The insertion order keeps an identifier each time it becomes pending, so the entries are free of
  duplicates exactly as long as no identifier is sent again after its ack.
\<close>

definition no_reuse :: "walrec list \<Rightarrow> bool" where
  "no_reuse recs \<longleftrightarrow>
     (\<forall>xs i p ys. recs = xs @ (OpSend, i, p) # ys \<longrightarrow> (\<forall>q. (OpAck, i, q) \<notin> set xs))"

lemma no_reuse_snoc:
  "no_reuse (recs @ [r]) \<Longrightarrow> no_reuse recs"
  "no_reuse (recs @ [(OpSend, i, p)]) \<Longrightarrow> (OpAck, i, q) \<notin> set recs"
  unfolding no_reuse_def by (metis append_Cons append_assoc) blast

lemma pending_unless_acked:
  "i \<in> set (snd (replay_of recs)) \<Longrightarrow> \<forall>q. (OpAck, i, q) \<notin> set recs \<Longrightarrow>
   i \<in> dom (fst (replay_of recs))"
proof (induction recs rule: rev_induct)
  case Nil
  then show ?case by simp
next
  case (snoc r recs)
  obtain op j q where r: "r = (op, j, q)" by (cases r)
  obtain pending order where s: "replay_of recs = (pending, order)" by fastforce
  show ?case using snoc by (auto simp: r s domIff split: if_splits)
qed

lemma distinct_replay_order: "no_reuse recs \<Longrightarrow> distinct (snd (replay_of recs))"
proof (induction recs rule: rev_induct)
  case Nil
  then show ?case by simp
next
  case (snoc r recs)
  obtain op j q where r: "r = (op, j, q)" by (cases r)
  obtain pending order where s: "replay_of recs = (pending, order)" by fastforce
  have IH: "distinct order" using snoc no_reuse_snoc(1) s by fastforce
  have "j \<notin> set order" if "op = OpSend" "pending j = None"
    using pending_unless_acked [of j recs] no_reuse_snoc(2) [of recs j q] snoc.prems that
    by (auto simp: r s)
  with IH show ?case by (auto simp: r s)
qed

lemma distinct_replayEntries:
  assumes "distinct (snd s)"
  shows "distinct (map e_MsgID (replayEntries s))"
proof -
  obtain pending order where s: "s = (pending, order)" by fastforce
  have "distinct (concat (map (\<lambda>i. map e_MsgID (case pending i of
      Some payload \<Rightarrow> [\<lparr>e_MsgID = i, e_Payload = payload\<rparr>] | None \<Rightarrow> [])) order))"
    using assms unfolding s by (induction order) (auto split: option.splits)
  then show ?thesis by (simp add: s replayEntries_def map_concat comp_def)
qed

section \<open>Compaction\<close>

definition sends :: "Entry list \<Rightarrow> walrec list" where
  "sends es = map (\<lambda>e. (OpSend, e_MsgID e, e_Payload e)) es"

lemma sends_snoc [simp]: "sends (es @ [e]) = sends es @ [(OpSend, e_MsgID e, e_Payload e)]"
  by (simp add: sends_def)

lemma sends_Nil [simp]: "sends [] = []"
  by (simp add: sends_def)

lemma replay_of_sends:
  "\<forall>e\<in>set es. f (e_MsgID e) = Some (e_Payload e) \<Longrightarrow>
   fst (replay_of (sends es)) = f |` (e_MsgID ` set es)"
proof (induction es rule: rev_induct)
  case Nil
  then show ?case by simp
next
  case (snoc e es)
  obtain pending order where s: "replay_of (sends es) = (pending, order)" by fastforce
  from snoc s have "pending = f |` (e_MsgID ` set es)" by simp
  with snoc.prems s show ?case by (auto simp: fun_eq_iff restrict_map_def)
qed

lemma order_of_sends:
  "distinct (map e_MsgID es) \<Longrightarrow> snd (replay_of (sends es)) = map e_MsgID es"
proof (induction es rule: rev_induct)
  case Nil
  then show ?case by simp
next
  case (snoc e es)
  obtain pending order where s: "replay_of (sends es) = (pending, order)" by fastforce
  with snoc have order: "order = map e_MsgID es" by simp
  have "pending (e_MsgID e) = None"
  proof (rule ccontr)
    assume "pending (e_MsgID e) \<noteq> None"
    then obtain p where "unacked (sends es) (e_MsgID e) p"
      using s replay_of_pending [of "sends es" "e_MsgID e"] by auto
    then have "e_MsgID e \<in> e_MsgID ` set es" by (auto simp: sends_def dest!: unacked_mem)
    with snoc.prems show False by simp
  qed
  with s order show ?case by simp
qed

lemma replayEntries_pending: "e \<in> set (replayEntries s) \<Longrightarrow> fst s (e_MsgID e) = Some (e_Payload e)"
  by (cases s) (auto simp: replayEntries_def split: option.splits)

text \<open>Replaying the compacted log gives the same pending map.\<close>

lemma replay_of_compacted:
  "fst (replay_of (sends (replayEntries (replay_of recs)))) = fst (replay_of recs)"
proof -
  let ?s = "replay_of recs"
  have "fst (replay_of (sends (replayEntries ?s))) = fst ?s |` (e_MsgID ` set (replayEntries ?s))"
    by (rule replay_of_sends) (simp add: replayEntries_pending)
  also have "e_MsgID ` set (replayEntries ?s) = dom (fst ?s)"
    by (force simp: set_replayEntries [OF replay_of_order])
  finally show ?thesis by (simp add: fun_eq_iff restrict_map_def domIff)
qed

lemma replayEntries_compacted:
  assumes "no_reuse recs"
  shows "replayEntries (replay_of (sends (replayEntries (replay_of recs)))) =
    replayEntries (replay_of recs)"
proof -
  let ?es = "replayEntries (replay_of recs)"
  have d: "distinct (map e_MsgID ?es)"
    by (intro distinct_replayEntries distinct_replay_order assms)
  have "\<forall>e\<in>set es. fst (replay_of recs) (e_MsgID e) = Some (e_Payload e) \<Longrightarrow>
    concat (map (\<lambda>i. case fst (replay_of recs) i of
      Some payload \<Rightarrow> [\<lparr>e_MsgID = i, e_Payload = payload\<rparr>] | None \<Rightarrow> []) (map e_MsgID es)) = es" for es
    by (induction es) auto
  then show ?thesis
    using replay_of_compacted [of recs] order_of_sends [OF d] replayEntries_pending
    by (cases "replay_of (sends ?es)") (simp add: replayEntries_def split: prod.splits)
qed

lemma rec_ok_sends:
  assumes "\<forall>r\<in>set recs. rec_ok r"
  shows "\<forall>r\<in>set (sends (replayEntries (replay_of recs))). rec_ok r"
proof
  fix r
  assume "r \<in> set (sends (replayEntries (replay_of recs)))"
  then obtain i p where "r = (OpSend, i, p)" "unacked recs i p"
    by (auto simp: sends_def set_replayEntries_of)
  with assms show "rec_ok r" by (auto dest: unacked_mem)
qed

definition compactEnvOk :: compactEnv where
  "compactEnvOk = \<lparr>ce_open = None, ce_read = IoEOF, ce_create = None, ce_write = None,
     ce_sync = None, ce_rename = None, ce_reopen = None\<rparr>"

lemma compactPrepare_ok:
  assumes "\<forall>r\<in>set recs. rec_ok r" "w_file w = logBytes recs"
  shows "compactPrepare compactEnvOk w = Inr (logBytes (sends (replayEntries (replay_of recs))))"
  by (simp add: compactPrepare_def compactEnvOk_def Replay_logBytes [OF assms] sends_def
      logBytes_def comp_def split: list.split)

section \<open>The contract the broker relies on\<close>

text \<open>
  A durable log maps identifiers to payloads: an append sets one, an ack removes one, compaction
  changes nothing.
\<close>

locale durable_log =
  fixes log_append :: "u64 \<Rightarrow> bytes \<Rightarrow> 'w \<Rightarrow> 'w" and log_ack :: "u64 \<Rightarrow> 'w \<Rightarrow> 'w"
    and log_compact :: "'w \<Rightarrow> 'w" and pend :: "'w \<Rightarrow> u64 \<rightharpoonup> bytes" and invar :: "'w \<Rightarrow> bool"
  assumes pend_append:
      "invar w \<Longrightarrow> length p < 4294967296 \<Longrightarrow> pend (log_append i p w) = (pend w)(i \<mapsto> p)"
    and pend_ack: "invar w \<Longrightarrow> pend (log_ack i w) = (pend w)(i := None)"
    and pend_compact: "invar w \<Longrightarrow> pend (log_compact w) = pend w"
    and invar_append: "invar w \<Longrightarrow> length p < 4294967296 \<Longrightarrow> invar (log_append i p w)"
    and invar_ack: "invar w \<Longrightarrow> invar (log_ack i w)"
    and invar_compact: "invar w \<Longrightarrow> invar (log_compact w)"

datatype log_op = LogSend u64 bytes | LogAck u64 | LogCompact

fun log_step ::
  "(u64 \<Rightarrow> bytes \<Rightarrow> 'w \<Rightarrow> 'w) \<Rightarrow> (u64 \<Rightarrow> 'w \<Rightarrow> 'w) \<Rightarrow> ('w \<Rightarrow> 'w) \<Rightarrow> 'w \<Rightarrow> log_op \<Rightarrow> 'w" where
  "log_step log_append log_ack log_compact w (LogSend i p) = log_append i p w"
| "log_step log_append log_ack log_compact w (LogAck i) = log_ack i w"
| "log_step log_append log_ack log_compact w LogCompact = log_compact w"

fun log_spec :: "(u64 \<rightharpoonup> bytes) \<Rightarrow> log_op \<Rightarrow> (u64 \<rightharpoonup> bytes)" where
  "log_spec m (LogSend i p) = m(i \<mapsto> p)"
| "log_spec m (LogAck i) = m(i := None)"
| "log_spec m LogCompact = m"

fun log_op_ok :: "log_op \<Rightarrow> bool" where
  "log_op_ok (LogSend i p) \<longleftrightarrow> length p < 4294967296"
| "log_op_ok _ \<longleftrightarrow> True"

context durable_log
begin

lemma step_refines:
  assumes "invar w" "log_op_ok oper"
  shows "invar (log_step log_append log_ack log_compact w oper)"
    and "pend (log_step log_append log_ack log_compact w oper) = log_spec (pend w) oper"
  using assms
  by (cases oper; simp add: pend_append pend_ack pend_compact invar_append invar_ack invar_compact)+

lemma run_refines:
  "invar w \<Longrightarrow> \<forall>oper\<in>set ops. log_op_ok oper \<Longrightarrow>
   invar (foldl (log_step log_append log_ack log_compact) w ops) \<and>
   pend (foldl (log_step log_append log_ack log_compact) w ops) = foldl log_spec (pend w) ops"
  by (induction ops arbitrary: w) (simp_all add: step_refines)

end

definition wal_records :: "WAL \<Rightarrow> walrec list" where
  "wal_records w = read_until readRecord (Suc (length (w_file w))) (w_file w) IoEOF"

definition wal_pending :: "WAL \<Rightarrow> u64 \<rightharpoonup> bytes" where
  "wal_pending w = fst (replay_of (wal_records w))"

definition wal_inv :: "WAL \<Rightarrow> bool" where
  "wal_inv w \<longleftrightarrow> w_handle w \<and> (\<exists>recs. (\<forall>r\<in>set recs. rec_ok r) \<and> w_file w = logBytes recs)"

lemma wal_invI:
  "w_handle w \<Longrightarrow> \<forall>r\<in>set recs. rec_ok r \<Longrightarrow> w_file w = logBytes recs \<Longrightarrow> wal_inv w"
  unfolding wal_inv_def by blast

lemma wal_records_logBytes:
  "\<forall>r\<in>set recs. rec_ok r \<Longrightarrow> w_file w = logBytes recs \<Longrightarrow> wal_records w = recs"
  using wal_stream.read_until_wr [of recs "Suc (length (logBytes recs))" IoEOF]
  by (simp add: wal_records_def logBytes_def)

lemma wal_invE:
  assumes "wal_inv w"
  obtains "w_handle w" "\<forall>r\<in>set (wal_records w). rec_ok r" "w_file w = logBytes (wal_records w)"
proof -
  from assms obtain recs where h: "w_handle w" "\<forall>r\<in>set recs. rec_ok r" "w_file w = logBytes recs"
    unfolding wal_inv_def by blast
  have "wal_records w = recs" using h(2,3) by (rule wal_records_logBytes)
  with h show thesis using that by simp
qed

lemma logBytes_snoc [simp]: "logBytes (recs @ [r]) = logBytes recs @ wal_rec_bytes r"
  by (simp add: logBytes_def)

lemma writeRecord_ok:
  assumes "wal_inv w" "length p < 4294967296"
  shows "writeRecord None None op i p w = (w\<lparr>w_file := w_file w @ recordBytes op i p\<rparr>, None)"
    "wal_inv (w\<lparr>w_file := w_file w @ recordBytes op i p\<rparr>)"
    "wal_records (w\<lparr>w_file := w_file w @ recordBytes op i p\<rparr>) = wal_records w @ [(op, i, p)]"
proof -
  from assms(1) have h: "w_handle w" and ok: "\<forall>r\<in>set (wal_records w). rec_ok r"
    and f: "w_file w = logBytes (wal_records w)" by (auto elim: wal_invE)
  have ok': "\<forall>r\<in>set (wal_records w @ [(op, i, p)]). rec_ok r"
    using ok assms(2) by (auto simp: rec_ok_def)
  have f': "w_file w @ recordBytes op i p = logBytes (wal_records w @ [(op, i, p)])"
    by (simp add: f [symmetric])
  show "writeRecord None None op i p w = (w\<lparr>w_file := w_file w @ recordBytes op i p\<rparr>, None)"
    using h by (simp add: writeRecord_def Let_def)
  show "wal_records (w\<lparr>w_file := w_file w @ recordBytes op i p\<rparr>) = wal_records w @ [(op, i, p)]"
    by (rule wal_records_logBytes [OF ok']) (simp add: f' del: logBytes_snoc)
  show "wal_inv (w\<lparr>w_file := w_file w @ recordBytes op i p\<rparr>)"
    unfolding wal_inv_def f' using h ok'
    by (intro conjI exI [of _ "wal_records w @ [(op, i, p)]"]) (simp_all del: logBytes_snoc)
qed

lemma Compact_ok:
  assumes "wal_inv w"
  shows "Compact compactEnvOk w =
      (w\<lparr>w_file := logBytes (sends (replayEntries (replay_of (wal_records w)))), w_handle := True\<rparr>, None)"
    "wal_inv (fst (Compact compactEnvOk w))"
    "wal_records (fst (Compact compactEnvOk w)) = sends (replayEntries (replay_of (wal_records w)))"
proof -
  from assms have ok: "\<forall>r\<in>set (wal_records w). rec_ok r"
    and f: "w_file w = logBytes (wal_records w)" by (auto elim: wal_invE)
  note ok' = rec_ok_sends [OF ok]
  show eq: "Compact compactEnvOk w =
      (w\<lparr>w_file := logBytes (sends (replayEntries (replay_of (wal_records w)))), w_handle := True\<rparr>, None)"
    using compactPrepare_ok [OF ok f] by (simp add: Compact_def compactCommit_def compactEnvOk_def)
  show "wal_inv (fst (Compact compactEnvOk w))"
    unfolding wal_inv_def eq using ok' by auto
  show "wal_records (fst (Compact compactEnvOk w)) = sends (replayEntries (replay_of (wal_records w)))"
    by (rule wal_records_logBytes [OF ok']) (simp add: eq)
qed

interpretation wal_log: durable_log "\<lambda>i p w. fst (Append None None i p w)"
  "\<lambda>i w. fst (Ack None None i w)" "\<lambda>w. fst (Compact compactEnvOk w)" wal_pending wal_inv
proof unfold_locales
  fix w p i
  assume w: "wal_inv w"
  show "wal_pending (fst (Compact compactEnvOk w)) = wal_pending w"
    by (simp add: wal_pending_def Compact_ok(3) [OF w] replay_of_compacted)
  show "wal_inv (fst (Compact compactEnvOk w))" by (rule Compact_ok(2) [OF w])
  show "wal_inv (fst (Ack None None i w))"
    using writeRecord_ok [OF w, of "[]"] by (simp add: Ack_def)
  show "wal_pending (fst (Ack None None i w)) = (wal_pending w)(i := None)"
    using writeRecord_ok [OF w, of "[]"]
    by (cases "replay_of (wal_records w)") (simp add: Ack_def wal_pending_def)
  assume p: "length (p :: bytes) < 4294967296"
  show "wal_inv (fst (Append None None i p w))"
    using writeRecord_ok [OF w p] by (simp add: Append_def)
  show "wal_pending (fst (Append None None i p w)) = (wal_pending w)(i \<mapsto> p)"
    using writeRecord_ok [OF w p]
    by (cases "replay_of (wal_records w)") (simp add: Append_def wal_pending_def)
qed

lemma Replay_wal_inv:
  "wal_inv w \<Longrightarrow> Replay None IoEOF w = Inr (replayEntries (replay_of (wal_records w)))"
  by (elim wal_invE) (simp add: Replay_logBytes)

section \<open>Properties\<close>

text \<open>
  C9: Replaying a log of whole records succeeds and returns exactly the unacked messages, each
  with the payload of its last send; when no identifier is sent again after its ack, no message is
  returned twice.
\<close>

theorem replay_returns_unacked:
  assumes "\<forall>r\<in>set recs. rec_ok r" and "w_file w = logBytes recs"
  shows "\<exists>es. Replay None IoEOF w = Inr es \<and>
    set es = {\<lparr>e_MsgID = i, e_Payload = p\<rparr> | i p. unacked recs i p} \<and>
    (no_reuse recs \<longrightarrow> distinct (map e_MsgID es))"
  using Replay_logBytes [OF assms] set_replayEntries_of
  by (auto intro: distinct_replayEntries distinct_replay_order)

theorem replay_returns_unacked_witness:
  "\<exists>es. Replay None IoEOF
      \<lparr>w_file = logBytes [(OpSend, 1, [7]), (OpSend, 2, [8]), (OpAck, 1, [])], w_handle = True,
       w_fsync = True\<rparr> = Inr es \<and> \<lparr>e_MsgID = 2, e_Payload = [8]\<rparr> \<in> set es"
proof -
  let ?recs = "[(OpSend, 1, [7]), (OpSend, 2, [8]), (OpAck, 1, [])] :: walrec list"
  have "unacked ?recs 2 [8]"
    unfolding unacked_def by (rule exI [of _ "[(OpSend, 1, [7])]"], rule exI [of _ "[(OpAck, 1, [])]"]) simp
  moreover have "\<forall>r\<in>set ?recs. rec_ok r" by (simp add: rec_ok_def)
  ultimately show ?thesis
    using replay_returns_unacked [of ?recs "\<lparr>w_file = logBytes ?recs, w_handle = True, w_fsync = True\<rparr>"]
    by fastforce
qed

text \<open>
  C5: A crash that cuts the log at any byte loses only records that were not complete: replaying
  the remaining file gives what replaying the complete records gives, and no complete record is
  dropped.
\<close>

theorem replay_after_crash:
  assumes "\<forall>r\<in>set recs. rec_ok r" and "logBytes recs = xs @ ys" and "w_file w = xs"
  shows "\<exists>k\<le>length recs.
    Replay None IoEOF w = Inr (replayEntries (replay_of (take k recs))) \<and>
    (\<exists>tail. xs = logBytes (take k recs) @ tail) \<and>
    (k < length recs \<longrightarrow> length xs < length (logBytes (take (Suc k) recs)))"
proof -
  let ?n = "Suc (length xs)"
  obtain k tail where k: "k \<le> length recs" "read_until readRecord ?n xs IoEOF = take k recs"
    "xs = logBytes (take k recs) @ tail" "k < length recs \<longrightarrow> length tail < length (wal_rec_bytes (recs ! k))"
    using wal_stream.read_until_prefix [OF assms(1) assms(2) [unfolded logBytes_def] lessI, of IoEOF]
    unfolding logBytes_def list.map_ident by blast
  have "Replay None IoEOF w = Inr (replayEntries (replay_of (take k recs)))"
    using replayLoop_read_until [of xs ?n "(Map.empty, [])"] k(2) assms(3) by (simp add: Replay_def)
  moreover have "length xs < length (logBytes (take (Suc k) recs))" if "k < length recs"
  proof -
    have "logBytes (take (Suc k) recs) = logBytes (take k recs) @ wal_rec_bytes (recs ! k)"
      using that by (simp add: take_Suc_conv_app_nth)
    moreover have "length xs = length (logBytes (take k recs)) + length tail"
      using k(3) by (metis length_append)
    ultimately show ?thesis using k(4) that by simp
  qed
  ultimately show ?thesis using k(1,3) by blast
qed

theorem replay_after_crash_witness:
  "\<exists>k\<le>length [(OpSend, 1, [7]), (OpSend, 2, [8]) :: walrec]. Replay None IoEOF
      \<lparr>w_file = take 20 (logBytes [(OpSend, 1, [7]), (OpSend, 2, [8])]), w_handle = True,
       w_fsync = True\<rparr>
    = Inr (replayEntries (replay_of (take k [(OpSend, 1, [7]), (OpSend, 2, [8])])))"
proof -
  let ?recs = "[(OpSend, 1, [7]), (OpSend, 2, [8])] :: walrec list"
  let ?w = "\<lparr>w_file = take 20 (logBytes ?recs), w_handle = True, w_fsync = True\<rparr>"
  have ok: "\<forall>r\<in>set ?recs. rec_ok r" by (simp add: rec_ok_def)
  have eq: "logBytes ?recs = take 20 (logBytes ?recs) @ drop 20 (logBytes ?recs)"
    by (simp only: append_take_drop_id)
  have f: "w_file ?w = take 20 (logBytes ?recs)" by (simp only: WAL.simps)
  from replay_after_crash [OF ok eq f] show ?thesis
    by (elim exE conjE) (rule exI, rule conjI)
qed

text \<open>
  Compaction without interference keeps every unacked message and nothing else; when no
  identifier is reused after its ack, \<open>Replay\<close> returns the very same list before and after.
\<close>

theorem compact_preserves_unacked:
  assumes "wal_inv w"
  shows "snd (Compact compactEnvOk w) = None \<and> wal_inv (fst (Compact compactEnvOk w)) \<and>
    wal_pending (fst (Compact compactEnvOk w)) = wal_pending w \<and>
    (no_reuse (wal_records w) \<longrightarrow>
      Replay None IoEOF (fst (Compact compactEnvOk w)) = Replay None IoEOF w)"
proof (intro conjI impI)
  show "snd (Compact compactEnvOk w) = None" by (simp add: Compact_ok(1) [OF assms])
  show inv: "wal_inv (fst (Compact compactEnvOk w))" using assms by (rule wal_log.invar_compact)
  show "wal_pending (fst (Compact compactEnvOk w)) = wal_pending w"
    using assms by (rule wal_log.pend_compact)
  assume "no_reuse (wal_records w)"
  then show "Replay None IoEOF (fst (Compact compactEnvOk w)) = Replay None IoEOF w"
    by (simp add: Replay_wal_inv [OF inv] Replay_wal_inv [OF assms] Compact_ok(3) [OF assms]
        replayEntries_compacted)
qed

theorem compact_preserves_unacked_witness:
  "wal_pending (fst (Compact compactEnvOk
      \<lparr>w_file = logBytes [(OpSend, 1, [7]), (OpAck, 1, [])], w_handle = True, w_fsync = True\<rparr>)) 1 = None"
proof -
  let ?recs = "[(OpSend, 1, [7]), (OpAck, 1, [])] :: walrec list"
  let ?w = "\<lparr>w_file = logBytes ?recs, w_handle = True, w_fsync = True\<rparr>"
  have ok: "\<forall>r\<in>set ?recs. rec_ok r" by (simp add: rec_ok_def)
  have "wal_inv ?w" by (rule wal_invI [OF _ ok]) simp_all
  moreover have "wal_records ?w = ?recs" by (rule wal_records_logBytes [OF ok]) simp
  ultimately show ?thesis
    using compact_preserves_unacked [of ?w] by (simp add: wal_pending_def)
qed

text \<open>
  C10: Every sequence of sends, acks and compactions refines the abstract map from identifiers to
  payloads: the log's pending map is what the same operations leave of it.
\<close>

theorem wal_refines_map:
  assumes "wal_inv w" and "\<forall>oper\<in>set ops. log_op_ok oper"
  shows "wal_pending (foldl (log_step (\<lambda>i p w. fst (Append None None i p w))
      (\<lambda>i w. fst (Ack None None i w)) (\<lambda>w. fst (Compact compactEnvOk w))) w ops)
    = foldl log_spec (wal_pending w) ops"
  using wal_log.run_refines [OF assms] by simp

lemma wal_inv_empty: "wal_inv \<lparr>w_file = [], w_handle = True, w_fsync = f\<rparr>"
  unfolding wal_inv_def by (intro conjI exI [of _ "[]"]) (simp_all add: logBytes_def)

lemma wal_pending_empty: "wal_pending \<lparr>w_file = [], w_handle = True, w_fsync = f\<rparr> = Map.empty"
  by (simp add: wal_pending_def wal_records_logBytes [of "[]"] logBytes_def)

theorem wal_refines_map_witness:
  "wal_pending (foldl (log_step (\<lambda>i p w. fst (Append None None i p w))
      (\<lambda>i w. fst (Ack None None i w)) (\<lambda>w. fst (Compact compactEnvOk w)))
      \<lparr>w_file = [], w_handle = True, w_fsync = True\<rparr>
      [LogSend 1 [7], LogSend 2 [8], LogAck 1, LogCompact]) = [2 \<mapsto> [8]]"
  using wal_refines_map [OF wal_inv_empty, of "[LogSend 1 [7], LogSend 2 [8], LogAck 1, LogCompact]" True]
  by (simp add: wal_pending_empty fun_eq_iff)

text \<open>
  C18: Compaction takes its snapshot before it takes the lock: a record appended, successfully,
  between the two is gone after the rename although nobody acked it.
\<close>

theorem compact_race_loses_append:
  assumes "wal_inv w" "wal_pending w i = None" "length p < 4294967296"
    and "compactPrepare compactEnvOk w = Inr tmp"
    and "Append None None i p w = (w1, e1)"
    and "compactCommit compactEnvOk tmp w1 = (w2, e2)"
  shows "e1 = None \<and> e2 = None \<and> wal_pending w1 i = Some p \<and> wal_pending w2 i = None"
proof -
  have w2: "w2 = fst (Compact compactEnvOk w)\<lparr>w_fsync := w_fsync w1\<rparr>" "e2 = None"
    using assms(4,6) by (auto simp: Compact_def compactCommit_def compactEnvOk_def)
  have "wal_pending w2 = wal_pending (fst (Compact compactEnvOk w))"
    by (simp add: w2(1) wal_pending_def wal_records_def)
  moreover have "wal_pending w1 = (wal_pending w)(i \<mapsto> p)"
    using wal_log.pend_append [OF assms(1,3), of i] assms(5) by simp
  moreover have "e1 = None"
    using writeRecord_ok(1) [OF assms(1,3)] assms(5) by (simp add: Append_def)
  ultimately show ?thesis
    using wal_log.pend_compact [OF assms(1)] assms(2) w2(2) by simp
qed

theorem compact_race_loses_append_witness:
  "\<exists>w tmp w1 w2. wal_inv w \<and> compactPrepare compactEnvOk w = Inr tmp \<and>
     Append None None 1 [7] w = (w1, None) \<and> compactCommit compactEnvOk tmp w1 = (w2, None) \<and>
     wal_pending w1 1 = Some [7] \<and> wal_pending w2 1 = None"
proof -
  let ?w = "\<lparr>w_file = [], w_handle = True, w_fsync = True\<rparr>"
  obtain w1 e1 where a: "Append None None 1 [7] ?w = (w1, e1)" by fastforce
  have p: "compactPrepare compactEnvOk ?w = Inr []"
    using compactPrepare_ok [of "[]" ?w] by (simp add: logBytes_def replayEntries_def)
  obtain w2 e2 where c: "compactCommit compactEnvOk [] w1 = (w2, e2)" by fastforce
  have "e1 = None \<and> e2 = None \<and> wal_pending w1 1 = Some [7] \<and> wal_pending w2 1 = None"
    by (rule compact_race_loses_append [OF wal_inv_empty _ _ p a c]) (simp_all add: wal_pending_empty)
  with wal_inv_empty p a c show ?thesis by blast
qed

text \<open>
  An identifier that is sent, acked and sent again is returned twice by \<open>Replay\<close>, for any
  payloads: the insertion order keeps its first position.
\<close>

theorem replay_reused_id_twice:
  assumes "length p < 4294967296" "length q < 4294967296"
    and "w_file w = logBytes [(OpSend, i, p), (OpAck, i, []), (OpSend, i, q)]"
  shows "Replay None IoEOF w =
    Inr [\<lparr>e_MsgID = i, e_Payload = q\<rparr>, \<lparr>e_MsgID = i, e_Payload = q\<rparr>]"
  using Replay_logBytes [OF _ assms(3)] assms(1,2) by (simp add: rec_ok_def replayEntries_def)

theorem replay_reused_id_twice_witness:
  "Replay None IoEOF \<lparr>w_file = logBytes [(OpSend, 1, [7]), (OpAck, 1, []), (OpSend, 1, [8])],
      w_handle = True, w_fsync = True\<rparr> =
    Inr [\<lparr>e_MsgID = 1, e_Payload = [8]\<rparr>, \<lparr>e_MsgID = 1, e_Payload = [8]\<rparr>]"
  by (rule replay_reused_id_twice [of "[7]"]) simp_all

text \<open>
  After a crash inside a record, appending to the file as it stands damages the log: the tail
  of the torn record swallows the front of the new one. Here the payload of message 1 was cut after
  one byte; message 2 is appended and acknowledged as written, yet replay returns message 1 with
  foreign bytes and no message 2.
\<close>

theorem append_after_torn_record:
  "fst (Append None None 2 [9] \<lparr>w_file = take 14 (recordBytes OpSend 1 [10, 20, 30]), w_handle = True,
      w_fsync = True\<rparr>) = \<lparr>w_file = take 14 (recordBytes OpSend 1 [10, 20, 30]) @ recordBytes OpSend 2 [9],
      w_handle = True, w_fsync = True\<rparr> \<and>
   Replay None IoEOF (fst (Append None None 2 [9]
      \<lparr>w_file = take 14 (recordBytes OpSend 1 [10, 20, 30]), w_handle = True, w_fsync = True\<rparr>)) =
    Inr [\<lparr>e_MsgID = 1, e_Payload = [10, 1, 0]\<rparr>]"
  by code_simp

end
