(* ===== verification/Net_Link.thy ===== *)
theory Net_Link
  imports P2P_Prelude
begin

text \<open>
  One end of a network connection as the Go code sees it (\<^verbatim>\<open>net.Conn\<close>): the bytes that will still
  be delivered and the error that follows them, the bytes written so far, the outcomes the
  environment has in store for the next \<^verbatim>\<open>Write\<close> calls (success once the list is exhausted), and
  whether this end was closed.
\<close>

record link =
  l_rx :: bytes
  l_rerr :: error
  l_tx :: bytes
  l_wfaults :: "write_fault list"
  l_closed :: bool

definition new_link :: "bytes \<Rightarrow> error \<Rightarrow> link" where
  "new_link rx e = \<lparr>l_rx = rx, l_rerr = e, l_tx = [], l_wfaults = [], l_closed = False\<rparr>"

text \<open>\<^verbatim>\<open>Conn.Write\<close>: the number of bytes taken and the error, if any.\<close>

definition net_write :: "bytes \<Rightarrow> link \<Rightarrow> link \<times> nat \<times> error option" where
  "net_write bs l =
     (if l_closed l then (l, 0, Some NetErrClosed)
      else case l_wfaults l of
             [] \<Rightarrow> (l\<lparr>l_tx := l_tx l @ bs\<rparr>, length bs, None)
           | None # fs \<Rightarrow> (l\<lparr>l_tx := l_tx l @ bs, l_wfaults := fs\<rparr>, length bs, None)
           | Some (k, e) # fs \<Rightarrow>
               (l\<lparr>l_tx := l_tx l @ take k bs, l_wfaults := fs\<rparr>, min k (length bs), Some e))"

text \<open>\<^verbatim>\<open>io.ReadFull\<close> on the connection.\<close>

definition net_read_full :: "nat \<Rightarrow> link \<Rightarrow> link \<times> bytes result" where
  "net_read_full n l =
     (if l_closed l \<and> 0 < n then (l, Inl NetErrClosed)
      else let (r, rest) = ReadFull n (l_rx l) (l_rerr l) in (l\<lparr>l_rx := rest\<rparr>, r))"

definition net_close :: "link \<Rightarrow> link \<times> error option" where
  "net_close l = (l\<lparr>l_closed := True\<rparr>, if l_closed l then Some NetErrClosed else None)"

text \<open>A healthy link takes every write.\<close>

definition link_up :: "link \<Rightarrow> bool" where
  "link_up l \<longleftrightarrow> \<not> l_closed l \<and> l_wfaults l = []"

lemma net_write_up [simp]:
  "link_up l \<Longrightarrow> net_write bs l = (l\<lparr>l_tx := l_tx l @ bs\<rparr>, length bs, None)"
  by (simp add: net_write_def link_up_def)

lemma link_up_tx [simp]: "link_up (l\<lparr>l_tx := x\<rparr>) = link_up l"
  by (simp add: link_up_def)

lemma link_up_rx [simp]: "link_up (l\<lparr>l_rx := x\<rparr>) = link_up l"
  by (simp add: link_up_def)

lemma link_up_new [simp]: "link_up (new_link rx e)"
  by (simp add: link_up_def new_link_def)

lemma new_link_fields [simp]:
  "l_rx (new_link rx e) = rx" "l_rerr (new_link rx e) = e" "l_tx (new_link rx e) = []"
  "\<not> l_closed (new_link rx e)"
  by (simp_all add: new_link_def)

lemma net_read_full_append [simp]:
  "\<not> l_closed l \<Longrightarrow> l_rx l = bs @ rest \<Longrightarrow> length bs = n \<Longrightarrow>
   net_read_full n l = (l\<lparr>l_rx := rest\<rparr>, Inr bs)"
  by (simp add: net_read_full_def)

lemma net_read_full_shrinks:
  "net_read_full n l = (l', Inr bs) \<Longrightarrow> length (l_rx l) = n + length (l_rx l') \<or> n = 0"
  by (auto simp: net_read_full_def split: prod.splits if_splits dest!: ReadFull_Inr)

lemma net_read_full_le: "net_read_full n l = (l', r) \<Longrightarrow> length (l_rx l') \<le> length (l_rx l)"
  by (auto simp: net_read_full_def ReadFull_def split: if_splits)

end
