(* ===== verification/Crypto_Session.thy ===== *)
theory Crypto_Session
  imports Net_Link
begin

text \<open>
  The encrypted transport of \<^verbatim>\<open>pkg/crypto/handshake.go\<close> after the handshake: length-prefixed frames
  (\<open>writeFrame\<close>, \<open>readFrame\<close>), the \<open>Session\<close> with its two cipher states, its \<open>Write\<close> and \<open>Read\<close>,
  and \<^verbatim>\<open>io.ReadFull\<close> over a session. The Noise cipher states are a third-party library: their
  \<open>Encrypt\<close> and \<open>Decrypt\<close> are arguments, and \<open>cipher_sync\<close> states what the library documents,
  namely that a receiver in step with the sender decrypts what the sender encrypted and stays in
  step, and that a ciphertext is 16 bytes (the authentication tag) longer than its plaintext.
\<close>

section \<open>Frames\<close>

definition maxFrame :: nat where "maxFrame = 8 * 1024 * 1024"

definition writeFrame :: "bytes \<Rightarrow> link \<Rightarrow> link \<times> error option" where
  "writeFrame data w =
     (let hdr = PutUint32 (word_of_nat (length data)) in
      case net_write hdr w of
        (w', _, Some e) \<Rightarrow> (w', Some (Wrap ''write frame header'' e))
      | (w', _, None) \<Rightarrow>
          (case net_write data w' of
             (w'', _, Some e) \<Rightarrow> (w'', Some (Wrap ''write frame body'' e))
           | (w'', _, None) \<Rightarrow> (w'', None)))"

definition readFrame :: "bytes reader" where
  "readFrame rx e =
     (case ReadFull 4 rx e of
        (Inl err, rest) \<Rightarrow> (Inl (Wrap ''read frame header'' err), rest)
      | (Inr hdr, rest) \<Rightarrow>
          let size = Uint32 hdr in
          if unat size > maxFrame then (Inl (Errorf ''frame too large''), rest)
          else (case ReadFull (unat size) rest e of
                  (Inl err, rest') \<Rightarrow> (Inl (Wrap ''read frame body'' err), rest')
                | (Inr buf, rest') \<Rightarrow> (Inr buf, rest')))"

text \<open>The bytes of one frame.\<close>

definition frameBytes :: "bytes \<Rightarrow> bytes" where
  "frameBytes data = PutUint32 (word_of_nat (length data)) @ data"

lemma writeFrame_up [simp]:
  "link_up w \<Longrightarrow> writeFrame data w = (w\<lparr>l_tx := l_tx w @ frameBytes data\<rparr>, None)"
  by (simp add: writeFrame_def frameBytes_def Let_def)

lemma readFrame_header:
  "length data \<le> maxFrame \<Longrightarrow>
   readFrame (PutUint32 (word_of_nat (length data)) @ rest) e =
     (case ReadFull (length data) rest e of
        (Inl err, rest') \<Rightarrow> (Inl (Wrap ''read frame body'' err), rest')
      | (Inr buf, rest') \<Rightarrow> (Inr buf, rest'))"
  by (simp add: readFrame_def codec_simps maxFrame_def)

interpretation frame_stream: framed frameBytes readFrame "\<lambda>d. length d \<le> maxFrame" "\<lambda>d. d"
proof unfold_locales
  fix m rest :: bytes and e
  assume "length m \<le> maxFrame"
  then show "readFrame (frameBytes m @ rest) e = (Inr m, rest)"
    by (simp add: frameBytes_def readFrame_header)
next
  fix e
  show "\<exists>err. readFrame [] e = (Inl err, [])" by (simp add: readFrame_def ReadFull_def)
next
  fix m xs ys :: bytes and e
  assume len: "length m \<le> maxFrame" and eq: "frameBytes m = xs @ ys" and "ys \<noteq> []"
  let ?h = "PutUint32 (word_of_nat (length m))"
  from append_cut [OF eq [unfolded frameBytes_def]]
  consider (body) zs where "xs = ?h @ zs" "m = zs @ ys" | (hdr) zs where "?h = xs @ zs" "zs \<noteq> []"
    by blast
  then show "\<exists>err. readFrame xs e = (Inl err, [])"
  proof cases
    case body
    then show ?thesis
      using ReadFull_short [of zs "length m" e] \<open>ys \<noteq> []\<close> len readFrame_header [of m zs e] by auto
  next
    case hdr
    have "0 < length zs" using hdr(2) by simp
    then have "length xs < 4"
      using arg_cong [OF hdr(1), of length] by (simp add: codec_simps del: length_greater_0_conv)
    then show ?thesis using ReadFull_short [of xs 4 e] by (auto simp: readFrame_def)
  qed
qed

section \<open>Sessions\<close>

type_synonym 'cs encrypter = "'cs \<Rightarrow> bytes \<Rightarrow> 'cs \<times> bytes result"
type_synonym 'cs decrypter = "'cs \<Rightarrow> bytes \<Rightarrow> 'cs \<times> bytes result"

definition cipher_sync ::
  "'cs encrypter \<Rightarrow> 'cs decrypter \<Rightarrow> ('cs \<Rightarrow> 'cs \<Rightarrow> bool) \<Rightarrow> bool" where
  "cipher_sync Encrypt Decrypt R \<longleftrightarrow>
     (\<forall>s r pt s' ct. R s r \<longrightarrow> Encrypt s pt = (s', Inr ct) \<longrightarrow>
        length ct = length pt + 16 \<and> (\<exists>r'. Decrypt r ct = (r', Inr pt) \<and> R s' r'))"

record 'cs Session =
  s_conn :: link
  s_send :: 'cs
  s_recv :: 'cs
  s_remotePub :: bytes

definition newSession :: "link \<Rightarrow> 'cs \<Rightarrow> 'cs \<Rightarrow> bool \<Rightarrow> bytes \<Rightarrow> 'cs Session" where
  "newSession conn cs0 cs1 initiator remotePub =
     (if initiator then \<lparr>s_conn = conn, s_send = cs0, s_recv = cs1, s_remotePub = remotePub\<rparr>
      else \<lparr>s_conn = conn, s_send = cs1, s_recv = cs0, s_remotePub = remotePub\<rparr>)"

definition sessionWrite ::
  "'cs encrypter \<Rightarrow> bytes \<Rightarrow> 'cs Session \<Rightarrow> 'cs Session \<times> nat \<times> error option" where
  "sessionWrite Encrypt plaintext s =
     (case Encrypt (s_send s) plaintext of
        (k, Inl e) \<Rightarrow> (s\<lparr>s_send := k\<rparr>, 0, Some (Wrap ''encrypt'' e))
      | (k, Inr ct) \<Rightarrow>
          (case writeFrame ct (s_conn s) of
             (c, Some e) \<Rightarrow> (s\<lparr>s_send := k, s_conn := c\<rparr>, 0, Some e)
           | (c, None) \<Rightarrow> (s\<lparr>s_send := k, s_conn := c\<rparr>, length plaintext, None)))"

text \<open>\<open>Read\<close> into a buffer of \<open>n\<close> bytes: the bytes copied and the error, if any.\<close>

definition sessionRead ::
  "'cs decrypter \<Rightarrow> nat \<Rightarrow> 'cs Session \<Rightarrow> 'cs Session \<times> bytes \<times> error option" where
  "sessionRead Decrypt n s =
     (if l_closed (s_conn s) then (s, [], Some (Wrap ''read frame header'' NetErrClosed))
      else
      (case readFrame (l_rx (s_conn s)) (l_rerr (s_conn s)) of
        (Inl err, rest) \<Rightarrow> (s\<lparr>s_conn := (s_conn s)\<lparr>l_rx := rest\<rparr>\<rparr>, [], Some err)
      | (Inr frame, rest) \<Rightarrow>
          let s = s\<lparr>s_conn := (s_conn s)\<lparr>l_rx := rest\<rparr>\<rparr> in
          (case Decrypt (s_recv s) frame of
             (k, Inl e) \<Rightarrow> (s\<lparr>s_recv := k\<rparr>, [], Some (Wrap ''decrypt'' e))
           | (k, Inr pt) \<Rightarrow>
               (s\<lparr>s_recv := k\<rparr>, take n pt,
                if n < length pt then Some IoErrShortBuffer else None))))"

definition sessionClose :: "'cs Session \<Rightarrow> 'cs Session \<times> error option" where
  "sessionClose s = (case net_close (s_conn s) of (c, e) \<Rightarrow> (s\<lparr>s_conn := c\<rparr>, e))"

lemma readFrame_shrinks: "readFrame rx e = (Inr f, rest) \<Longrightarrow> length rest < length rx"
  by (auto simp: readFrame_def Let_def split: prod.splits sum.splits if_splits dest!: ReadFull_Inr)

lemma sessionRead_shrinks:
  "sessionRead D n s = (s', bs, None) \<Longrightarrow> length (l_rx (s_conn s')) < length (l_rx (s_conn s))"
  by (auto simp: sessionRead_def Let_def split: prod.splits sum.splits if_splits
      dest!: readFrame_shrinks)

text \<open>
  \<^verbatim>\<open>io.ReadFull\<close> over a session: \<open>Read\<close> until \<open>want\<close> bytes have arrived. An error counts only if
  the buffer is not full by then. Each round consumes a frame, so the loop ends.
\<close>

function sessionReadFull ::
  "'cs decrypter \<Rightarrow> nat \<Rightarrow> bytes \<Rightarrow> 'cs Session \<Rightarrow> 'cs Session \<times> bytes result" where
  "sessionReadFull D want got s =
     (if want \<le> length got then (s, Inr got)
      else case sessionRead D (want - length got) s of
             (s', bs, None) \<Rightarrow> sessionReadFull D want (got @ bs) s'
           | (s', bs, Some e) \<Rightarrow>
               if want \<le> length (got @ bs) then (s', Inr (got @ bs))
               else (s', Inl (if got @ bs \<noteq> [] \<and> e = IoEOF then IoErrUnexpectedEOF else e)))"
  by pat_completeness auto
termination
  by (relation "measure (\<lambda>(D, want, got, s). length (l_rx (s_conn s)))")
    (auto dest!: sessionRead_shrinks [OF sym])

declare sessionReadFull.simps [simp del]

section \<open>A session carries frames faithfully\<close>

lemma sessionWrite_up:
  assumes "link_up (s_conn w)" "Encrypt (s_send w) pt = (k, Inr ct)"
  shows "sessionWrite Encrypt pt w =
    (w\<lparr>s_send := k, s_conn := (s_conn w)\<lparr>l_tx := l_tx (s_conn w) @ frameBytes ct\<rparr>\<rparr>, length pt, None)"
  using assms by (simp add: sessionWrite_def)

lemma sessionRead_frame:
  assumes "\<not> l_closed (s_conn r)" "l_rx (s_conn r) = frameBytes ct @ rest" "length ct \<le> maxFrame"
    and "Decrypt (s_recv r) ct = (k, Inr pt)"
  shows "sessionRead Decrypt n r =
    (r\<lparr>s_recv := k, s_conn := (s_conn r)\<lparr>l_rx := rest\<rparr>\<rparr>, take n pt,
     if n < length pt then Some IoErrShortBuffer else None)"
  using assms by (simp add: sessionRead_def frame_stream.rd_wr)

lemma sessionReadFull_frame:
  assumes "\<not> l_closed (s_conn r)" "l_rx (s_conn r) = frameBytes ct @ rest" "length ct \<le> maxFrame"
    and "Decrypt (s_recv r) ct = (k, Inr pt)" "0 < n" "n \<le> length pt"
  shows "sessionReadFull Decrypt n [] r =
    (r\<lparr>s_recv := k, s_conn := (s_conn r)\<lparr>l_rx := rest\<rparr>\<rparr>, Inr (take n pt))"
  using assms(5,6) sessionRead_frame [of r ct rest Decrypt k pt n, OF assms(1-4)]
  by (subst sessionReadFull.simps) (simp add: sessionReadFull.simps)

text \<open>Writing several plaintexts, stopping at the first error, and reading several frames.\<close>

fun sessionWriteAll ::
  "'cs encrypter \<Rightarrow> bytes list \<Rightarrow> 'cs Session \<Rightarrow> 'cs Session \<times> error option" where
  "sessionWriteAll E [] s = (s, None)"
| "sessionWriteAll E (pt # pts) s =
     (case sessionWrite E pt s of
        (s', _, Some e) \<Rightarrow> (s', Some e)
      | (s', _, None) \<Rightarrow> sessionWriteAll E pts s')"

fun sessionReadN ::
  "'cs decrypter \<Rightarrow> nat \<Rightarrow> nat \<Rightarrow> 'cs Session \<Rightarrow> 'cs Session \<times> bytes list result" where
  "sessionReadN D n 0 s = (s, Inr [])"
| "sessionReadN D n (Suc k) s =
     (case sessionRead D n s of
        (s', _, Some e) \<Rightarrow> (s', Inl e)
      | (s', bs, None) \<Rightarrow>
          (case sessionReadN D n k s' of
             (s'', Inl e) \<Rightarrow> (s'', Inl e)
           | (s'', Inr rest) \<Rightarrow> (s'', Inr (bs # rest))))"

lemma sessionWrite_okE:
  assumes "sessionWrite E pt w = (w', len, None)" "link_up (s_conn w)"
  obtains k ct where "E (s_send w) pt = (k, Inr ct)"
    "w' = w\<lparr>s_send := k, s_conn := (s_conn w)\<lparr>l_tx := l_tx (s_conn w) @ frameBytes ct\<rparr>\<rparr>"
  using assms by (auto simp: sessionWrite_def split: prod.splits sum.splits)

lemma sessionWriteAll_tx:
  "sessionWriteAll E pts w = (w', None) \<Longrightarrow> link_up (s_conn w) \<Longrightarrow>
   \<exists>sent. l_tx (s_conn w') = l_tx (s_conn w) @ sent"
proof (induction pts arbitrary: w)
  case Nil
  then show ?case by simp
next
  case (Cons pt pts)
  obtain w1 len where w1: "sessionWrite E pt w = (w1, len, None)" "sessionWriteAll E pts w1 = (w', None)"
    using Cons.prems(1) by (auto split: prod.splits option.splits)
  with Cons.prems(2) Cons.IH [of w1] show ?case by (auto elim!: sessionWrite_okE)
qed

lemma session_transfer:
  assumes sync: "cipher_sync E D R"
  shows "sessionWriteAll E pts w = (w', None) \<Longrightarrow> link_up (s_conn w) \<Longrightarrow>
    \<forall>pt\<in>set pts. length pt + 16 \<le> maxFrame \<and> length pt \<le> n \<Longrightarrow>
    R (s_send w) (s_recv r) \<Longrightarrow> \<not> l_closed (s_conn r) \<Longrightarrow>
    l_tx (s_conn w') = l_tx (s_conn w) @ sent \<Longrightarrow> l_rx (s_conn r) = sent @ rest \<Longrightarrow>
    \<exists>r'. sessionReadN D n (length pts) r = (r', Inr pts) \<and>
      l_rx (s_conn r') = rest \<and> R (s_send w') (s_recv r')"
proof (induction pts arbitrary: w r sent)
  case Nil
  then show ?case by simp
next
  case (Cons pt pts)
  obtain w1 len where w1: "sessionWrite E pt w = (w1, len, None)" "sessionWriteAll E pts w1 = (w', None)"
    using Cons.prems(1) by (auto split: prod.splits option.splits)
  obtain k ct where k: "E (s_send w) pt = (k, Inr ct)"
    and w1eq: "w1 = w\<lparr>s_send := k, s_conn := (s_conn w)\<lparr>l_tx := l_tx (s_conn w) @ frameBytes ct\<rparr>\<rparr>"
    using sessionWrite_okE [OF w1(1) Cons.prems(2)] .
  have up1: "link_up (s_conn w1)" using Cons.prems(2) by (simp add: w1eq)
  obtain k' where ct: "length ct = length pt + 16" "D (s_recv r) ct = (k', Inr pt)" "R k k'"
    using sync Cons.prems(4) k unfolding cipher_sync_def by blast
  obtain sent' where tx: "l_tx (s_conn w') = l_tx (s_conn w1) @ sent'"
    using sessionWriteAll_tx [OF w1(2) up1] ..
  then have sent: "sent = frameBytes ct @ sent'" using Cons.prems(6) by (simp add: w1eq)
  let ?r1 = "r\<lparr>s_recv := k', s_conn := (s_conn r)\<lparr>l_rx := sent' @ rest\<rparr>\<rparr>"
  have rd: "sessionRead D n r = (?r1, pt, None)"
    using sessionRead_frame [of r ct "sent' @ rest" D k' pt n] Cons.prems(3,5,7) sent ct by simp
  have "\<exists>r'. sessionReadN D n (length pts) ?r1 = (r', Inr pts) \<and>
      l_rx (s_conn r') = rest \<and> R (s_send w') (s_recv r')"
    by (rule Cons.IH [OF w1(2) up1 _ _ _ tx]) (use Cons.prems ct(3) w1eq in simp_all)
  with rd show ?case by auto
qed

section \<open>Properties\<close>

text \<open>
  C11: Two sessions built from the two ends of one handshake carry every list of plaintexts in order
  and unchanged, in both directions: the side that is the initiator and the side that is not pick
  matching cipher states, each write is one frame, and reading with a buffer large enough for each
  plaintext returns exactly the plaintexts and leaves the ciphers in step. (Relies on the cipher
  library's documented behaviour.)
\<close>

theorem session_delivers_plaintexts:
  assumes "cipher_sync E D R" and "R cs0 ds0" and "R cs1 ds1"
    and "w = newSession cw cs0 cs1 initiator pub" and "r = newSession cr ds0 ds1 (\<not> initiator) pub'"
    and "link_up cw" and "\<not> l_closed cr"
    and "sessionWriteAll E pts w = (w', None)"
    and "\<forall>pt\<in>set pts. length pt + 16 \<le> maxFrame \<and> length pt \<le> n"
    and "l_tx (s_conn w') = l_tx cw @ sent" and "l_rx cr = sent @ rest"
  shows "\<exists>r'. sessionReadN D n (length pts) r = (r', Inr pts) \<and> l_rx (s_conn r') = rest \<and>
    R (s_send w') (s_recv r')"
proof (rule session_transfer [OF assms(1,8) _ assms(9)])
  show "link_up (s_conn w)" "R (s_send w) (s_recv r)" "\<not> l_closed (s_conn r)"
    "l_tx (s_conn w') = l_tx (s_conn w) @ sent" "l_rx (s_conn r) = sent @ rest"
    using assms by (simp_all add: newSession_def split: if_splits)
qed

text \<open>A concrete cipher with a nonce counter and a 16-byte tag, to show the hypotheses can hold.\<close>

definition toyEncrypt :: "nat encrypter" where
  "toyEncrypt n pt = (Suc n, Inr (pt @ replicate 16 (word_of_nat n)))"

definition toyDecrypt :: "nat decrypter" where
  "toyDecrypt n ct =
     (if length ct < 16 \<or> drop (length ct - 16) ct \<noteq> replicate 16 (word_of_nat n)
      then (n, Inl (Errorf ''authentication failed''))
      else (Suc n, Inr (take (length ct - 16) ct)))"

lemma toy_cipher_sync: "cipher_sync toyEncrypt toyDecrypt (=)"
  by (auto simp: cipher_sync_def toyEncrypt_def toyDecrypt_def)

theorem session_delivers_plaintexts_witness:
  "\<exists>w' sent r'. sessionWriteAll toyEncrypt [[1, 2], [3]] (newSession (new_link [] IoEOF) 0 0 False []) = (w', None) \<and>
     l_tx (s_conn w') = sent \<and>
     sessionReadN toyDecrypt 1024 2 (newSession (new_link sent IoEOF) 0 0 True []) = (r', Inr [[1, 2], [3]])"
proof -
  let ?w = "newSession (new_link [] IoEOF) 0 0 False []"
  obtain w' where w': "sessionWriteAll toyEncrypt [[1, 2], [3]] ?w = (w', None)"
    by (simp add: sessionWrite_def toyEncrypt_def newSession_def)
  let ?r = "newSession (new_link (l_tx (s_conn w')) IoEOF) 0 0 True []"
  have "\<exists>r'. sessionReadN toyDecrypt 1024 (length [[1, 2], [3 :: byte]]) ?r = (r', Inr [[1, 2], [3]]) \<and>
      l_rx (s_conn r') = [] \<and> s_send w' = s_recv r'"
    by (rule session_delivers_plaintexts [OF toy_cipher_sync refl refl refl _ _ _ w',
          where cr = "new_link (l_tx (s_conn w')) IoEOF" and sent = "l_tx (s_conn w')"])
      (simp_all add: maxFrame_def)
  with w' show ?thesis by (auto simp: numeral_2_eq_2)
qed

end
