(* ===== verification/Conn.thy ===== *)
theory Conn
  imports Protocol Crypto_Session
begin

text \<open>
  The framed connection of \<^verbatim>\<open>pkg/conn/conn.go\<close>: \<open>WriteMsg\<close> in its three modes (batched through a
  \<^verbatim>\<open>bufio.Writer\<close>, one vectored write on plain TCP, two writes otherwise), \<open>ReadMsg\<close>, \<open>Flush\<close>,
  \<open>Reconnect\<close> and \<open>Close\<close>. The write mutex makes each call atomic; deadlines only decide which error
  a read or write returns and are part of the link's environment.
\<close>

section \<open>State\<close>

definition MaxPayloadSize :: nat where "MaxPayloadSize = 16 * 1024 * 1024"

datatype 'cs transport = Plain link | Enc "'cs Session"

record bufw =
  b_buf :: bytes
  b_size :: nat
  b_err :: "error option"

record 'cs Conn =
  c_crypto :: bool
  c_isTCP :: bool
  c_batchSize :: nat
  c_transport :: "'cs transport"
  c_bw :: "bufw option"
  c_stopPing :: bool
  c_stopBatch :: bool

section \<open>Transport\<close>

fun transport_write ::
  "'cs encrypter \<Rightarrow> bytes \<Rightarrow> 'cs transport \<Rightarrow> 'cs transport \<times> nat \<times> error option" where
  "transport_write E bs (Plain l) = (case net_write bs l of (l', n, e) \<Rightarrow> (Plain l', n, e))"
| "transport_write E bs (Enc s) = (case sessionWrite E bs s of (s', n, e) \<Rightarrow> (Enc s', n, e))"

fun transport_read_full ::
  "'cs decrypter \<Rightarrow> nat \<Rightarrow> 'cs transport \<Rightarrow> 'cs transport \<times> bytes result" where
  "transport_read_full D n (Plain l) = (case net_read_full n l of (l', r) \<Rightarrow> (Plain l', r))"
| "transport_read_full D n (Enc s) = (case sessionReadFull D n [] s of (s', r) \<Rightarrow> (Enc s', r))"

fun transport_close :: "'cs transport \<Rightarrow> 'cs transport \<times> error option" where
  "transport_close (Plain l) = (case net_close l of (l', e) \<Rightarrow> (Plain l', e))"
| "transport_close (Enc s) = (case sessionClose s of (s', e) \<Rightarrow> (Enc s', e))"

lemma transport_write_ok:
  "transport_write E bs t = (t', n, None) \<Longrightarrow> n = length bs"
  by (cases t) (auto simp: net_write_def sessionWrite_def
      split: prod.splits if_splits list.splits option.splits sum.splits)

section \<open>The buffered writer\<close>

definition newWriterSize :: "nat \<Rightarrow> bufw" where
  "newWriterSize n = \<lparr>b_buf = [], b_size = n, b_err = None\<rparr>"

definition bufFlush ::
  "'cs encrypter \<Rightarrow> bufw \<Rightarrow> 'cs transport \<Rightarrow> bufw \<times> 'cs transport \<times> error option" where
  "bufFlush E b t =
     (if b_err b \<noteq> None then (b, t, b_err b)
      else if b_buf b = [] then (b, t, None)
      else case transport_write E (b_buf b) t of
             (t', n, None) \<Rightarrow> (b\<lparr>b_buf := []\<rparr>, t', None)
           | (t', n, Some e) \<Rightarrow> (b\<lparr>b_buf := drop n (b_buf b), b_err := Some e\<rparr>, t', Some e))"

function bufWrite ::
  "'cs encrypter \<Rightarrow> bytes \<Rightarrow> bufw \<Rightarrow> 'cs transport \<Rightarrow> bufw \<times> 'cs transport \<times> error option" where
  "bufWrite E p b t =
     (if length p > b_size b - length (b_buf b) \<and> b_err b = None then
        (if b_buf b = [] then
           (case transport_write E p t of
              (t', n, e) \<Rightarrow> bufWrite E (drop n p) (b\<lparr>b_err := e\<rparr>) t')
         else
           (let n = b_size b - length (b_buf b) in
            case bufFlush E (b\<lparr>b_buf := b_buf b @ take n p\<rparr>) t of
              (b', t', _) \<Rightarrow> bufWrite E (drop n p) b' t'))
      else if b_err b \<noteq> None then (b, t, b_err b)
      else (b\<lparr>b_buf := b_buf b @ p\<rparr>, t, None))"
  by pat_completeness auto
termination
proof (relation "measures [\<lambda>(E, p, b, t). if b_err b = None then 1 else 0,
    \<lambda>(E, p, b, t). length p, \<lambda>(E, p, b, t). length (b_buf b)]", goal_cases)
  case 1
  then show ?case by simp
next
  case (2 E p b t t' y n e)
  then show ?case using transport_write_ok [of E p t t' n] by (cases e) auto
next
  case 3
  then show ?case
    by (auto simp: bufFlush_def split: prod.splits option.splits if_splits)
qed

declare bufWrite.simps [simp del]

section \<open>Operations\<close>

definition buildTransport ::
  "link \<Rightarrow> (link \<Rightarrow> 'cs Session result) option \<Rightarrow> 'cs transport result" where
  "buildTransport raw hsCfg =
     (case hsCfg of None \<Rightarrow> Inr (Plain raw) | Some hs \<Rightarrow> map_sum (\<lambda>e. e) Enc (hs raw))"

definition New :: "link result \<Rightarrow> (link \<Rightarrow> 'cs Session result) option \<Rightarrow> bool \<Rightarrow> nat \<Rightarrow> 'cs Conn result" where
  "New dialed handshake isTCP batchSize =
     (case dialed of
        Inl e \<Rightarrow> Inl e
      | Inr raw \<Rightarrow>
          (case buildTransport raw handshake of
             Inl e \<Rightarrow> Inl e
           | Inr t \<Rightarrow>
               Inr \<lparr>c_crypto = (handshake \<noteq> None), c_isTCP = isTCP, c_batchSize = batchSize,
                    c_transport = t,
                    c_bw = (if batchSize > 0 then Some (newWriterSize batchSize) else None),
                    c_stopPing = False, c_stopBatch = False\<rparr>))"

definition framedHeader :: "Message \<Rightarrow> Header" where
  "framedHeader msg = (Hdr msg)\<lparr>PayloadLen := word_of_nat (length (Payload msg))\<rparr>"

definition WriteMsg :: "'cs encrypter \<Rightarrow> Message \<Rightarrow> 'cs Conn \<Rightarrow> 'cs Conn \<times> error option" where
  "WriteMsg E msg c =
     (let hdr = EncodeHeader (framedHeader msg); payload = Payload msg; t = c_transport c in
      case c_bw c of
        Some bw \<Rightarrow>
          (case bufWrite E hdr bw t of
             (b1, t1, Some e) \<Rightarrow> (c\<lparr>c_bw := Some b1, c_transport := t1\<rparr>, Some e)
           | (b1, t1, None) \<Rightarrow>
               (case (if length payload > 0 then bufWrite E payload b1 t1 else (b1, t1, None)) of
                  (b2, t2, Some e) \<Rightarrow> (c\<lparr>c_bw := Some b2, c_transport := t2\<rparr>, Some e)
                | (b2, t2, None) \<Rightarrow>
                    if length (b_buf b2) \<ge> c_batchSize c
                    then (case bufFlush E b2 t2 of
                            (b3, t3, e) \<Rightarrow> (c\<lparr>c_bw := Some b3, c_transport := t3\<rparr>, e))
                    else (c\<lparr>c_bw := Some b2, c_transport := t2\<rparr>, None)))
      | None \<Rightarrow>
          if c_isTCP c \<and> \<not> c_crypto c
          then (case transport_write E (hdr @ payload) t of
                  (t', _, e) \<Rightarrow> (c\<lparr>c_transport := t'\<rparr>, e))
          else (case transport_write E hdr t of
                  (t1, _, Some e) \<Rightarrow> (c\<lparr>c_transport := t1\<rparr>, Some e)
                | (t1, _, None) \<Rightarrow>
                    if length payload > 0
                    then (case transport_write E payload t1 of
                            (t2, _, e) \<Rightarrow> (c\<lparr>c_transport := t2\<rparr>, e))
                    else (c\<lparr>c_transport := t1\<rparr>, None)))"

definition Flush :: "'cs encrypter \<Rightarrow> 'cs Conn \<Rightarrow> 'cs Conn \<times> error option" where
  "Flush E c =
     (case c_bw c of
        Some bw \<Rightarrow> (case bufFlush E bw (c_transport c) of
                      (b, t, e) \<Rightarrow> (c\<lparr>c_bw := Some b, c_transport := t\<rparr>, e))
      | None \<Rightarrow> (c, None))"

definition ReadMsg :: "'cs decrypter \<Rightarrow> 'cs Conn \<Rightarrow> 'cs Conn \<times> Message result" where
  "ReadMsg D c =
     (case transport_read_full D HeaderSize (c_transport c) of
        (t1, Inl e) \<Rightarrow> (c\<lparr>c_transport := t1\<rparr>, Inl e)
      | (t1, Inr hdrBuf) \<Rightarrow>
          let hdr = DecodeHeader hdrBuf in
          if unat (PayloadLen hdr) > MaxPayloadSize
          then (c\<lparr>c_transport := t1\<rparr>, Inl (Errorf ''conn: payload size exceeds limit''))
          else if PayloadLen hdr > 0
          then (case transport_read_full D (unat (PayloadLen hdr)) t1 of
                  (t2, Inl e) \<Rightarrow> (c\<lparr>c_transport := t2\<rparr>, Inl e)
                | (t2, Inr payload) \<Rightarrow>
                    (c\<lparr>c_transport := t2\<rparr>, Inr \<lparr>Hdr = hdr, Payload = payload\<rparr>))
          else (c\<lparr>c_transport := t1\<rparr>, Inr \<lparr>Hdr = hdr, Payload = []\<rparr>))"

text \<open>\<open>Reconnect\<close> replaces the transport and resets the buffered writer onto it.\<close>

definition Reconnect ::
  "link result \<Rightarrow> (link \<Rightarrow> 'cs Session result) option \<Rightarrow> 'cs Conn \<Rightarrow> 'cs Conn \<times> error option" where
  "Reconnect dialed handshake c =
     (case dialed of
        Inl e \<Rightarrow> (c, Some e)
      | Inr raw \<Rightarrow>
          (case buildTransport raw handshake of
             Inl e \<Rightarrow> (c, Some e)
           | Inr t \<Rightarrow>
               (c\<lparr>c_transport := t,
                  c_bw := map_option (\<lambda>b. newWriterSize (b_size b)) (c_bw c)\<rparr>, None)))"

definition Close :: "'cs encrypter \<Rightarrow> 'cs Conn \<Rightarrow> 'cs Conn \<times> error option" where
  "Close E c =
     (let c1 = fst (Flush E (c\<lparr>c_stopPing := True, c_stopBatch := True\<rparr>));
          t1 = fst (transport_close (c_transport c1))
      in case transport_close t1 of (t2, e) \<Rightarrow> (c1\<lparr>c_transport := t2\<rparr>, e))"

text \<open>
  The ping loop and the batch flush loop over a number of ticks: both end when stopped, and the ping
  loop also ends at the first failed write.
\<close>

fun pingLoop :: "'cs encrypter \<Rightarrow> nat \<Rightarrow> 'cs Conn \<Rightarrow> 'cs Conn" where
  "pingLoop E 0 c = c"
| "pingLoop E (Suc ticks) c =
     (if c_stopPing c then c
      else case WriteMsg E \<lparr>Hdr = zero_Header\<lparr>MsgType := MsgPing\<rparr>, Payload = []\<rparr> c of
             (c', Some e) \<Rightarrow> c'
           | (c', None) \<Rightarrow> pingLoop E ticks c')"

fun batchFlushLoop :: "'cs encrypter \<Rightarrow> nat \<Rightarrow> 'cs Conn \<Rightarrow> 'cs Conn" where
  "batchFlushLoop E 0 c = c"
| "batchFlushLoop E (Suc ticks) c =
     (if c_stopBatch c then c else batchFlushLoop E ticks (fst (Flush E c)))"

text \<open>Writing and reading several messages, up to the first error.\<close>

fun WriteMsgs :: "'cs encrypter \<Rightarrow> Message list \<Rightarrow> 'cs Conn \<Rightarrow> 'cs Conn \<times> error option" where
  "WriteMsgs E [] c = (c, None)"
| "WriteMsgs E (m # ms) c =
     (case WriteMsg E m c of (c', Some e) \<Rightarrow> (c', Some e) | (c', None) \<Rightarrow> WriteMsgs E ms c')"

fun ReadMsgs :: "'cs decrypter \<Rightarrow> nat \<Rightarrow> 'cs Conn \<Rightarrow> 'cs Conn \<times> Message list result" where
  "ReadMsgs D 0 c = (c, Inr [])"
| "ReadMsgs D (Suc n) c =
     (case ReadMsg D c of
        (c', Inl e) \<Rightarrow> (c', Inl e)
      | (c', Inr m) \<Rightarrow>
          (case ReadMsgs D n c' of
             (c'', Inl e) \<Rightarrow> (c'', Inl e)
           | (c'', Inr ms) \<Rightarrow> (c'', Inr (m # ms))))"

section \<open>Plain framing\<close>

text \<open>The bytes of one message, and reading one off a stream.\<close>

definition msgBytes :: "Message \<Rightarrow> bytes" where
  "msgBytes m = EncodeHeader (framedHeader m) @ Payload m"

definition framedMsg :: "Message \<Rightarrow> Message" where
  "framedMsg m = \<lparr>Hdr = framedHeader m, Payload = Payload m\<rparr>"

definition readMsgBytes :: "Message reader" where
  "readMsgBytes rx e =
     (case ReadFull HeaderSize rx e of
        (Inl err, rest) \<Rightarrow> (Inl err, rest)
      | (Inr h, rest) \<Rightarrow>
          let hdr = DecodeHeader h in
          if unat (PayloadLen hdr) > MaxPayloadSize
          then (Inl (Errorf ''conn: payload size exceeds limit''), rest)
          else case ReadFull (unat (PayloadLen hdr)) rest e of
                 (Inl err, rest') \<Rightarrow> (Inl err, rest')
               | (Inr p, rest') \<Rightarrow> (Inr \<lparr>Hdr = hdr, Payload = p\<rparr>, rest'))"

definition msg_ok :: "Message \<Rightarrow> bool" where
  "msg_ok m \<longleftrightarrow> length (Payload m) \<le> MaxPayloadSize"

lemma PayloadLen_framedHeader [simp]:
  "length (Payload m) < 2 ^ 32 \<Longrightarrow> unat (PayloadLen (framedHeader m)) = length (Payload m)"
  by (simp add: framedHeader_def)

lemma ReadFull_0 [simp]: "ReadFull 0 rx e = (Inr [], rx)"
  by (simp add: ReadFull_def)

lemma ReadFull_header [simp]:
  "ReadFull HeaderSize (EncodeHeader h @ rest) e = (Inr (EncodeHeader h), rest)"
  by (rule ReadFull_append) (rule header_codec.length_enc)

lemma readMsgBytes_header:
  assumes "msg_ok m"
  shows "readMsgBytes (EncodeHeader (framedHeader m) @ rest) e =
    (case ReadFull (length (Payload m)) rest e of
       (Inl err, rest') \<Rightarrow> (Inl err, rest')
     | (Inr p, rest') \<Rightarrow> (Inr \<lparr>Hdr = framedHeader m, Payload = p\<rparr>, rest'))"
  using assms by (simp add: readMsgBytes_def msg_ok_def MaxPayloadSize_def header_codec.dec_enc)

lemma ReadMsg_Plain:
  assumes "c_transport c = Plain l" "\<not> l_closed l"
  shows "ReadMsg D c =
    (case readMsgBytes (l_rx l) (l_rerr l) of
       (r, rest) \<Rightarrow> (c\<lparr>c_transport := Plain (l\<lparr>l_rx := rest\<rparr>)\<rparr>, r))"
  using assms
  by (simp add: ReadMsg_def readMsgBytes_def net_read_full_def Let_def word_less_nat_alt
      split: prod.splits sum.splits)

interpretation msg_stream: framed msgBytes readMsgBytes msg_ok framedMsg
proof unfold_locales
  fix m rest e
  assume "msg_ok m"
  then show "readMsgBytes (msgBytes m @ rest) e = (Inr (framedMsg m), rest)"
    by (simp add: msgBytes_def framedMsg_def readMsgBytes_header)
next
  fix e
  show "\<exists>err. readMsgBytes [] e = (Inl err, [])"
    by (simp add: readMsgBytes_def ReadFull_def HeaderSize_def)
next
  fix m xs ys e
  assume ok: "msg_ok m" and eq: "msgBytes m = xs @ ys" and "ys \<noteq> []"
  let ?h = "EncodeHeader (framedHeader m)"
  from append_cut [OF eq [unfolded msgBytes_def]]
  consider (body) zs where "xs = ?h @ zs" "Payload m = zs @ ys" | (hdr) zs where "?h = xs @ zs" "zs \<noteq> []"
    by blast
  then show "\<exists>err. readMsgBytes xs e = (Inl err, [])"
  proof cases
    case body
    then show ?thesis
      using ReadFull_short [of zs "length (Payload m)" e] \<open>ys \<noteq> []\<close> readMsgBytes_header [OF ok, of zs e]
      by auto
  next
    case hdr
    have "0 < length zs" using hdr(2) by simp
    then have "length xs < HeaderSize"
      using arg_cong [OF hdr(1), of length]
      by (simp add: header_codec.length_enc del: length_greater_0_conv)
    then show ?thesis using ReadFull_short [of xs HeaderSize e] by (auto simp: readMsgBytes_def)
  qed
qed

lemma ReadMsgs_Plain:
  "c_transport c = Plain l \<Longrightarrow> \<not> l_closed l \<Longrightarrow>
   ReadMsgs D n c =
     (case read_many readMsgBytes n (l_rx l) (l_rerr l) of
        (r, rest) \<Rightarrow> (c\<lparr>c_transport := Plain (l\<lparr>l_rx := rest\<rparr>)\<rparr>, r))"
proof (induction n arbitrary: c l)
  case 0
  then show ?case by simp
next
  case (Suc n)
  then show ?case by (simp add: ReadMsg_Plain split: prod.splits sum.splits)
qed

section \<open>Batching is transparent on a plain connection\<close>

text \<open>
  A plain connection whose link takes every write; what the peer will have received once everything
  buffered is flushed.
\<close>

fun plain_up :: "'cs Conn \<Rightarrow> bool" where
  "plain_up c =
     (case c_transport c of
        Plain l \<Rightarrow> link_up l \<and> (case c_bw c of None \<Rightarrow> True | Some b \<Rightarrow> b_err b = None)
      | Enc s \<Rightarrow> False)"

fun wire :: "'cs Conn \<Rightarrow> bytes" where
  "wire c =
     (case c_transport c of
        Plain l \<Rightarrow> l_tx l @ (case c_bw c of None \<Rightarrow> [] | Some b \<Rightarrow> b_buf b)
      | Enc s \<Rightarrow> [])"

fun unflushed :: "'cs Conn \<Rightarrow> bytes" where
  "unflushed c = (case c_bw c of None \<Rightarrow> [] | Some b \<Rightarrow> b_buf b)"

lemma bufFlush_plain:
  assumes "link_up l" "b_err b = None"
  shows "bufFlush E b (Plain l) = (b\<lparr>b_buf := []\<rparr>, Plain (l\<lparr>l_tx := l_tx l @ b_buf b\<rparr>), None)"
  using assms by (auto simp: bufFlush_def)

lemma bufWrite_plain:
  "t = Plain l \<Longrightarrow> link_up l \<Longrightarrow> b_err b = None \<Longrightarrow>
   \<exists>b' tx. bufWrite E p b t = (b', Plain (l\<lparr>l_tx := tx\<rparr>), None) \<and> b_err b' = None \<and>
     tx @ b_buf b' = l_tx l @ b_buf b @ p"
proof (induction E p b t arbitrary: l rule: bufWrite.induct)
  case (1 E p b t)
  let ?n = "b_size b - length (b_buf b)"
  consider (fits) "length p \<le> ?n" | (direct) "?n < length p" "b_buf b = []" | (fill) "?n < length p" "b_buf b \<noteq> []"
    by linarith
  then show ?case
  proof cases
    case fits
    then show ?thesis using 1 by (subst bufWrite.simps) (auto intro!: exI [of _ "l_tx l"])
  next
    case direct
    then show ?thesis
      using 1 by (subst bufWrite.simps) (force simp: bufWrite.simps)
  next
    case fill
    let ?b = "b\<lparr>b_buf := b_buf b @ take ?n p\<rparr>"
    have fl: "bufFlush E ?b t = (?b\<lparr>b_buf := []\<rparr>, Plain (l\<lparr>l_tx := l_tx l @ b_buf ?b\<rparr>), None)"
      using 1 bufFlush_plain [of l ?b] by simp
    have "\<exists>b' tx. bufWrite E (drop ?n p) (?b\<lparr>b_buf := []\<rparr>) (Plain (l\<lparr>l_tx := l_tx l @ b_buf ?b\<rparr>)) =
        (b', Plain (l\<lparr>l_tx := l_tx l @ b_buf ?b, l_tx := tx\<rparr>), None) \<and> b_err b' = None \<and>
        tx @ b_buf b' = l_tx (l\<lparr>l_tx := l_tx l @ b_buf ?b\<rparr>) @ b_buf (?b\<lparr>b_buf := []\<rparr>) @ drop ?n p"
      by (rule "1.IH"(2) [OF _ fill(2) refl fl [symmetric]]) (use 1 fill fl in simp_all)
    then show ?thesis
      using fill fl 1 by (subst bufWrite.simps) auto
  qed
qed

lemma WriteMsg_plain:
  assumes "plain_up c"
  shows "\<exists>c'. WriteMsg E m c = (c', None) \<and> plain_up c' \<and> wire c' = wire c @ msgBytes m"
proof -
  obtain l where t: "c_transport c = Plain l" and l: "link_up l"
    using assms by (auto split: transport.splits)
  show ?thesis
  proof (cases "c_bw c")
    case None
    then show ?thesis
      using t l by (cases "Payload m = []") (simp_all add: WriteMsg_def msgBytes_def Let_def)
  next
    case (Some b)
    then have b: "b_err b = None" using assms t by simp
    let ?h = "EncodeHeader (framedHeader m)"
    obtain b1 tx1 where w1: "bufWrite E ?h b (Plain l) = (b1, Plain (l\<lparr>l_tx := tx1\<rparr>), None)"
      "b_err b1 = None" "tx1 @ b_buf b1 = l_tx l @ b_buf b @ ?h"
      using bufWrite_plain [OF refl l b] by blast
    obtain b2 tx2 where w2:
      "(if length (Payload m) > 0 then bufWrite E (Payload m) b1 (Plain (l\<lparr>l_tx := tx1\<rparr>))
        else (b1, Plain (l\<lparr>l_tx := tx1\<rparr>), None)) = (b2, Plain (l\<lparr>l_tx := tx2\<rparr>), None)"
      "b_err b2 = None" "tx2 @ b_buf b2 = tx1 @ b_buf b1 @ Payload m"
      using bufWrite_plain [OF refl _ w1(2), of "l\<lparr>l_tx := tx1\<rparr>" E "Payload m"] l w1(2)
      by (cases "Payload m") fastforce+
    have "tx2 @ b_buf b2 = l_tx l @ b_buf b @ msgBytes m"
      using w1(3) w2(3) by (metis append.assoc msgBytes_def)
    then show ?thesis
      using Some t l w1(1) w2(1,2) bufFlush_plain [OF _ w2(2), of "l\<lparr>l_tx := tx2\<rparr>" E]
      by (auto simp: WriteMsg_def Let_def)
  qed
qed

lemma WriteMsgs_plain:
  "plain_up c \<Longrightarrow>
   \<exists>c'. WriteMsgs E ms c = (c', None) \<and> plain_up c' \<and> wire c' = wire c @ concat (map msgBytes ms)"
proof (induction ms arbitrary: c)
  case Nil
  then show ?case by simp
next
  case (Cons m ms)
  obtain c1 where "WriteMsg E m c = (c1, None)" "plain_up c1" "wire c1 = wire c @ msgBytes m"
    using WriteMsg_plain [OF Cons.prems] by blast
  with Cons.IH [of c1] show ?case by (auto simp del: plain_up.simps wire.simps)
qed

lemma Flush_plain:
  "plain_up c \<Longrightarrow> \<exists>c'. Flush E c = (c', None) \<and> plain_up c' \<and> wire c' = wire c \<and> unflushed c' = []"
  by (cases "c_transport c"; cases "c_bw c") (simp_all add: Flush_def bufFlush_plain)

section \<open>Encrypted connections\<close>

text \<open>Without batching, each message is a header frame and, unless it is empty, a payload frame.\<close>

definition msgParts :: "Message \<Rightarrow> bytes list" where
  "msgParts m = EncodeHeader (framedHeader m) # (if Payload m = [] then [] else [Payload m])"

lemma WriteMsg_enc:
  assumes "c_transport c = Enc w" "c_bw c = None" "c_crypto c"
  shows "WriteMsg E m c =
    (case sessionWriteAll E (msgParts m) w of (w', e) \<Rightarrow> (c\<lparr>c_transport := Enc w'\<rparr>, e))"
  using assms
  by (auto simp: WriteMsg_def msgParts_def Let_def split: prod.splits option.splits)

lemma sessionWriteAll_append:
  "sessionWriteAll E (xs @ ys) w =
     (case sessionWriteAll E xs w of
        (w', Some e) \<Rightarrow> (w', Some e) | (w', None) \<Rightarrow> sessionWriteAll E ys w')"
  by (induction xs arbitrary: w) (simp_all split: prod.splits option.splits)

lemma WriteMsgs_enc:
  "c_transport c = Enc w \<Longrightarrow> c_bw c = None \<Longrightarrow> c_crypto c \<Longrightarrow>
   WriteMsgs E ms c =
     (case sessionWriteAll E (concat (map msgParts ms)) w of
        (w', e) \<Rightarrow> (c\<lparr>c_transport := Enc w'\<rparr>, e))"
  by (induction ms arbitrary: c w)
    (simp_all add: WriteMsg_enc sessionWriteAll_append split: prod.splits option.splits)

text \<open>Reading one plaintext with a buffer of its exact size.\<close>

lemma enc_read_part:
  assumes sync: "cipher_sync E D R" and wr: "sessionWrite E pt w = (w', len, None)"
    and up: "link_up (s_conn w)" and R: "R (s_send w) (s_recv r)" and cl: "\<not> l_closed (s_conn r)"
    and pt: "0 < length pt" "length pt + 16 \<le> maxFrame"
    and tx: "l_tx (s_conn w') = l_tx (s_conn w) @ sent" and rx: "l_rx (s_conn r) = sent @ rest"
  shows "\<exists>k. sessionReadFull D (length pt) [] r =
      (r\<lparr>s_recv := k, s_conn := (s_conn r)\<lparr>l_rx := rest\<rparr>\<rparr>, Inr pt) \<and> R (s_send w') k"
proof -
  obtain j ct where j: "E (s_send w) pt = (j, Inr ct)"
    and w': "w' = w\<lparr>s_send := j, s_conn := (s_conn w)\<lparr>l_tx := l_tx (s_conn w) @ frameBytes ct\<rparr>\<rparr>"
    using sessionWrite_okE [OF wr up] .
  obtain k where k: "length ct = length pt + 16" "D (s_recv r) ct = (k, Inr pt)" "R j k"
    using sync R j unfolding cipher_sync_def by blast
  have "sent = frameBytes ct" using tx by (simp add: w')
  then show ?thesis
    using sessionReadFull_frame [of r ct rest D k pt "length pt"] cl rx k pt w' by auto
qed

lemma sessionWrite_link:
  assumes "sessionWrite E pt w = (w', len, None)" "link_up (s_conn w)"
  shows "link_up (s_conn w') \<and> (\<exists>sent. l_tx (s_conn w') = l_tx (s_conn w) @ sent)"
  by (rule sessionWrite_okE [OF assms]) (use assms(2) in simp)

lemma sessionWriteAll_link:
  "sessionWriteAll E pts w = (w', None) \<Longrightarrow> link_up (s_conn w) \<Longrightarrow> link_up (s_conn w')"
proof (induction pts arbitrary: w)
  case Nil
  then show ?case by simp
next
  case (Cons pt pts)
  then show ?case using sessionWrite_link [of E pt w] by (auto split: prod.splits option.splits)
qed

text \<open>The payload frame, if there is one, after the header frame has been read.\<close>

lemma enc_read_payload:
  assumes sync: "cipher_sync E D R"
    and wr: "sessionWriteAll E (if p = [] then [] else [p]) w = (w', None)"
    and up: "link_up (s_conn w)" and R: "R (s_send w) (s_recv r)" and cl: "\<not> l_closed (s_conn r)"
    and len: "length p + 16 \<le> maxFrame"
    and tx: "l_tx (s_conn w') = l_tx (s_conn w) @ sent" and rx: "l_rx (s_conn r) = sent @ rest"
  shows "\<exists>r'. (if 0 < length p then sessionReadFull D (length p) [] r else (r, Inr [])) = (r', Inr p) \<and>
    l_rx (s_conn r') = rest \<and> \<not> l_closed (s_conn r') \<and> R (s_send w') (s_recv r')"
proof (cases "p = []")
  case True
  with assms show ?thesis by auto
next
  case False
  obtain len' where wp: "sessionWrite E p w = (w', len', None)"
    using wr False by (auto split: prod.splits option.splits)
  obtain k where "sessionReadFull D (length p) [] r =
      (r\<lparr>s_recv := k, s_conn := (s_conn r)\<lparr>l_rx := rest\<rparr>\<rparr>, Inr p)" "R (s_send w') k"
    using enc_read_part [OF sync wp up R cl _ len tx rx] False by auto
  with False cl show ?thesis by simp
qed

lemma enc_read_msg:
  assumes sync: "cipher_sync E D R" and wr: "sessionWriteAll E (msgParts m) w = (w', None)"
    and up: "link_up (s_conn w)" and R: "R (s_send w) (s_recv r)" and cl: "\<not> l_closed (s_conn r)"
    and len: "length (Payload m) + 16 \<le> maxFrame" and d: "c_transport d = Enc r"
    and tx: "l_tx (s_conn w') = l_tx (s_conn w) @ sent" and rx: "l_rx (s_conn r) = sent @ rest"
  shows "\<exists>r'. ReadMsg D d = (d\<lparr>c_transport := Enc r'\<rparr>, Inr (framedMsg m)) \<and>
    l_rx (s_conn r') = rest \<and> \<not> l_closed (s_conn r') \<and> R (s_send w') (s_recv r')"
proof -
  let ?h = "EncodeHeader (framedHeader m)"
  obtain w1 n where w1: "sessionWrite E ?h w = (w1, n, None)"
    "sessionWriteAll E (if Payload m = [] then [] else [Payload m]) w1 = (w', None)"
    using wr by (auto simp: msgParts_def split: prod.splits option.splits)
  obtain s1 where up1: "link_up (s_conn w1)" and s1: "l_tx (s_conn w1) = l_tx (s_conn w) @ s1"
    using sessionWrite_link [OF w1(1) up] by blast
  obtain s2 where s2: "l_tx (s_conn w') = l_tx (s_conn w1) @ s2"
    using sessionWriteAll_tx [OF w1(2) up1] by blast
  have sent: "sent = s1 @ s2" using s1 s2 tx by simp
  have hlen: "length ?h = HeaderSize" by (rule header_codec.length_enc)
  let ?r = "\<lambda>k. r\<lparr>s_recv := k, s_conn := (s_conn r)\<lparr>l_rx := s2 @ rest\<rparr>\<rparr>"
  obtain k where k: "sessionReadFull D HeaderSize [] r = (?r k, Inr ?h)" "R (s_send w1) k"
    using enc_read_part [OF sync w1(1) up R cl _ _ s1, of "s2 @ rest"] rx sent
    by (auto simp: hlen HeaderSize_def maxFrame_def)
  obtain r' where r': "(if 0 < length (Payload m) then sessionReadFull D (length (Payload m)) [] (?r k)
      else (?r k, Inr [])) = (r', Inr (Payload m))"
    "l_rx (s_conn r') = rest" "\<not> l_closed (s_conn r')" "R (s_send w') (s_recv r')"
    using enc_read_payload [OF sync w1(2) up1 _ _ len s2, of "?r k" rest] k(2) cl by auto
  have "length (Payload m) \<le> MaxPayloadSize" "length (Payload m) < 2 ^ 32"
    using len by (auto simp: MaxPayloadSize_def maxFrame_def)
  then have "ReadMsg D d = (d\<lparr>c_transport := Enc r'\<rparr>, Inr (framedMsg m))"
    using k(1) r'(1) d
    by (auto simp: ReadMsg_def header_codec.dec_enc framedMsg_def word_less_nat_alt Let_def split: if_splits)
  with r'(2-4) show ?thesis by blast
qed

lemma enc_read_msgs:
  assumes sync: "cipher_sync E D R"
  shows "sessionWriteAll E (concat (map msgParts ms)) w = (w', None) \<Longrightarrow> link_up (s_conn w) \<Longrightarrow>
    \<forall>m\<in>set ms. length (Payload m) + 16 \<le> maxFrame \<Longrightarrow>
    R (s_send w) (s_recv r) \<Longrightarrow> \<not> l_closed (s_conn r) \<Longrightarrow> c_transport d = Enc r \<Longrightarrow>
    l_tx (s_conn w') = l_tx (s_conn w) @ sent \<Longrightarrow> l_rx (s_conn r) = sent @ rest \<Longrightarrow>
    \<exists>r'. ReadMsgs D (length ms) d = (d\<lparr>c_transport := Enc r'\<rparr>, Inr (map framedMsg ms)) \<and>
      l_rx (s_conn r') = rest \<and> R (s_send w') (s_recv r')"
proof (induction ms arbitrary: w r d sent)
  case Nil
  then show ?case by (auto intro!: exI [of _ r])
next
  case (Cons m ms)
  obtain w2 where w2: "sessionWriteAll E (msgParts m) w = (w2, None)"
    "sessionWriteAll E (concat (map msgParts ms)) w2 = (w', None)"
    using Cons.prems(1) by (auto simp: sessionWriteAll_append split: prod.splits option.splits)
  have up2: "link_up (s_conn w2)" using sessionWriteAll_link [OF w2(1) Cons.prems(2)] .
  obtain s2 where s2: "l_tx (s_conn w2) = l_tx (s_conn w) @ s2"
    using sessionWriteAll_tx [OF w2(1) Cons.prems(2)] by blast
  obtain s3 where s3: "l_tx (s_conn w') = l_tx (s_conn w2) @ s3"
    using sessionWriteAll_tx [OF w2(2) up2] by blast
  have sent: "sent = s2 @ s3" using s2 s3 Cons.prems(7) by simp
  obtain r2 where r2: "ReadMsg D d = (d\<lparr>c_transport := Enc r2\<rparr>, Inr (framedMsg m))"
    "l_rx (s_conn r2) = s3 @ rest" "\<not> l_closed (s_conn r2)" "R (s_send w2) (s_recv r2)"
    using enc_read_msg [OF sync w2(1) Cons.prems(2,4,5) _ Cons.prems(6) s2, of "s3 @ rest"]
      Cons.prems(3,8) sent by auto
  have "\<exists>r'. ReadMsgs D (length ms) (d\<lparr>c_transport := Enc r2\<rparr>) =
        (d\<lparr>c_transport := Enc r2\<rparr>\<lparr>c_transport := Enc r'\<rparr>, Inr (map framedMsg ms)) \<and>
      l_rx (s_conn r') = rest \<and> R (s_send w') (s_recv r')"
    by (rule Cons.IH [OF w2(2) up2 _ r2(4,3) _ s3 r2(2)]) (use Cons.prems in simp_all)
  with r2(1) show ?case by auto
qed

section \<open>Properties\<close>

text \<open>What a plain connection sends, once flushed, is received by the peer message by message.\<close>

lemma plain_delivers:
  assumes "plain_up c" "c_transport c = Plain l" "unflushed c = []" "\<forall>m\<in>set ms. msg_ok m"
  shows "\<exists>c1 c2 l2 sent. WriteMsgs E ms c = (c1, None) \<and> Flush E c1 = (c2, None) \<and>
    c_transport c2 = Plain l2 \<and> l_tx l2 = l_tx l @ sent \<and>
    (\<forall>d ld rest. c_transport d = Plain ld \<longrightarrow> \<not> l_closed ld \<longrightarrow> l_rx ld = sent @ rest \<longrightarrow>
       ReadMsgs D (length ms) d =
         (d\<lparr>c_transport := Plain (ld\<lparr>l_rx := rest\<rparr>)\<rparr>, Inr (map framedMsg ms)))"
proof -
  let ?sent = "concat (map msgBytes ms)"
  obtain c1 where c1: "WriteMsgs E ms c = (c1, None)" "plain_up c1" "wire c1 = wire c @ ?sent"
    using WriteMsgs_plain [OF assms(1)] by blast
  obtain c2 where c2: "Flush E c1 = (c2, None)" "plain_up c2" "wire c2 = wire c1" "unflushed c2 = []"
    using Flush_plain [OF c1(2)] by blast
  obtain l2 where l2: "c_transport c2 = Plain l2" using c2(2) by (auto split: transport.splits)
  have "l_tx l2 = l_tx l @ ?sent" using c1(3) c2(3,4) l2 assms(2,3) by (auto split: option.splits)
  with c1(1) c2(1) l2 msg_stream.read_many_wr [OF assms(4)] show ?thesis
    by (auto simp: ReadMsgs_Plain)
qed

text \<open>
  C6: A connection opened without encryption delivers messages faithfully in every write mode
  (batched with any buffer size, one vectored write, or two writes): writing a list of messages and
  flushing succeeds on a working link, and a peer that receives the bytes reads back exactly those
  messages, with their payload lengths filled in, and nothing of the bytes that follow.
\<close>

theorem conn_plain_delivers:
  assumes "New (Inr l) None isTCP batchSize = Inr c" and "link_up l"
    and "\<forall>m\<in>set ms. length (Payload m) \<le> MaxPayloadSize"
  shows "\<exists>c1 c2 l2 sent. WriteMsgs E ms c = (c1, None) \<and> Flush E c1 = (c2, None) \<and>
    c_transport c2 = Plain l2 \<and> l_tx l2 = l_tx l @ sent \<and>
    (\<forall>d ld rest. c_transport d = Plain ld \<longrightarrow> \<not> l_closed ld \<longrightarrow> l_rx ld = sent @ rest \<longrightarrow>
       ReadMsgs D (length ms) d =
         (d\<lparr>c_transport := Plain (ld\<lparr>l_rx := rest\<rparr>)\<rparr>, Inr (map framedMsg ms)))"
proof (rule plain_delivers)
  have c: "c_transport c = Plain l" "c_bw c = (if batchSize > 0 then Some (newWriterSize batchSize) else None)"
    using assms(1) by (auto simp: New_def buildTransport_def)
  then show "c_transport c = Plain l" "plain_up c" "unflushed c = []"
    using assms(2) by (auto simp: newWriterSize_def)
  show "\<forall>m\<in>set ms. msg_ok m" using assms(3) by (simp add: msg_ok_def)
qed

theorem conn_plain_delivers_witness:
  "\<exists>c. New (Inr (new_link [] IoEOF)) None True 64 = Inr (c :: unit Conn) \<and>
    (\<exists>c1 c2. WriteMsgs (\<lambda>k p. (k, Inr p)) [\<lparr>Hdr = zero_Header, Payload = [1, 2, 3]\<rparr>] c = (c1, None) \<and>
      Flush (\<lambda>k p. (k, Inr p)) c1 = (c2, None))"
proof -
  obtain c :: "unit Conn" where c: "New (Inr (new_link [] IoEOF)) None True 64 = Inr c"
    by (simp add: New_def buildTransport_def)
  have "\<forall>m\<in>set [\<lparr>Hdr = zero_Header, Payload = [1, 2, 3]\<rparr>]. length (Payload m) \<le> MaxPayloadSize"
    by (simp add: MaxPayloadSize_def)
  from conn_plain_delivers [OF c link_up_new this] c show ?thesis by blast
qed

text \<open>
  A successful reconnect starts from a clean stream: whatever was still buffered for the old
  transport and whatever error its buffered writer had kept are gone, and the messages written after
  the reconnect are exactly what the new peer reads.
\<close>

theorem reconnect_clean_stream:
  assumes "Reconnect (Inr l) None c = (c', e)" and "link_up l"
    and "\<forall>m\<in>set ms. length (Payload m) \<le> MaxPayloadSize"
  shows "e = None \<and> (\<exists>c1 c2 l2 sent. WriteMsgs E ms c' = (c1, None) \<and> Flush E c1 = (c2, None) \<and>
    c_transport c2 = Plain l2 \<and> l_tx l2 = l_tx l @ sent \<and>
    (\<forall>d ld rest. c_transport d = Plain ld \<longrightarrow> \<not> l_closed ld \<longrightarrow> l_rx ld = sent @ rest \<longrightarrow>
       ReadMsgs D (length ms) d =
         (d\<lparr>c_transport := Plain (ld\<lparr>l_rx := rest\<rparr>)\<rparr>, Inr (map framedMsg ms))))"
proof (intro conjI plain_delivers)
  have "c_transport c' = Plain l" "c_bw c' = map_option (\<lambda>b. newWriterSize (b_size b)) (c_bw c)" "e = None"
    using assms(1) by (auto simp: Reconnect_def buildTransport_def)
  then show "e = None" "c_transport c' = Plain l" "plain_up c'" "unflushed c' = []"
    using assms(2) by (auto simp: newWriterSize_def split: option.splits)
  show "\<forall>m\<in>set ms. msg_ok m" using assms(3) by (simp add: msg_ok_def)
qed

theorem reconnect_clean_stream_witness:
  "\<exists>c' :: unit Conn. Reconnect (Inr (new_link [] IoEOF)) None
      \<lparr>c_crypto = False, c_isTCP = True, c_batchSize = 64, c_transport = Plain (new_link [] IoEOF),
       c_bw = Some \<lparr>b_buf = [7], b_size = 64, b_err = Some NetErrClosed\<rparr>, c_stopPing = False,
       c_stopBatch = False\<rparr> = (c', None) \<and>
    (\<exists>c1. WriteMsgs (\<lambda>k p. (k, Inr p)) [\<lparr>Hdr = zero_Header, Payload = [9]\<rparr>] c' = (c1, None))"
proof -
  have "\<forall>m\<in>set [\<lparr>Hdr = zero_Header, Payload = [9]\<rparr>]. length (Payload m) \<le> MaxPayloadSize"
    by (simp add: MaxPayloadSize_def)
  from reconnect_clean_stream [OF _ link_up_new this] show ?thesis
    by (metis surj_pair)
qed

text \<open>
  A plain stream cut at any byte, as when the connection breaks, gives the reader exactly the
  messages that arrived completely and then an error: no message is made up from a partial one.
\<close>

theorem cut_stream_reads_whole_messages:
  assumes "\<forall>m\<in>set ms. length (Payload m) \<le> MaxPayloadSize" and "concat (map msgBytes ms) = received @ lost"
    and "c_transport d = Plain ld" and "\<not> l_closed ld" and "l_rx ld = received"
  shows "\<exists>k d' e. k \<le> length ms \<and> length (concat (map msgBytes (take k ms))) \<le> length received \<and>
    (k < length ms \<longrightarrow> length received < length (concat (map msgBytes (take (Suc k) ms)))) \<and>
    ReadMsgs D k d = (d', Inr (map framedMsg (take k ms))) \<and> snd (ReadMsg D d') = Inl e"
proof -
  have ok: "\<forall>m\<in>set ms. msg_ok m" using assms(1) by (simp add: msg_ok_def)
  obtain k tail where k: "k \<le> length ms" "received = concat (map msgBytes (take k ms)) @ tail"
    "k < length ms \<longrightarrow> length tail < length (msgBytes (ms ! k))"
    using msg_stream.read_until_prefix [OF ok assms(2) lessI] by blast
  have rest: "concat (map msgBytes (drop k ms)) = tail @ lost"
    using assms(2) k(2) by (metis append.assoc append_take_drop_id concat_append map_append same_append_eq)
  have tail: "\<exists>err. readMsgBytes tail (l_rerr ld) = (Inl err, [])"
  proof (cases "k < length ms")
    case True
    then have "msgBytes (ms ! k) @ concat (map msgBytes (drop (Suc k) ms)) = tail @ lost"
      using rest by (simp add: Cons_nth_drop_Suc [symmetric])
    from append_cut [OF this] k(3) True obtain zs where "msgBytes (ms ! k) = tail @ zs" "zs \<noteq> []" by auto
    then show ?thesis using msg_stream.rd_torn [of "ms ! k" tail zs] ok True by simp
  next
    case False
    then show ?thesis using rest msg_stream.rd_Nil by simp
  qed
  have "\<forall>m\<in>set (take k ms). msg_ok m" using ok by (meson in_set_takeD)
  from msg_stream.read_many_wr [OF this, of tail] k(1)
  have "read_many readMsgBytes k (concat (map msgBytes (take k ms)) @ tail) (l_rerr ld)
      = (Inr (map framedMsg (take k ms)), tail)" by simp
  then have "ReadMsgs D k d = (d\<lparr>c_transport := Plain (ld\<lparr>l_rx := tail\<rparr>)\<rparr>, Inr (map framedMsg (take k ms)))"
    using assms(3,4,5) k(2) by (simp add: ReadMsgs_Plain)
  moreover obtain e where "snd (ReadMsg D (d\<lparr>c_transport := Plain (ld\<lparr>l_rx := tail\<rparr>)\<rparr>)) = Inl e"
    using tail assms(4) by (auto simp: ReadMsg_Plain)
  ultimately show ?thesis
    using k by (intro exI [of _ k] exI [of _ e] exI) (auto simp: take_Suc_conv_app_nth)
qed

text \<open>An unbatched plain connection on a given link, for examples.\<close>

definition plainConn :: "link \<Rightarrow> unit Conn" where
  "plainConn l = \<lparr>c_crypto = False, c_isTCP = True, c_batchSize = 0, c_transport = Plain l,
     c_bw = None, c_stopPing = False, c_stopBatch = False\<rparr>"

lemma plainConn_transport [simp]: "c_transport (plainConn l) = Plain l"
  by (simp add: plainConn_def)

theorem cut_stream_reads_whole_messages_witness:
  "\<exists>k d' e.
    ReadMsgs (\<lambda>j c. (j, Inr c)) k (plainConn (new_link (take 5 (msgBytes \<lparr>Hdr = zero_Header, Payload = [1]\<rparr>)) IoEOF)) =
      (d', Inr (map framedMsg (take k [\<lparr>Hdr = zero_Header, Payload = [1]\<rparr>]))) \<and>
    snd (ReadMsg (\<lambda>j c. (j, Inr c)) d') = Inl e"
proof -
  let ?m = "\<lparr>Hdr = zero_Header, Payload = [1]\<rparr>"
  have "\<forall>m\<in>set [?m]. length (Payload m) \<le> MaxPayloadSize" by (simp add: MaxPayloadSize_def)
  moreover have "concat (map msgBytes [?m]) = take 5 (msgBytes ?m) @ drop 5 (msgBytes ?m)" by simp
  ultimately show ?thesis
    using cut_stream_reads_whole_messages [OF _ _ plainConn_transport new_link_fields(4) new_link_fields(1)]
    by blast
qed

text \<open>
  C12: An encrypted connection without batching delivers messages faithfully: whatever list of
  messages (of less than 8 MB each) was written without error, a peer session in step with the
  sender's reads back exactly those messages and stays in step. (Relies on the cipher library's
  documented behaviour.)
\<close>

theorem conn_encrypted_delivers:
  assumes "cipher_sync E D R" and "New (Inr l) (Some hs) isTCP 0 = Inr c" and "hs l = Inr w"
    and "link_up (s_conn w)" and "WriteMsgs E ms c = (c', None)"
    and "\<forall>m\<in>set ms. length (Payload m) + 16 \<le> maxFrame"
    and "c_transport d = Enc r" and "R (s_send w) (s_recv r)" and "\<not> l_closed (s_conn r)"
  shows "\<exists>w' sent. c_transport c' = Enc w' \<and> l_tx (s_conn w') = l_tx (s_conn w) @ sent \<and>
    (\<forall>rest. l_rx (s_conn r) = sent @ rest \<longrightarrow>
      (\<exists>r'. ReadMsgs D (length ms) d = (d\<lparr>c_transport := Enc r'\<rparr>, Inr (map framedMsg ms)) \<and>
        l_rx (s_conn r') = rest \<and> R (s_send w') (s_recv r')))"
proof -
  have c: "c_transport c = Enc w" "c_bw c = None" "c_crypto c"
    using assms(2,3) by (auto simp: New_def buildTransport_def)
  obtain w' where w': "sessionWriteAll E (concat (map msgParts ms)) w = (w', None)" "c' = c\<lparr>c_transport := Enc w'\<rparr>"
    using assms(5) WriteMsgs_enc [OF c] by (auto split: prod.splits)
  obtain sent where sent: "l_tx (s_conn w') = l_tx (s_conn w) @ sent"
    using sessionWriteAll_tx [OF w'(1) assms(4)] by blast
  from enc_read_msgs [OF assms(1) w'(1) assms(4,6,8,9,7) sent] w'(2) sent show ?thesis by auto
qed

theorem conn_encrypted_delivers_witness:
  "\<exists>c c' w' sent r'. New (Inr (new_link [] IoEOF)) (Some (\<lambda>l. Inr (newSession l 0 0 True []))) True 0 = Inr c \<and>
    WriteMsgs toyEncrypt [\<lparr>Hdr = zero_Header, Payload = [1, 2]\<rparr>] c = (c', None) \<and>
    c_transport c' = Enc w' \<and> l_tx (s_conn w') = sent \<and>
    ReadMsgs toyDecrypt 1 (c\<lparr>c_transport := Enc (newSession (new_link sent IoEOF) 0 0 False [])\<rparr>) =
      (c\<lparr>c_transport := Enc r'\<rparr>, Inr [framedMsg \<lparr>Hdr = zero_Header, Payload = [1, 2]\<rparr>])"
proof -
  let ?w = "newSession (new_link [] IoEOF) 0 0 True [] :: nat Session"
  let ?m = "\<lparr>Hdr = zero_Header, Payload = [1, 2]\<rparr>"
  obtain c where c: "New (Inr (new_link [] IoEOF)) (Some (\<lambda>l. Inr (newSession l 0 0 True []))) True 0 = Inr (c :: nat Conn)"
    by (simp add: New_def buildTransport_def)
  have up: "link_up (s_conn ?w)" by (simp add: newSession_def)
  obtain c' where c': "WriteMsgs toyEncrypt [?m] c = (c', None)"
    using c up by (auto simp: New_def buildTransport_def WriteMsg_enc msgParts_def sessionWrite_up toyEncrypt_def)
  have len: "\<forall>m\<in>set [?m]. length (Payload m) + 16 \<le> maxFrame" by (simp add: maxFrame_def)
  obtain w' where w': "c_transport c' = Enc w'"
    using c c' up by (auto simp: New_def buildTransport_def WriteMsg_enc msgParts_def sessionWrite_up toyEncrypt_def)
  let ?r = "newSession (new_link (l_tx (s_conn w')) IoEOF) 0 0 False [] :: nat Session"
  let ?d = "c\<lparr>c_transport := Enc ?r\<rparr>"
  have "\<exists>w'' sent. c_transport c' = Enc w'' \<and> l_tx (s_conn w'') = l_tx (s_conn ?w) @ sent \<and>
    (\<forall>rest. l_rx (s_conn ?r) = sent @ rest \<longrightarrow>
      (\<exists>r'. ReadMsgs toyDecrypt (length [?m]) ?d = (?d\<lparr>c_transport := Enc r'\<rparr>, Inr (map framedMsg [?m])) \<and>
        l_rx (s_conn r') = rest \<and> s_send w'' = s_recv r'))"
    by (rule conn_encrypted_delivers [OF toy_cipher_sync c refl up c' len])
      (simp_all add: newSession_def)
  with c c' w' show ?thesis by (auto simp: newSession_def)
qed

lemma bufWrite_fits:
  assumes "b_err b = None" "length p + length (b_buf b) \<le> b_size b"
  shows "bufWrite E p b t = (b\<lparr>b_buf := b_buf b @ p\<rparr>, t, None)"
proof -
  have "\<not> b_size b - length (b_buf b) < length p" using assms(2) by linarith
  with assms(1) show ?thesis by (subst bufWrite.simps) simp
qed

lemma batched_one_frame:
  assumes "c_transport c = Enc w" "c_bw c = Some (newWriterSize (c_batchSize c))" "link_up (s_conn w)"
    and "E (s_send w) (msgBytes m) = (k, Inr ct)" "Payload m \<noteq> []" "length (msgBytes m) \<le> c_batchSize c"
  shows "\<exists>c1 c2. WriteMsg E m c = (c1, None) \<and> Flush E c1 = (c2, None) \<and> c_transport c2 =
    Enc (w\<lparr>s_send := k, s_conn := (s_conn w)\<lparr>l_tx := l_tx (s_conn w) @ frameBytes ct\<rparr>\<rparr>)"
proof -
  let ?b = "newWriterSize (c_batchSize c)" and ?h = "EncodeHeader (framedHeader m)"
  have w1: "bufWrite E ?h ?b t = (?b\<lparr>b_buf := ?h\<rparr>, t, None)" for t
    using assms(6) by (subst bufWrite_fits) (simp_all add: newWriterSize_def msgBytes_def)
  have w2: "bufWrite E (Payload m) (?b\<lparr>b_buf := ?h\<rparr>) t = (?b\<lparr>b_buf := msgBytes m\<rparr>, t, None)" for t
    using assms(6) by (subst bufWrite_fits) (simp_all add: newWriterSize_def msgBytes_def)
  have ne: "msgBytes m \<noteq> []" using assms(5) by (simp add: msgBytes_def)
  show ?thesis
    using assms(1-5) w1 w2 ne sessionWrite_up [where Encrypt = E, OF assms(3,4)]
    by (auto simp: WriteMsg_def Flush_def bufFlush_def newWriterSize_def Let_def)
qed

text \<open>
  C17: Batching and encryption do not work together. On an encrypted connection with batching, a
  message with a payload that fits the batch buffer is accepted and flushed without error, but
  header and payload then travel as one encrypted frame: the peer's read of the header takes that
  frame and drops the rest of it, so the payload never arrives and the read fails (or takes its
  payload from a later message) although every byte was delivered and the ciphers are in step.
\<close>

theorem batched_encrypted_loses_payload:
  assumes "cipher_sync E D R" and "New (Inr l) (Some hs) isTCP batchSize = Inr c" and "hs l = Inr w"
    and "link_up (s_conn w)" and "E (s_send w) (msgBytes m) = (k, Inr ct)"
    and "Payload m \<noteq> []" and "length (msgBytes m) \<le> batchSize" and "length (msgBytes m) + 16 \<le> maxFrame"
    and "c_transport d = Enc r" and "R (s_send w) (s_recv r)" and "\<not> l_closed (s_conn r)"
  shows "\<exists>c1 c2 w' sent. WriteMsg E m c = (c1, None) \<and> Flush E c1 = (c2, None) \<and>
    c_transport c2 = Enc w' \<and> l_tx (s_conn w') = l_tx (s_conn w) @ sent \<and>
    (l_rx (s_conn r) = sent \<longrightarrow>
      (\<exists>d'. ReadMsg D d = (d', Inl (Wrap ''read frame header'' (l_rerr (s_conn r))))))"
proof -
  have bs: "0 < batchSize" using assms(6,7) by (cases batchSize) (simp_all add: msgBytes_def)
  then have c: "c_transport c = Enc w" "c_bw c = Some (newWriterSize (c_batchSize c))" "c_batchSize c = batchSize"
    using assms(2,3) by (auto simp: New_def buildTransport_def)
  obtain k' where k': "length ct = length (msgBytes m) + 16" "D (s_recv r) ct = (k', Inr (msgBytes m))"
    using assms(1,5,10) unfolding cipher_sync_def by blast
  let ?h = "EncodeHeader (framedHeader m)"
  have hlen: "length ?h = HeaderSize" by (rule header_codec.length_enc)
  have len: "length (Payload m) \<le> MaxPayloadSize" "length (Payload m) < 2 ^ 32"
    using assms(8) by (auto simp: MaxPayloadSize_def maxFrame_def msgBytes_def)
  have "\<exists>d'. ReadMsg D d = (d', Inl (Wrap ''read frame header'' (l_rerr (s_conn r))))"
    if rx: "l_rx (s_conn r) = frameBytes ct"
  proof -
    let ?r = "r\<lparr>s_recv := k', s_conn := (s_conn r)\<lparr>l_rx := []\<rparr>\<rparr>"
    have h: "sessionReadFull D HeaderSize [] r = (?r, Inr ?h)"
      using sessionReadFull_frame [of r ct "[]" D k' "msgBytes m" HeaderSize] assms(8,11) rx k'
      by (simp add: msgBytes_def hlen HeaderSize_def)
    have "sessionReadFull D n [] ?r = (?r, Inl (Wrap ''read frame header'' (l_rerr (s_conn r))))" if "0 < n" for n
      using that assms(11) by (subst sessionReadFull.simps) (simp add: sessionRead_def readFrame_def ReadFull_def)
    with h assms(6,9) len show ?thesis
      by (simp add: ReadMsg_def header_codec.dec_enc word_less_nat_alt Let_def)
  qed
  with batched_one_frame [where E = E, OF c(1,2) assms(4,5,6)] assms(7) c(3) show ?thesis by fastforce
qed

theorem batched_encrypted_loses_payload_witness:
  "\<exists>c c1 c2 w' d'. New (Inr (new_link [] IoEOF)) (Some (\<lambda>l. Inr (newSession l 0 0 True []))) True 4096 = Inr c \<and>
    WriteMsg toyEncrypt \<lparr>Hdr = zero_Header, Payload = [1, 2]\<rparr> c = (c1, None) \<and>
    Flush toyEncrypt c1 = (c2, None) \<and> c_transport c2 = Enc w' \<and>
    ReadMsg toyDecrypt (c\<lparr>c_transport := Enc (newSession (new_link (l_tx (s_conn w')) IoEOF) 0 0 False [])\<rparr>) =
      (d', Inl (Wrap ''read frame header'' IoEOF))"
proof -
  let ?w = "newSession (new_link [] IoEOF) 0 0 True [] :: nat Session"
  let ?m = "\<lparr>Hdr = zero_Header, Payload = [1, 2]\<rparr>"
  obtain c where c: "New (Inr (new_link [] IoEOF)) (Some (\<lambda>l. Inr (newSession l 0 0 True []))) True 4096 = Inr (c :: nat Conn)"
    by (simp add: New_def buildTransport_def)
  have up: "link_up (s_conn ?w)" by (simp add: newSession_def)
  have len: "length (msgBytes ?m) = 22"
    by (simp add: msgBytes_def header_codec.length_enc HeaderSize_def)
  let ?ct = "msgBytes ?m @ replicate 16 0"
  have E: "toyEncrypt (s_send ?w) (msgBytes ?m) = (Suc 0, Inr ?ct)"
    by (simp add: toyEncrypt_def newSession_def)
  have c': "c_transport c = Enc ?w" "c_bw c = Some (newWriterSize (c_batchSize c))" "c_batchSize c = 4096"
    using c by (auto simp: New_def buildTransport_def)
  let ?d = "\<lambda>tx. c\<lparr>c_transport := Enc (newSession (new_link tx IoEOF) 0 0 False [])\<rparr>"
  have "\<exists>c1 c2 w' sent. WriteMsg toyEncrypt ?m c = (c1, None) \<and> Flush toyEncrypt c1 = (c2, None) \<and>
    c_transport c2 = Enc w' \<and> l_tx (s_conn w') = l_tx (s_conn ?w) @ sent \<and>
    (l_rx (s_conn (newSession (new_link (frameBytes ?ct) IoEOF) 0 0 False [] :: nat Session)) = sent \<longrightarrow>
      (\<exists>d'. ReadMsg toyDecrypt (?d (frameBytes ?ct)) = (d', Inl (Wrap ''read frame header''
         (l_rerr (s_conn (newSession (new_link (frameBytes ?ct) IoEOF) 0 0 False [] :: nat Session)))))))"
    by (rule batched_encrypted_loses_payload [OF toy_cipher_sync c refl up E])
      (simp_all add: len maxFrame_def newSession_def)
  moreover have "\<exists>c1 c2. WriteMsg toyEncrypt ?m c = (c1, None) \<and> Flush toyEncrypt c1 = (c2, None) \<and>
      c_transport c2 = Enc (?w\<lparr>s_send := Suc 0,
        s_conn := (s_conn ?w)\<lparr>l_tx := l_tx (s_conn ?w) @ frameBytes ?ct\<rparr>\<rparr>)"
    by (rule batched_one_frame [where E = toyEncrypt, OF c'(1,2) up E]) (simp_all add: len c'(3))
  ultimately show ?thesis using c by (auto simp: newSession_def)
qed

text \<open>
  The sender does not enforce the 16 MB limit that the receiver enforces: a larger message is
  written without error, and the peer's read of it fails with the payload still in the stream, so
  that the next read takes payload bytes for a header.
\<close>

theorem oversize_message_desyncs:
  assumes "plain_up c" and "MaxPayloadSize < length (Payload m)" and "length (Payload m) < 2 ^ 32"
    and "c_transport d = Plain ld" and "\<not> l_closed ld" and "l_rx ld = msgBytes m @ rest"
  shows "(\<exists>c'. WriteMsg E m c = (c', None) \<and> wire c' = wire c @ msgBytes m) \<and>
    ReadMsg D d = (d\<lparr>c_transport := Plain (ld\<lparr>l_rx := Payload m @ rest\<rparr>)\<rparr>,
      Inl (Errorf ''conn: payload size exceeds limit''))"
proof
  show "\<exists>c'. WriteMsg E m c = (c', None) \<and> wire c' = wire c @ msgBytes m"
    using WriteMsg_plain [OF assms(1)] by blast
  show "ReadMsg D d = (d\<lparr>c_transport := Plain (ld\<lparr>l_rx := Payload m @ rest\<rparr>)\<rparr>,
      Inl (Errorf ''conn: payload size exceeds limit''))"
    using assms(2-6) by (simp add: ReadMsg_Plain readMsgBytes_def msgBytes_def header_codec.dec_enc)
qed

theorem oversize_message_desyncs_witness:
  "\<exists>c' d'. WriteMsg (\<lambda>k p. (k, Inr p)) \<lparr>Hdr = zero_Header, Payload = replicate (MaxPayloadSize + 1) 0\<rparr>
      (plainConn (new_link [] IoEOF)) = (c', None) \<and>
    ReadMsg (\<lambda>k p. (k, Inr p))
      (plainConn (new_link (msgBytes \<lparr>Hdr = zero_Header, Payload = replicate (MaxPayloadSize + 1) 0\<rparr> @ []) IoEOF)) =
      (d', Inl (Errorf ''conn: payload size exceeds limit''))"
proof -
  let ?m = "\<lparr>Hdr = zero_Header, Payload = replicate (MaxPayloadSize + 1) 0\<rparr>"
  have "plain_up (plainConn (new_link [] IoEOF))" by (simp add: plainConn_def)
  moreover have "MaxPayloadSize < length (Payload ?m)" "length (Payload ?m) < 2 ^ 32"
    by (simp_all add: MaxPayloadSize_def del: replicate_Suc)
  ultimately show ?thesis
    using oversize_message_desyncs [OF _ _ _ plainConn_transport new_link_fields(4) new_link_fields(1), of _ ?m]
    by blast
qed

end
