(* ===== verification/Retry_Ring.thy ===== *)
theory Retry_Ring
  imports Protocol "HOL-Library.Multiset" "HOL-Library.Log_Nat"
begin

text \<open>
  The retry ring of \<^verbatim>\<open>pkg/broker/broker.go\<close>: the in-flight slots and the stack of free indices that
  \<open>Broker.mu\<close> guards, and the critical sections that work on them, one definition each: claiming a
  slot (\<open>enqueue\<close>), freeing one (\<open>freeSlot\<close>), the time-out scan (\<open>checkTimeouts\<close>) and the replay scan
  (\<open>replayUnacked\<close>). Times are nanoseconds.
\<close>

section \<open>State\<close>

record slot =
  sl_msgID :: u64
  sl_frags :: "Message list"
  sl_sendTime :: int
  sl_retries :: nat
  sl_dead :: bool
  sl_active :: bool

record Ring =
  ring :: "slot list"
  freeIdx :: "nat list"

definition zero_slot :: slot where
  "zero_slot = \<lparr>sl_msgID = 0, sl_frags = [], sl_sendTime = 0, sl_retries = 0, sl_dead = False,
     sl_active = False\<rparr>"

definition newRing :: "nat \<Rightarrow> Ring" where
  "newRing n = \<lparr>ring = replicate n zero_slot, freeIdx = [0..<n]\<rparr>"

section \<open>Claiming and freeing slots\<close>

text \<open>The claim after the wait loop of \<open>enqueue\<close>; \<open>None\<close> while the caller has to wait.\<close>

definition claimSlot :: "int \<Rightarrow> u64 \<Rightarrow> Message list \<Rightarrow> Ring \<Rightarrow> Ring option" where
  "claimSlot now msgID frags r =
     (if length (freeIdx r) = 0 then None
      else let idx = last (freeIdx r) in
           Some (r\<lparr>freeIdx := butlast (freeIdx r),
                   ring := (ring r)[idx := \<lparr>sl_msgID = msgID, sl_frags = frags, sl_sendTime = now,
                     sl_retries = 0, sl_dead = False, sl_active = True\<rparr>]\<rparr>))"

fun findSlot :: "u64 \<Rightarrow> slot list \<Rightarrow> nat option" where
  "findSlot msgID [] = None"
| "findSlot msgID (s # ss) =
     (if sl_active s \<and> sl_msgID s = msgID then Some 0 else map_option Suc (findSlot msgID ss))"

definition releaseSlot :: "u64 \<Rightarrow> Ring \<Rightarrow> Ring \<times> int option" where
  "releaseSlot msgID r =
     (case findSlot msgID (ring r) of
        None \<Rightarrow> (r, None)
      | Some i \<Rightarrow>
          (r\<lparr>ring := (ring r)[i := (ring r ! i)\<lparr>sl_active := False\<rparr>], freeIdx := freeIdx r @ [i]\<rparr>,
           Some (sl_sendTime (ring r ! i))))"

section \<open>Time-outs\<close>

text \<open>
  \<^verbatim>\<open>float64(x)\<close> for a positive \<^verbatim>\<open>int64\<close>: rounding to 53 significant bits, ties to even.
\<close>

definition float64_of :: "int \<Rightarrow> int" where
  "float64_of x =
     (let k = floorlog 2 (nat x) - 53; q = x div 2 ^ k; rm = x mod 2 ^ k in
      if k = 0 then x
      else if 2 * rm > 2 ^ k \<or> (2 * rm = 2 ^ k \<and> odd q) then (q + 1) * 2 ^ k else q * 2 ^ k)"

definition backoffCap :: int where "backoffCap = 30 * 10 ^ 9"

text \<open>
  \<open>backoffDuration\<close>: the product with a power of two is exact in floating point; converting a value
  outside the range of \<^verbatim>\<open>int64\<close> is implementation-specific in Go, so its result is the argument \<open>oor\<close>.
\<close>

definition backoffDuration :: "int \<Rightarrow> nat \<Rightarrow> int \<Rightarrow> int" where
  "backoffDuration oor retries base =
     (let multiplier = 2 ^ retries;
          v = float64_of base * multiplier;
          d = (if v < 2 ^ 63 then v else oor)
      in if d > backoffCap then backoffCap else d)"

text \<open>The first loop of \<open>checkTimeouts\<close>: which slots to retry and which to declare dead.\<close>

definition timeoutActions :: "int \<Rightarrow> int \<Rightarrow> nat \<Rightarrow> int \<Rightarrow> slot list \<Rightarrow> (nat \<times> bool) list" where
  "timeoutActions oor ackTimeout maxRetries now slots =
     concat (map (\<lambda>i. let s = slots ! i in
       if \<not> sl_active s \<or> sl_dead s then []
       else if now < sl_sendTime s + backoffDuration oor (sl_retries s) ackTimeout then []
       else [(i, sl_retries s \<ge> maxRetries)]) [0..<length slots])"

text \<open>One turn of the second loop.\<close>

fun applyAction ::
  "int \<Rightarrow> Ring \<times> Message list list \<times> u64 list \<Rightarrow> nat \<times> bool \<Rightarrow> Ring \<times> Message list list \<times> u64 list" where
  "applyAction now (r, toSend, toDead) (i, dead) =
     (let s = ring r ! i in
      if dead
      then (r\<lparr>ring := (ring r)[i := s\<lparr>sl_dead := True, sl_active := False\<rparr>], freeIdx := freeIdx r @ [i]\<rparr>,
            toSend, toDead @ [sl_msgID s])
      else (r\<lparr>ring := (ring r)[i := s\<lparr>sl_retries := sl_retries s + 1, sl_sendTime := now\<rparr>]\<rparr>,
            toSend @ [sl_frags s], toDead))"

text \<open>The critical section of \<open>checkTimeouts\<close>: the ring, what to resend, which identifiers died.\<close>

definition timeoutScan ::
  "int \<Rightarrow> int \<Rightarrow> nat \<Rightarrow> int \<Rightarrow> Ring \<Rightarrow> Ring \<times> Message list list \<times> u64 list" where
  "timeoutScan oor ackTimeout maxRetries now r =
     foldl (applyAction now) (r, [], []) (timeoutActions oor ackTimeout maxRetries now (ring r))"

text \<open>The critical section of \<open>replayUnacked\<close>.\<close>

definition replayScan :: "int \<Rightarrow> Ring \<Rightarrow> Ring \<times> Message list list" where
  "replayScan now r =
     (r\<lparr>ring := map (\<lambda>s. if sl_active s \<and> \<not> sl_dead s then s\<lparr>sl_sendTime := now, sl_retries := 0\<rparr> else s)
                 (ring r)\<rparr>,
      map sl_frags (filter (\<lambda>s. sl_active s \<and> \<not> sl_dead s) (ring r)))"

section \<open>Invariant and abstraction\<close>

text \<open>
  Free and in-flight slots partition the ring: every inactive slot is on the free stack exactly once,
  and no dead slot is active.
\<close>

definition ring_ok :: "Ring \<Rightarrow> bool" where
  "ring_ok r \<longleftrightarrow> distinct (freeIdx r) \<and>
     set (freeIdx r) = {i. i < length (ring r) \<and> \<not> sl_active (ring r ! i)} \<and>
     (\<forall>i<length (ring r). sl_dead (ring r ! i) \<longrightarrow> \<not> sl_active (ring r ! i))"

text \<open>What is in flight: the messages in the active slots.\<close>

definition inflight :: "Ring \<Rightarrow> (u64 \<times> Message list) multiset" where
  "inflight r = mset (map (\<lambda>s. (sl_msgID s, sl_frags s)) (filter sl_active (ring r)))"

lemma ring_ok_new: "ring_ok (newRing n)"
  by (auto simp: ring_ok_def newRing_def zero_slot_def)

lemma inflight_new [simp]: "inflight (newRing n) = {#}"
  by (simp add: newRing_def inflight_def zero_slot_def del: mset_replicate)

lemma freeIdx_new [simp]: "length (freeIdx (newRing n)) = n"
  by (simp add: newRing_def)

lemma ring_okD:
  assumes "ring_ok r" "i \<in> set (freeIdx r)"
  shows "i < length (ring r)" "\<not> sl_active (ring r ! i)"
  using assms by (auto simp: ring_ok_def)

lemma mset_filter_update:
  assumes "i < length xs"
  shows "mset (map f (filter P (xs[i := x]))) + (if P (xs ! i) then {#f (xs ! i)#} else {#}) =
    mset (map f (filter P xs)) + (if P x then {#f x#} else {#})"
  using assms
proof (induction xs arbitrary: i)
  case Nil
  then show ?case by simp
next
  case (Cons y ys)
  then show ?case
  proof (cases i)
    case 0
    then show ?thesis by simp
  next
    case (Suc j)
    then show ?thesis using Cons.IH [of j] Cons.prems by (auto split: if_splits)
  qed
qed

lemma inflight_update:
  assumes "i < length (ring r)"
  shows "inflight (r\<lparr>ring := (ring r)[i := s]\<rparr>) +
      (if sl_active (ring r ! i) then {#(sl_msgID (ring r ! i), sl_frags (ring r ! i))#} else {#}) =
    inflight r + (if sl_active s then {#(sl_msgID s, sl_frags s)#} else {#})"
  using mset_filter_update [OF assms, of "\<lambda>s. (sl_msgID s, sl_frags s)" sl_active s]
  by (simp add: inflight_def)

lemma inflight_freeIdx [simp]: "inflight (r\<lparr>freeIdx := x\<rparr>) = inflight r"
  by (simp add: inflight_def)

lemma findSlot_Some:
  "findSlot msgID ss = Some i \<Longrightarrow> i < length ss \<and> sl_active (ss ! i) \<and> sl_msgID (ss ! i) = msgID"
  by (induction ss arbitrary: i) (auto split: if_splits)

lemma findSlot_None:
  "findSlot msgID ss = None \<longleftrightarrow> (\<forall>s\<in>set ss. sl_active s \<longrightarrow> sl_msgID s \<noteq> msgID)"
  by (induction ss) auto

section \<open>The pool contract\<close>

text \<open>
  What the broker relies on: a bounded pool of keyed items. Putting fails exactly when there is no
  room, otherwise adds one item and takes one unit of room; deleting removes one item with the key
  and gives the room back, or finds none and changes nothing.
\<close>

locale bounded_pool =
  fixes put :: "'k \<Rightarrow> 'v \<Rightarrow> 'p \<Rightarrow> 'p option" and del :: "'k \<Rightarrow> 'p \<Rightarrow> 'p \<times> 't option"
    and items :: "'p \<Rightarrow> ('k \<times> 'v) multiset" and room :: "'p \<Rightarrow> nat" and ok :: "'p \<Rightarrow> bool"
  assumes put_None: "put k v p = None \<longleftrightarrow> room p = 0"
    and put_Some: "ok p \<Longrightarrow> put k v p = Some p' \<Longrightarrow>
      ok p' \<and> items p' = add_mset (k, v) (items p) \<and> room p = Suc (room p')"
    and del_Some: "ok p \<Longrightarrow> del k p = (p', Some t) \<Longrightarrow>
      ok p' \<and> room p' = Suc (room p) \<and> (\<exists>v. items p = add_mset (k, v) (items p'))"
    and del_None: "del k p = (p', None) \<Longrightarrow> p' = p \<and> (\<forall>v. (k, v) \<notin># items p)"
begin

lemma put_capacity:
  "ok p \<Longrightarrow> put k v p = Some p' \<Longrightarrow> size (items p') + room p' = size (items p) + room p"
  by (auto dest: put_Some)

lemma del_cases:
  assumes "ok p"
  obtains (found) p' t v where "del k p = (p', Some t)" "ok p'" "room p' = Suc (room p)"
      "items p = add_mset (k, v) (items p')"
    | (absent) "del k p = (p, None)" "\<And>v. (k, v) \<notin># items p"
proof (cases "snd (del k p)")
  case None
  then have "del k p = (fst (del k p), None)" by (metis prod.collapse)
  then show ?thesis using del_None absent by metis
next
  case (Some t)
  then have "del k p = (fst (del k p), Some t)" by (metis prod.collapse)
  then show ?thesis using del_Some [OF assms] found by metis
qed

lemma del_capacity:
  "ok p \<Longrightarrow> size (items (fst (del k p))) + room (fst (del k p)) = size (items p) + room p"
  by (erule del_cases [of p k]) simp_all

lemma del_ok: "ok p \<Longrightarrow> ok (fst (del k p))"
  using del_cases [of p k] by (metis fst_conv)

text \<open>Deleting a key that was fresh when it was put undoes the put.\<close>

lemma del_unique:
  assumes "ok p" "items p = add_mset (k, v) rest" "\<And>w. (k, w) \<notin># rest"
  shows "\<exists>p' t. del k p = (p', Some t) \<and> ok p' \<and> items p' = rest \<and> room p' = Suc (room p)"
  using assms(1)
proof (cases rule: del_cases [of p k])
  case (found p' t w)
  then have "add_mset (k, v) rest = add_mset (k, w) (items p')" using assms(2) by simp
  then have "items p' = rest" using assms(3) [of w] by (auto simp: add_eq_conv_ex)
  then show ?thesis using found by auto
next
  case absent
  then show ?thesis using assms(2) by (metis union_single_eq_member)
qed

lemma del_put:
  assumes "ok p" "put k v p = Some p'" "\<And>w. (k, w) \<notin># items p"
  shows "\<exists>p'' t. del k p' = (p'', Some t) \<and> ok p'' \<and> items p'' = items p \<and> room p'' = room p"
  using put_Some [OF assms(1,2)] del_unique [of p' k v "items p"] assms(3) by auto

end

lemma claimSlot_ok:
  assumes "ring_ok r" "claimSlot now mid frags r = Some r'"
  shows "ring_ok r' \<and> inflight r' = add_mset (mid, frags) (inflight r) \<and>
    length (freeIdx r) = Suc (length (freeIdx r')) \<and> length (ring r') = length (ring r)"
proof -
  let ?i = "last (freeIdx r)"
  let ?s = "\<lparr>sl_msgID = mid, sl_frags = frags, sl_sendTime = now, sl_retries = 0, sl_dead = False, sl_active = True\<rparr>"
  have ne: "freeIdx r \<noteq> []" and r': "r' = r\<lparr>freeIdx := butlast (freeIdx r), ring := (ring r)[?i := ?s]\<rparr>"
    using assms(2) by (auto simp: claimSlot_def Let_def split: if_splits)
  have i: "?i < length (ring r)" "\<not> sl_active (ring r ! ?i)" using ring_okD [OF assms(1)] ne by auto
  have dist: "distinct (butlast (freeIdx r) @ [?i])" using assms(1) ne by (simp add: ring_ok_def)
  have "set (freeIdx r) = set (butlast (freeIdx r) @ [?i])" using ne by simp
  also have "\<dots> = insert ?i (set (butlast (freeIdx r)))" by simp
  finally have "insert ?i (set (butlast (freeIdx r))) = {j. j < length (ring r) \<and> \<not> sl_active (ring r ! j)}"
    using assms(1) by (simp add: ring_ok_def)
  with dist have "set (butlast (freeIdx r)) = {j. j < length (ring r) \<and> \<not> sl_active (ring r ! j)} - {?i}"
    by (metis Diff_insert_absorb distinct_append distinct_singleton disjoint_insert(1) list.simps(15))
  then have "ring_ok r'"
    using assms(1) i(1) dist by (auto simp: ring_ok_def r' nth_list_update split: if_splits)
  then show ?thesis
    using inflight_update [OF i(1), of ?s] i(2) ne by (simp add: r' inflight_def)
qed

lemma releaseSlot_ok:
  assumes "ring_ok r" "releaseSlot mid r = (r', Some t)"
  shows "ring_ok r' \<and> length (freeIdx r') = Suc (length (freeIdx r)) \<and>
    length (ring r') = length (ring r) \<and> (\<exists>frags. inflight r = add_mset (mid, frags) (inflight r'))"
proof -
  obtain i where i: "findSlot mid (ring r) = Some i"
    and r': "r' = r\<lparr>ring := (ring r)[i := (ring r ! i)\<lparr>sl_active := False\<rparr>], freeIdx := freeIdx r @ [i]\<rparr>"
    using assms(2) by (auto simp: releaseSlot_def split: option.splits)
  from findSlot_Some [OF i] have a: "i < length (ring r)" "sl_active (ring r ! i)" "sl_msgID (ring r ! i) = mid"
    by auto
  have "ring_ok r'"
    using assms(1) a by (auto simp: ring_ok_def r' nth_list_update)
  moreover have "inflight r = add_mset (mid, sl_frags (ring r ! i)) (inflight r')"
    using inflight_update [OF a(1), of "(ring r ! i)\<lparr>sl_active := False\<rparr>"] a by (simp add: r')
  ultimately show ?thesis by (auto simp: r')
qed

interpretation ring_pool:
  bounded_pool "claimSlot now" releaseSlot inflight "\<lambda>r. length (freeIdx r)" ring_ok for now
proof unfold_locales
  fix k v p
  show "claimSlot now k v p = None \<longleftrightarrow> length (freeIdx p) = 0" by (simp add: claimSlot_def Let_def)
next
  fix p p' k v
  assume "ring_ok p" "claimSlot now k v p = Some p'"
  from claimSlot_ok [OF this] show "ring_ok p' \<and> inflight p' = add_mset (k, v) (inflight p) \<and>
      length (freeIdx p) = Suc (length (freeIdx p'))" by blast
next
  fix p p' k t
  assume "ring_ok p" "releaseSlot k p = (p', Some t)"
  from releaseSlot_ok [OF this] show "ring_ok p' \<and> length (freeIdx p') = Suc (length (freeIdx p)) \<and>
      (\<exists>v. inflight p = add_mset (k, v) (inflight p'))" by blast
next
  fix p p' k
  assume "releaseSlot k p = (p', None)"
  then show "p' = p \<and> (\<forall>v. (k, v) \<notin># inflight p)"
    by (auto simp: releaseSlot_def inflight_def findSlot_None split: option.splits)
qed

section \<open>The time-out scan in closed form\<close>

definition slotDue :: "int \<Rightarrow> int \<Rightarrow> int \<Rightarrow> slot \<Rightarrow> bool" where
  "slotDue oor ackTimeout now s \<longleftrightarrow> sl_active s \<and> \<not> sl_dead s \<and>
     sl_sendTime s + backoffDuration oor (sl_retries s) ackTimeout \<le> now"

definition slotExpired :: "int \<Rightarrow> int \<Rightarrow> nat \<Rightarrow> int \<Rightarrow> slot \<Rightarrow> bool" where
  "slotExpired oor ackTimeout maxRetries now s \<longleftrightarrow>
     slotDue oor ackTimeout now s \<and> maxRetries \<le> sl_retries s"

definition slotAfter :: "int \<Rightarrow> int \<Rightarrow> nat \<Rightarrow> int \<Rightarrow> slot \<Rightarrow> slot" where
  "slotAfter oor ackTimeout maxRetries now s =
     (if slotExpired oor ackTimeout maxRetries now s then s\<lparr>sl_dead := True, sl_active := False\<rparr>
      else if slotDue oor ackTimeout now s then s\<lparr>sl_retries := sl_retries s + 1, sl_sendTime := now\<rparr>
      else s)"

definition scanPrefix :: "int \<Rightarrow> int \<Rightarrow> nat \<Rightarrow> int \<Rightarrow> Ring \<Rightarrow> nat \<Rightarrow> Ring \<times> Message list list \<times> u64 list" where
  "scanPrefix oor tmo mx now r k =
     (let due = slotDue oor tmo now; dead = slotExpired oor tmo mx now; done = take k (ring r) in
      (r\<lparr>ring := map (slotAfter oor tmo mx now) done @ drop k (ring r),
         freeIdx := freeIdx r @ filter (\<lambda>i. dead (ring r ! i)) [0..<k]\<rparr>,
       map sl_frags (filter (\<lambda>s. due s \<and> \<not> dead s) done),
       map sl_msgID (filter dead done)))"

lemma scanPrefix_Suc:
  assumes "k < length (ring r)"
  shows "foldl (applyAction now) (scanPrefix oor tmo mx now r k)
      (let s = ring r ! k in
       if \<not> sl_active s \<or> sl_dead s then []
       else if now < sl_sendTime s + backoffDuration oor (sl_retries s) tmo then []
       else [(k, sl_retries s \<ge> mx)]) = scanPrefix oor tmo mx now r (Suc k)"
proof -
  have drop: "drop k (ring r) = ring r ! k # drop (Suc k) (ring r)" using assms by (simp add: Cons_nth_drop_Suc)
  have nth: "(map f (take k (ring r)) @ y # zs) ! k = y" for f :: "slot \<Rightarrow> slot" and y zs
    using assms by (simp add: nth_append)
  show ?thesis
    using assms
    by (auto simp: scanPrefix_def Let_def take_Suc_conv_app_nth slotDue_def slotExpired_def slotAfter_def
        drop nth not_less list_update_append split: if_splits)
qed

lemma timeoutScan_eq:
  "timeoutScan oor tmo mx now r = scanPrefix oor tmo mx now r (length (ring r))"
proof -
  let ?act = "\<lambda>k. let s = ring r ! k in
       if \<not> sl_active s \<or> sl_dead s then []
       else if now < sl_sendTime s + backoffDuration oor (sl_retries s) tmo then []
       else [(k, sl_retries s \<ge> mx)]"
  have "foldl (applyAction now) (r, [], []) (concat (map ?act [0..<k])) = scanPrefix oor tmo mx now r k"
    if "k \<le> length (ring r)" for k
    using that
  proof (induction k)
    case 0
    then show ?case by (simp add: scanPrefix_def)
  next
    case (Suc k)
    then have "foldl (applyAction now) (r, [], []) (concat (map ?act [0..<Suc k]))
        = foldl (applyAction now) (scanPrefix oor tmo mx now r k) (?act k)" by simp
    then show ?case using scanPrefix_Suc [of k r now oor tmo mx] Suc.prems by simp
  qed
  then show ?thesis by (simp add: timeoutScan_def timeoutActions_def)
qed

lemma timeoutScan_parts:
  assumes "timeoutScan oor tmo mx now r = (r', toSend, toDead)"
  shows "ring r' = map (slotAfter oor tmo mx now) (ring r)"
    and "freeIdx r' = freeIdx r @ filter (\<lambda>i. slotExpired oor tmo mx now (ring r ! i)) [0..<length (ring r)]"
    and "toSend = map sl_frags (filter (\<lambda>s. slotDue oor tmo now s \<and> \<not> slotExpired oor tmo mx now s) (ring r))"
    and "toDead = map sl_msgID (filter (slotExpired oor tmo mx now) (ring r))"
  using assms by (auto simp: timeoutScan_eq scanPrefix_def Let_def)

lemma slotExpired_active: "slotExpired oor tmo mx now s \<Longrightarrow> sl_active s"
  by (simp add: slotExpired_def slotDue_def)

lemma slotAfter_simps [simp]:
  "sl_active (slotAfter oor tmo mx now s) \<longleftrightarrow> sl_active s \<and> \<not> slotExpired oor tmo mx now s"
  "sl_dead (slotAfter oor tmo mx now s) \<longleftrightarrow> sl_dead s \<or> slotExpired oor tmo mx now s"
  "sl_msgID (slotAfter oor tmo mx now s) = sl_msgID s"
  "sl_frags (slotAfter oor tmo mx now s) = sl_frags s"
  by (auto simp: slotAfter_def)

lemma timeoutScan_ok:
  assumes "ring_ok r" "timeoutScan oor tmo mx now r = (r', toSend, toDead)"
  shows "ring_ok r'"
    and "inflight r = inflight r' + mset (map (\<lambda>s. (sl_msgID s, sl_frags s)) (filter (slotExpired oor tmo mx now) (ring r)))"
proof -
  note parts = timeoutScan_parts [OF assms(2)]
  show "ring_ok r'"
    using assms(1) by (auto simp: ring_ok_def parts dest: slotExpired_active)
  have "inflight r' = mset (map (\<lambda>s. (sl_msgID s, sl_frags s)) (filter (\<lambda>s. sl_active s \<and> \<not> slotExpired oor tmo mx now s) (ring r)))"
    by (simp add: inflight_def parts(1) filter_map comp_def)
  moreover have "mset (filter sl_active xs) = mset (filter (\<lambda>s. sl_active s \<and> \<not> slotExpired oor tmo mx now s) xs)
      + mset (filter (slotExpired oor tmo mx now) xs)" for xs
    by (induction xs) (auto dest: slotExpired_active)
  ultimately show "inflight r = inflight r' + mset (map (\<lambda>s. (sl_msgID s, sl_frags s)) (filter (slotExpired oor tmo mx now) (ring r)))"
    by (simp only: inflight_def mset_map image_mset_union)
qed

lemma replayScan_ok:
  assumes "ring_ok r" "replayScan now r = (r', out)"
  shows "ring_ok r'" and "inflight r' = inflight r" and "mset out = image_mset snd (inflight r)"
proof -
  have r': "ring r' = map (\<lambda>s. if sl_active s \<and> \<not> sl_dead s then s\<lparr>sl_sendTime := now, sl_retries := 0\<rparr> else s) (ring r)"
    "freeIdx r' = freeIdx r" "out = map sl_frags (filter (\<lambda>s. sl_active s \<and> \<not> sl_dead s) (ring r))"
    using assms(2) by (auto simp: replayScan_def)
  show "ring_ok r'" using assms(1) by (auto simp: ring_ok_def r')
  have "map (\<lambda>s. (sl_msgID s, sl_frags s)) (filter sl_active
      (map (\<lambda>s. if sl_active s \<and> \<not> sl_dead s then s\<lparr>sl_sendTime := now, sl_retries := 0\<rparr> else s) xs)) =
      map (\<lambda>s. (sl_msgID s, sl_frags s)) (filter sl_active xs)" for xs :: "slot list"
    by (induction xs) auto
  then show "inflight r' = inflight r" by (simp only: inflight_def r'(1))
  have "filter (\<lambda>s. sl_active s \<and> \<not> sl_dead s) (ring r) = filter sl_active (ring r)"
    using assms(1) by (intro filter_cong) (auto simp: ring_ok_def in_set_conv_nth)
  then show "mset out = image_mset snd (inflight r)"
    by (simp add: inflight_def r'(3) multiset.map_comp comp_def)
qed

lemma ring_capacity:
  assumes "ring_ok r"
  shows "size (inflight r) + length (freeIdx r) = length (ring r)"
proof -
  have "length (freeIdx r) = card {i. i < length (ring r) \<and> \<not> sl_active (ring r ! i)}"
    using assms by (metis ring_ok_def distinct_card)
  also have "\<dots> = length (filter (\<lambda>s. \<not> sl_active s) (ring r))"
    by (simp add: length_filter_conv_card)
  finally show ?thesis
    using sum_length_filter_compl [of sl_active "ring r"] by (simp add: inflight_def size_mset [symmetric] del: size_mset)
qed

section \<open>Any interleaving of the critical sections\<close>

datatype ring_event =
    RClaim int u64 "Message list"
  | RRelease u64
  | RTimeout int int nat int
  | RReplay int

fun ring_step :: "Ring \<Rightarrow> ring_event \<Rightarrow> Ring" where
  "ring_step r (RClaim now mid frags) = (case claimSlot now mid frags r of None \<Rightarrow> r | Some r' \<Rightarrow> r')"
| "ring_step r (RRelease mid) = fst (releaseSlot mid r)"
| "ring_step r (RTimeout oor ackTimeout maxRetries now) = fst (timeoutScan oor ackTimeout maxRetries now r)"
| "ring_step r (RReplay now) = fst (replayScan now r)"

lemma ring_step_length [simp]: "length (ring (ring_step r ev)) = length (ring r)"
proof (cases ev)
  case (RTimeout oor tmo mx now)
  then show ?thesis
    by (cases "timeoutScan oor tmo mx now r") (simp add: timeoutScan_parts(1))
qed (auto simp: claimSlot_def releaseSlot_def replayScan_def Let_def split: option.splits if_splits)

lemma ring_step_ok: "ring_ok r \<Longrightarrow> ring_ok (ring_step r ev)"
proof (cases ev)
  case (RTimeout oor tmo mx now)
  assume "ring_ok r"
  with RTimeout show ?thesis
    by (cases "timeoutScan oor tmo mx now r") (simp add: timeoutScan_ok(1))
next
  case (RReplay now)
  assume "ring_ok r"
  with RReplay show ?thesis by (cases "replayScan now r") (simp add: replayScan_ok(1))
qed (auto simp: ring_pool.del_ok dest: ring_pool.put_Some split: option.splits)

interpretation ring_sys: guarded_system ring_step ring_ok
  by unfold_locales (rule ring_step_ok)

section \<open>Back-off\<close>

lemma backoff_le_cap: "backoffDuration oor retries base \<le> backoffCap"
  by (simp add: backoffDuration_def Let_def)

lemma floorlog_le: "n < 2 ^ k \<Longrightarrow> floorlog 2 n \<le> k"
  by (rule floorlog_leI) simp_all

lemma float64_of_small: "0 \<le> x \<Longrightarrow> x < 2 ^ 53 \<Longrightarrow> float64_of x = x"
  using floorlog_le [of "nat x" 53] by (simp add: float64_of_def nat_less_iff)

lemma backoff_exact:
  assumes "0 < base" "base < 2 ^ 53" "base * 2 ^ retries < 2 ^ 63"
  shows "backoffDuration oor retries base = min (base * 2 ^ retries) backoffCap"
  using assms by (simp add: backoffDuration_def Let_def float64_of_small)

section \<open>Retries end\<close>

text \<open>
  A slot seen by scans only: each scan at least 30 seconds after the previous one (or after the send)
  finds it due, so that its retries are used up one by one and then it is declared dead.
\<close>

fun spaced :: "int \<Rightarrow> int list \<Rightarrow> bool" where
  "spaced t0 [] = True"
| "spaced t0 (t # ts) = (t0 + backoffCap \<le> t \<and> spaced t ts)"

definition scans :: "int \<Rightarrow> int \<Rightarrow> nat \<Rightarrow> Ring \<Rightarrow> int list \<Rightarrow> Ring" where
  "scans oor tmo mx r ts = foldl (\<lambda>r t. fst (timeoutScan oor tmo mx t r)) r ts"

lemma ring_scans:
  "ring (scans oor tmo mx r ts) = map (\<lambda>s. foldl (\<lambda>s t. slotAfter oor tmo mx t s) s ts) (ring r)"
proof (induction ts arbitrary: r)
  case Nil
  then show ?case by (simp add: scans_def)
next
  case (Cons t ts)
  have "ring (fst (timeoutScan oor tmo mx t r)) = map (slotAfter oor tmo mx t) (ring r)"
    by (cases "timeoutScan oor tmo mx t r") (simp add: timeoutScan_parts(1))
  with Cons [of "fst (timeoutScan oor tmo mx t r)"] show ?case by (simp add: scans_def comp_def)
qed

lemma slot_dies:
  "sl_active s \<Longrightarrow> \<not> sl_dead s \<Longrightarrow> sl_retries s + length ts = Suc mx \<Longrightarrow> spaced (sl_sendTime s) ts \<Longrightarrow>
   sl_dead (foldl (\<lambda>s t. slotAfter oor tmo mx t s) s ts) \<or> ts = []"
proof (induction ts arbitrary: s)
  case Nil
  then show ?case by simp
next
  case (Cons t ts)
  have due: "slotDue oor tmo t s"
    using Cons.prems backoff_le_cap [of oor "sl_retries s" tmo] by (simp add: slotDue_def)
  show ?case
  proof (cases ts)
    case Nil
    then show ?thesis using Cons.prems due by (simp add: slotAfter_def slotExpired_def)
  next
    case (Cons t' ts')
    then have "\<not> slotExpired oor tmo mx t s" using Cons.prems by (simp add: slotExpired_def)
    then have "slotAfter oor tmo mx t s = s\<lparr>sl_retries := sl_retries s + 1, sl_sendTime := t\<rparr>"
      using due by (simp add: slotAfter_def)
    with Cons.IH [of "slotAfter oor tmo mx t s"] Cons.prems Cons show ?thesis by simp
  qed
qed

section \<open>Properties\<close>

text \<open>
  C7: Whatever the order in which the broker's goroutines enter the critical sections (claims,
  releases by acknowledgement, time-out scans, replay scans), the ring stays consistent: each slot is
  either in flight or on the free stack exactly once, dead slots are never active, and slots in
  flight and free slots always add up to the capacity, so no slot is leaked or handed out twice.
\<close>

theorem ring_reachable_ok:
  "ring_ok (foldl ring_step (newRing n) evs) \<and>
   size (inflight (foldl ring_step (newRing n) evs)) + length (freeIdx (foldl ring_step (newRing n) evs)) = n"
proof -
  let ?r = "foldl ring_step (newRing n) evs"
  have ok: "ring_ok ?r" by (rule ring_sys.run_inv) (rule ring_ok_new)
  have "length (ring (foldl ring_step r evs)) = length (ring r)" for r
    by (induction evs arbitrary: r) simp_all
  with ring_capacity [OF ok] ok show ?thesis by (simp add: newRing_def)
qed

text \<open>
  C16: One time-out scan does exactly what its two loops intend: with the invariant, the messages no
  longer in flight are those that were due with no retries left, their identifiers are reported dead
  in ring order, and the fragments resent are those of the messages that were due and have a retry
  left; everything else is untouched.
\<close>

theorem timeout_scan_correct:
  assumes "ring_ok r" and "timeoutScan oor ackTimeout maxRetries now r = (r', toSend, toDead)"
  shows "ring_ok r' \<and>
    ring r' = map (slotAfter oor ackTimeout maxRetries now) (ring r) \<and>
    inflight r = inflight r' + mset (map (\<lambda>s. (sl_msgID s, sl_frags s))
      (filter (slotExpired oor ackTimeout maxRetries now) (ring r))) \<and>
    toDead = map sl_msgID (filter (slotExpired oor ackTimeout maxRetries now) (ring r)) \<and>
    toSend = map sl_frags (filter (\<lambda>s. slotDue oor ackTimeout now s \<and> sl_retries s < maxRetries) (ring r))"
proof -
  have "(\<lambda>s. slotDue oor ackTimeout now s \<and> \<not> slotExpired oor ackTimeout maxRetries now s) =
      (\<lambda>s. slotDue oor ackTimeout now s \<and> sl_retries s < maxRetries)"
    by (auto simp: slotExpired_def fun_eq_iff)
  with timeoutScan_ok [OF assms] timeoutScan_parts [OF assms(2)] show ?thesis by simp
qed

theorem timeout_scan_correct_witness:
  "\<exists>r' toSend toDead.
     timeoutScan 0 (10 ^ 9) 5 (2 * 10 ^ 9) (ring_step (newRing 2) (RClaim 0 7 [])) = (r', toSend, toDead) \<and>
     ring_ok r' \<and> toDead = [] \<and> toSend = [[]]"
proof -
  let ?r = "ring_step (newRing 2) (RClaim 0 7 [])"
  obtain r' toSend toDead where sc: "timeoutScan 0 (10 ^ 9) 5 (2 * 10 ^ 9) ?r = (r', toSend, toDead)"
    by (metis prod_cases3)
  have ok: "ring_ok ?r" by (intro ring_step_ok ring_ok_new)
  have "ring ?r = [zero_slot, \<lparr>sl_msgID = 7, sl_frags = [], sl_sendTime = 0, sl_retries = 0, sl_dead = False, sl_active = True\<rparr>]"
    by (simp add: newRing_def claimSlot_def numeral_2_eq_2)
  with timeout_scan_correct [OF ok sc] sc show ?thesis
    by (simp add: slotExpired_def slotDue_def zero_slot_def backoffDuration_def float64_of_small Let_def backoffCap_def)
qed



text \<open>
  The back-off before a retry is the acknowledgement time-out doubled for each retry, capped at 30
  seconds, as long as the doubled value fits a 64-bit duration; beyond that the converted value is
  implementation-specific, and on a machine that yields the smallest integer the message is due at
  once. The default time-out reaches that range at the 29th retry.
\<close>

theorem backoff_schedule:
  assumes "0 < base" and "base < 2 ^ 53"
  shows "backoffDuration oor retries base =
      (if base * 2 ^ retries < 2 ^ 63 then min (base * 2 ^ retries) (30 * 10 ^ 9) else min oor (30 * 10 ^ 9)) \<and>
    backoffDuration (- (2 ^ 63)) 29 (30 * 10 ^ 9) = - (2 ^ 63)"
proof
  show "backoffDuration oor retries base =
      (if base * 2 ^ retries < 2 ^ 63 then min (base * 2 ^ retries) (30 * 10 ^ 9) else min oor (30 * 10 ^ 9))"
    using assms by (simp add: backoffDuration_def Let_def float64_of_small backoffCap_def)
  show "backoffDuration (- (2 ^ 63)) 29 (30 * 10 ^ 9) = - (2 ^ 63)"
    by (simp add: backoffDuration_def Let_def float64_of_small backoffCap_def)
qed

theorem backoff_schedule_witness: "backoffDuration 0 3 (10 ^ 9) = 8 * 10 ^ 9"
  using backoff_schedule [of "10 ^ 9" 0 3] by simp

end
