(* ===== verification/Broker.thy ===== *)
theory Broker
  imports Chunker Wal Conn Retry_Ring
begin

text \<open>
  The broker of \<^verbatim>\<open>pkg/broker/broker.go\<close>: \<open>Send\<close>, the dispatch of received messages, the time-out
  check, reconnecting and replay, start-up with recovery from the write-ahead log, and shutdown. Each
  critical section of \<open>mu\<close> is one operation of \<open>Retry_Ring\<close>. Goroutines started to write an
  acknowledgement or a pong are pending tasks that run at any later moment; calls of the
  application's callbacks are recorded in order.
\<close>

section \<open>State\<close>

record InboundMsg =
  im_MsgID :: u64
  im_ContentType :: ContentType
  im_Payload :: bytes

datatype callback =
    OnInbound InboundMsg
  | OnDead u64 error
  | OnAck u64 int
  | OnDisconnected
  | OnReconnected
  | OnReconnectFailed

record Config =
  RetryBuffer :: int
  ACKTimeout :: int
  MaxRetries :: int

text \<open>The libraries the broker calls: the zstd codec, the cipher states, the platform's conversion.\<close>

record 'cs libs =
  zstdEncode :: encoder
  zstdDecode :: decoder
  cipherEncrypt :: "'cs encrypter"
  cipherDecrypt :: "'cs decrypter"
  outOfRange :: int

record 'cs Broker =
  b_cfg :: Config
  b_conn :: "'cs Conn"
  b_assemb :: Assembler
  b_ring :: Ring
  b_wal :: "WAL option"
  b_msgIDCounter :: u64
  b_ackCount :: u64
  b_stop :: bool
  b_tasks :: "Message list"
  b_calls :: "callback list"

definition DefaultRetryBuffer :: int where "DefaultRetryBuffer = 10000"
definition DefaultACKTimeout :: int where "DefaultACKTimeout = 30 * 10 ^ 9"
definition DefaultMaxRetries :: int where "DefaultMaxRetries = 5"

definition call :: "callback \<Rightarrow> 'cs Broker \<Rightarrow> 'cs Broker" where
  "call c b = b\<lparr>b_calls := b_calls b @ [c]\<rparr>"

definition go_write :: "Message \<Rightarrow> 'cs Broker \<Rightarrow> 'cs Broker" where
  "go_write m b = b\<lparr>b_tasks := b_tasks b @ [m]\<rparr>"

section \<open>Slots\<close>

text \<open>
  \<open>enqueue\<close>: with no free slot the caller gets an error if the broker was closed and waits otherwise.
\<close>

datatype 'b enqueueOutcome = Enqueued 'b | EnqueueErr error | EnqueueWaits

definition enqueue :: "int \<Rightarrow> u64 \<Rightarrow> Message list \<Rightarrow> 'cs Broker \<Rightarrow> 'cs Broker enqueueOutcome" where
  "enqueue now msgID frags b =
     (case claimSlot now msgID frags (b_ring b) of
        Some r \<Rightarrow> Enqueued (b\<lparr>b_ring := r\<rparr>)
      | None \<Rightarrow> if b_stop b then EnqueueErr (Errorf ''broker: closed'') else EnqueueWaits)"

type_synonym wal_io = "write_fault \<times> error option"

definition freeSlot :: "wal_io \<Rightarrow> u64 \<Rightarrow> 'cs Broker \<Rightarrow> 'cs Broker \<times> int option" where
  "freeSlot io msgID b =
     (case releaseSlot msgID (b_ring b) of
        (r, None) \<Rightarrow> (b, None)
      | (r, Some st) \<Rightarrow>
          (case b_wal b of
             None \<Rightarrow> (b\<lparr>b_ring := r\<rparr>, Some st)
           | Some w \<Rightarrow>
               (b\<lparr>b_ring := r, b_wal := Some (fst (Ack (fst io) (snd io) msgID w)),
                  b_ackCount := b_ackCount b + 1\<rparr>, Some st)))"

section \<open>Sending\<close>

definition packWALPayload :: "ContentType \<Rightarrow> Priority \<Rightarrow> bytes \<Rightarrow> bytes" where
  "packWALPayload ct priority payload = [ct, priority] @ payload"

definition unpackWALPayload :: "bytes \<Rightarrow> ContentType \<times> Priority \<times> bytes" where
  "unpackWALPayload packed =
     (if length packed < 2 then (ContentText, PriorityNormal, packed)
      else (packed ! 0, packed ! 1, drop 2 packed))"

definition setPriority :: "Priority \<Rightarrow> Message \<Rightarrow> Message" where
  "setPriority priority f = f\<lparr>Hdr := (Hdr f)\<lparr>Priority := priority\<rparr>\<rparr>"

text \<open>\<open>Send\<close>: \<open>None\<close> means that the call is waiting for a free slot.\<close>

definition Send ::
  "'cs libs \<Rightarrow> wal_io \<Rightarrow> wal_io \<Rightarrow> int \<Rightarrow> ContentType \<Rightarrow> Priority \<Rightarrow> bytes \<Rightarrow> 'cs Broker
     \<Rightarrow> 'cs Broker \<times> u64 result option" where
  "Send L ioAppend ioAck now ct priority payload b =
     (let msgID = b_msgIDCounter b + 1; b1 = b\<lparr>b_msgIDCounter := msgID\<rparr> in
      case Split (zstdEncode L) msgID ct payload of
        Inl err \<Rightarrow> (b1, Some (Inl err))
      | Inr frags0 \<Rightarrow>
          let frags = map (setPriority priority) frags0 in
          (case enqueue now msgID frags b1 of
             EnqueueWaits \<Rightarrow> (b1, None)
           | EnqueueErr err \<Rightarrow> (b1, Some (Inl err))
           | Enqueued b2 \<Rightarrow>
               (case (case b_wal b2 of
                        None \<Rightarrow> (b2, None)
                      | Some w \<Rightarrow>
                          (case Append (fst ioAppend) (snd ioAppend) msgID
                                  (packWALPayload ct priority payload) w of
                             (w', e) \<Rightarrow> (b2\<lparr>b_wal := Some w'\<rparr>, e))) of
                  (b3, Some err) \<Rightarrow> (fst (freeSlot ioAck msgID b3), Some (Inl err))
                | (b3, None) \<Rightarrow>
                    (case WriteMsgs (cipherEncrypt L) frags (b_conn b3) of
                       (c, Some err) \<Rightarrow>
                         (fst (freeSlot ioAck msgID (b3\<lparr>b_conn := c\<rparr>)), Some (Inl err))
                     | (c, None) \<Rightarrow> (b3\<lparr>b_conn := c\<rparr>, Some (Inr msgID))))))"

text \<open>Writes whose errors are ignored.\<close>

definition writeAll :: "'cs libs \<Rightarrow> Message list \<Rightarrow> 'cs Broker \<Rightarrow> 'cs Broker" where
  "writeAll L ms b = b\<lparr>b_conn := foldl (\<lambda>c m. fst (WriteMsg (cipherEncrypt L) m c)) (b_conn b) ms\<rparr>"

text \<open>One pending goroutine runs.\<close>

definition runTask :: "'cs libs \<Rightarrow> nat \<Rightarrow> 'cs Broker \<Rightarrow> 'cs Broker" where
  "runTask L i b =
     (if i < length (b_tasks b)
      then writeAll L [b_tasks b ! i] (b\<lparr>b_tasks := take i (b_tasks b) @ drop (Suc i) (b_tasks b)\<rparr>)
      else b)"

section \<open>Receiving\<close>

text \<open>\<open>None\<close> is a panic in the assembler.\<close>

definition dispatch :: "'cs libs \<Rightarrow> wal_io \<Rightarrow> int \<Rightarrow> Message \<Rightarrow> 'cs Broker \<Rightarrow> 'cs Broker option" where
  "dispatch L ioAck now msg b =
     (let h = Hdr msg in
      if MsgType h = MsgACK then
        (case freeSlot ioAck (MsgID h) b of
           (b', Some st) \<Rightarrow> Some (call (OnAck (MsgID h) (now - st)) b')
         | (b', None) \<Rightarrow> Some b')
      else if MsgType h = MsgNACK then
        Some (call (OnDead (MsgID h) (Errorf ''broker: NACK received'')) (fst (freeSlot ioAck (MsgID h) b)))
      else if MsgType h = MsgData then
        (case Add (zstdDecode L) now (b_assemb b) msg of
           (a, AddPanic) \<Rightarrow> None
         | (a, AddErr e) \<Rightarrow> Some (b\<lparr>b_assemb := a\<rparr>)
         | (a, AddPending) \<Rightarrow> Some (b\<lparr>b_assemb := a\<rparr>)
         | (a, AddDone payload) \<Rightarrow>
             Some (go_write \<lparr>Hdr = zero_Header\<lparr>MsgID := MsgID h, MsgType := MsgACK\<rparr>, Payload = []\<rparr>
               (call (OnInbound \<lparr>im_MsgID = MsgID h, im_ContentType = ContentType h, im_Payload = payload\<rparr>)
                 (b\<lparr>b_assemb := a\<rparr>))))
      else if MsgType h = MsgPing then
        Some (go_write \<lparr>Hdr = zero_Header\<lparr>MsgID := MsgID h, MsgType := MsgPong\<rparr>, Payload = []\<rparr> b)
      else Some b)"

definition isConnError :: "error \<Rightarrow> bool" where
  "isConnError err \<longleftrightarrow> errors_is err IoEOF \<or> errors_is err NetErrClosed \<or> errors_as_net err"

text \<open>\<open>replayUnacked\<close> and the time-out check: the critical section, then the writes outside it.\<close>

definition replayUnacked :: "'cs libs \<Rightarrow> int \<Rightarrow> 'cs Broker \<Rightarrow> 'cs Broker" where
  "replayUnacked L now b =
     (case replayScan now (b_ring b) of
        (r, toReplay) \<Rightarrow> writeAll L (concat toReplay) (b\<lparr>b_ring := r\<rparr>))"

definition checkTimeouts :: "'cs libs \<Rightarrow> int \<Rightarrow> 'cs Broker \<Rightarrow> 'cs Broker" where
  "checkTimeouts L now b =
     (case timeoutScan (outOfRange L) (ACKTimeout (b_cfg b)) (nat (MaxRetries (b_cfg b))) now (b_ring b) of
        (r, toSend, toDead) \<Rightarrow>
          foldl (\<lambda>b i. call (OnDead i (Errorf ''broker: max retries exhausted'')) b)
            (writeAll L (concat toSend) (b\<lparr>b_ring := r\<rparr>)) toDead)"

text \<open>The interval of the ticker that drives \<open>checkTimeouts\<close>.\<close>

definition retryInterval :: "int \<Rightarrow> int" where
  "retryInterval ackTimeout =
     (let interval = ackTimeout div 4;
          interval = (if interval < 100 * 10 ^ 6 then 100 * 10 ^ 6 else interval)
      in if interval > 10 ^ 9 then 10 ^ 9 else interval)"

text \<open>
  \<open>handleReconnect\<close>: for each delay the environment either closes the broker during the wait or lets
  the dial happen.
\<close>

datatype attempt = StoppedWaiting | Dials "link result"

fun handleReconnect ::
  "'cs libs \<Rightarrow> int \<Rightarrow> (link \<Rightarrow> 'cs Session result) option \<Rightarrow> attempt list \<Rightarrow> 'cs Broker \<Rightarrow> 'cs Broker \<times> bool" where
  "handleReconnect L now hs [] b = (b, False)"
| "handleReconnect L now hs (StoppedWaiting # as) b = (b\<lparr>b_stop := True\<rparr>, False)"
| "handleReconnect L now hs (Dials d # as) b =
     (if b_stop b then (b, False)
      else case Reconnect d hs (b_conn b) of
             (c, None) \<Rightarrow> (replayUnacked L now (b\<lparr>b_conn := c\<rparr>), True)
           | (c, Some e) \<Rightarrow> handleReconnect L now hs as (b\<lparr>b_conn := c\<rparr>))"

datatype 'b loopOutcome = Continue 'b | Return 'b | Panic

text \<open>
  What the environment contributes to one turn of \<open>readLoop\<close>: the outcome of the log write an
  acknowledgement causes, the clock, whether \<open>Close\<close> closed the stop channel while the read was
  blocked, and the reconnect attempts.
\<close>

record turn =
  t_ioAck :: wal_io
  t_now :: int
  t_stopped :: bool
  t_attempts :: "attempt list"

definition readLoopTurn ::
  "'cs libs \<Rightarrow> (link \<Rightarrow> 'cs Session result) option \<Rightarrow> turn \<Rightarrow> 'cs Broker \<Rightarrow> 'cs Broker loopOutcome" where
  "readLoopTurn L hs t b =
     (if b_stop b then Return b
      else case ReadMsg (cipherDecrypt L) (b_conn b) of
             (c, Inr msg) \<Rightarrow>
               (case dispatch L (t_ioAck t) (t_now t) msg (b\<lparr>b_conn := c, b_stop := t_stopped t\<rparr>) of
                  None \<Rightarrow> Panic
                | Some b' \<Rightarrow> Continue b')
           | (c, Inl err) \<Rightarrow>
               let b1 = b\<lparr>b_conn := c, b_stop := t_stopped t\<rparr> in
               if b_stop b1 then Return b1
               else if isConnError err
               then (case handleReconnect L (t_now t) hs (t_attempts t) (call OnDisconnected b1) of
                       (b2, True) \<Rightarrow> Continue (call OnReconnected b2)
                     | (b2, False) \<Rightarrow>
                         if b_stop b2 then Return b2 else Return (call OnReconnectFailed b2))
               else Continue b1)"

text \<open>\<open>readLoop\<close> over a given number of turns.\<close>

fun readLoop ::
  "'cs libs \<Rightarrow> (link \<Rightarrow> 'cs Session result) option \<Rightarrow> turn list \<Rightarrow> 'cs Broker \<Rightarrow> 'cs Broker loopOutcome" where
  "readLoop L hs [] b = Continue b"
| "readLoop L hs (t # turns) b =
     (case readLoopTurn L hs t b of
        Continue b' \<Rightarrow> readLoop L hs turns b'
      | Return b' \<Rightarrow> Return b'
      | Panic \<Rightarrow> Panic)"

section \<open>Start-up and shutdown\<close>

text \<open>
  One turn of the loop of \<open>replayWAL\<close>, and the loop; \<open>None\<close> when \<open>enqueue\<close> waits, which in \<open>New\<close>
  is forever because no goroutine that frees slots runs yet.
\<close>

definition replayEntry :: "'cs libs \<Rightarrow> int \<Rightarrow> Entry \<Rightarrow> 'cs Broker \<Rightarrow> 'cs Broker option" where
  "replayEntry L now e b =
     (case unpackWALPayload (e_Payload e) of
        (ct, priority, payload) \<Rightarrow>
          (case Split (zstdEncode L) (e_MsgID e) ct payload of
             Inl err \<Rightarrow> Some b
           | Inr frags0 \<Rightarrow>
               let advance = (\<lambda>b. if e_MsgID e > b_msgIDCounter b then b\<lparr>b_msgIDCounter := e_MsgID e\<rparr> else b) in
               (case enqueue now (e_MsgID e) (map (setPriority priority) frags0) b of
                  EnqueueWaits \<Rightarrow> None
                | EnqueueErr err \<Rightarrow> Some (advance b)
                | Enqueued b' \<Rightarrow> Some (advance b'))))"

fun replayWAL :: "'cs libs \<Rightarrow> int \<Rightarrow> Entry list \<Rightarrow> 'cs Broker \<Rightarrow> 'cs Broker option" where
  "replayWAL L now [] b = Some b"
| "replayWAL L now (e # es) b =
     (case replayEntry L now e b of None \<Rightarrow> None | Some b' \<Rightarrow> replayWAL L now es b')"

definition withDefaults :: "Config \<Rightarrow> Config" where
  "withDefaults cfg =
     cfg\<lparr>RetryBuffer := (if RetryBuffer cfg \<le> 0 then DefaultRetryBuffer else RetryBuffer cfg),
         ACKTimeout := (if ACKTimeout cfg \<le> 0 then DefaultACKTimeout else ACKTimeout cfg),
         MaxRetries := (if MaxRetries cfg \<le> 0 then DefaultMaxRetries else MaxRetries cfg)\<rparr>"

definition NewBroker ::
  "'cs libs \<Rightarrow> int \<Rightarrow> error option \<Rightarrow> error \<Rightarrow> 'cs Conn option \<Rightarrow> WAL option \<Rightarrow> Config
     \<Rightarrow> 'cs Broker result option" where
  "NewBroker L now openErr readErr conn wal cfg0 =
     (case conn of
        None \<Rightarrow> Some (Inl (Errorf ''broker: Conn is required''))
      | Some c \<Rightarrow>
          let cfg = withDefaults cfg0;
              b = \<lparr>b_cfg = cfg, b_conn = c, b_assemb = NewAssembler,
                   b_ring = newRing (nat (RetryBuffer cfg)), b_wal = wal, b_msgIDCounter = 0,
                   b_ackCount = 0, b_stop = False, b_tasks = [], b_calls = []\<rparr>
          in (case wal of
                None \<Rightarrow> Some (Inr b)
              | Some w \<Rightarrow>
                  (case Replay openErr readErr w of
                     Inl err \<Rightarrow> Some (Inl err)
                   | Inr entries \<Rightarrow> map_option Inr (replayWAL L now entries b))))"

text \<open>One tick of \<open>walCompactLoop\<close>.\<close>

definition walCompactTick :: "compactEnv \<Rightarrow> 'cs Broker \<Rightarrow> 'cs Broker" where
  "walCompactTick env b =
     (if b_stop b then b else b\<lparr>b_wal := map_option (\<lambda>w. fst (Compact env w)) (b_wal b)\<rparr>)"

definition CloseBroker :: "'cs libs \<Rightarrow> 'cs Broker \<Rightarrow> 'cs Broker \<times> error option" where
  "CloseBroker L b =
     (case Close (cipherEncrypt L) (b_conn b) of
        (c, e) \<Rightarrow> (b\<lparr>b_stop := True, b_conn := c\<rparr>, e))"

section \<open>Basic facts\<close>

lemma unpack_pack [simp]: "unpackWALPayload (packWALPayload ct pr payload) = (ct, pr, payload)"
  by (simp add: packWALPayload_def unpackWALPayload_def)

lemma length_pack [simp]: "length (packWALPayload ct pr payload) = length payload + 2"
  by (simp add: packWALPayload_def)

lemma call_simps [simp]:
  "b_cfg (call c b) = b_cfg b" "b_conn (call c b) = b_conn b" "b_assemb (call c b) = b_assemb b"
  "b_ring (call c b) = b_ring b" "b_wal (call c b) = b_wal b"
  "b_msgIDCounter (call c b) = b_msgIDCounter b" "b_stop (call c b) = b_stop b"
  "b_tasks (call c b) = b_tasks b" "b_calls (call c b) = b_calls b @ [c]"
  by (simp_all add: call_def)

lemma go_write_simps [simp]:
  "b_cfg (go_write m b) = b_cfg b" "b_conn (go_write m b) = b_conn b" "b_assemb (go_write m b) = b_assemb b"
  "b_ring (go_write m b) = b_ring b" "b_wal (go_write m b) = b_wal b"
  "b_msgIDCounter (go_write m b) = b_msgIDCounter b" "b_stop (go_write m b) = b_stop b"
  "b_tasks (go_write m b) = b_tasks b @ [m]" "b_calls (go_write m b) = b_calls b"
  by (simp_all add: go_write_def)

lemma writeAll_simps [simp]:
  "b_cfg (writeAll L ms b) = b_cfg b" "b_assemb (writeAll L ms b) = b_assemb b"
  "b_ring (writeAll L ms b) = b_ring b" "b_wal (writeAll L ms b) = b_wal b"
  "b_msgIDCounter (writeAll L ms b) = b_msgIDCounter b" "b_stop (writeAll L ms b) = b_stop b"
  "b_tasks (writeAll L ms b) = b_tasks b" "b_calls (writeAll L ms b) = b_calls b"
  by (simp_all add: writeAll_def)

lemma freeSlot_simps [simp]:
  "b_cfg (fst (freeSlot io i b)) = b_cfg b" "b_conn (fst (freeSlot io i b)) = b_conn b"
  "b_assemb (fst (freeSlot io i b)) = b_assemb b"
  "b_msgIDCounter (fst (freeSlot io i b)) = b_msgIDCounter b" "b_stop (fst (freeSlot io i b)) = b_stop b"
  "b_tasks (fst (freeSlot io i b)) = b_tasks b" "b_calls (fst (freeSlot io i b)) = b_calls b"
  by (simp_all add: freeSlot_def split: prod.splits option.splits)

lemma freeSlot_ring [simp]: "b_ring (fst (freeSlot io i b)) = fst (releaseSlot i (b_ring b))"
  by (auto simp: freeSlot_def releaseSlot_def split: option.splits)

lemma freeSlot_wal:
  "b_wal (fst (freeSlot io i b)) =
     (if snd (releaseSlot i (b_ring b)) = None then b_wal b
      else map_option (\<lambda>w. fst (Ack (fst io) (snd io) i w)) (b_wal b))"
  by (simp add: freeSlot_def split: prod.splits option.splits)

lemma snd_freeSlot: "snd (freeSlot io i b) = snd (releaseSlot i (b_ring b))"
  by (simp add: freeSlot_def split: prod.splits option.splits)

text \<open>The writes of a broker whose connection is plain and working.\<close>

lemma writeAll_plain:
  "plain_up (b_conn b) \<Longrightarrow> plain_up (b_conn (writeAll L ms b)) \<and>
   wire (b_conn (writeAll L ms b)) = wire (b_conn b) @ concat (map msgBytes ms)"
proof (induction ms arbitrary: b)
  case Nil
  then show ?case by (simp add: writeAll_def del: plain_up.simps wire.simps)
next
  case (Cons m ms)
  obtain c where "WriteMsg (cipherEncrypt L) m (b_conn b) = (c, None)" "plain_up c"
    "wire c = wire (b_conn b) @ msgBytes m"
    using WriteMsg_plain [OF Cons.prems] by blast
  with Cons.IH [of "b\<lparr>b_conn := c\<rparr>"] show ?case
    by (simp add: writeAll_def del: plain_up.simps wire.simps)
qed

end
