(* ===== verification/Delivery.thy ===== *)
theory Delivery
  imports Broker
begin

text \<open>
  Delivery through the broker: what one \<open>Send\<close> puts on a plain connection makes the peer's \<open>readLoop\<close>
  call \<open>OnInbound\<close> exactly once with the payload and acknowledge it; the acknowledgement ends the
  message at the sender; a reconnect resends what is unacknowledged.
\<close>

section \<open>Fragments on the wire\<close>

lemma setPriority_simps [simp]:
  "Payload (setPriority pr f) = Payload f" "MsgID (Hdr (setPriority pr f)) = MsgID (Hdr f)"
  "MsgType (Hdr (setPriority pr f)) = MsgType (Hdr f)" "ContentType (Hdr (setPriority pr f)) = ContentType (Hdr f)"
  by (simp_all add: setPriority_def)

lemma Split_header:
  assumes "Split E mid ct payload = Inr fs" "f \<in> set fs"
  shows "MsgID (Hdr f) = mid \<and> MsgType (Hdr f) = MsgData \<and> ContentType (Hdr f) = ct \<and>
    PayloadLen (Hdr f) = word_of_nat (length (Payload f)) \<and> length (Payload f) \<le> ChunkSize"
proof -
  obtain data co where "Compress E payload = Inr (data, co)" using Compress_total by blast
  with assms show ?thesis
    by (auto simp: Split_def mk_fragment_def Let_def split: if_splits intro!: splitBytes_chunk [of _ data])
qed

lemma framedMsg_fragment:
  assumes "Split E mid ct payload = Inr fs" "f \<in> set fs"
  shows "framedMsg (setPriority pr f) = setPriority pr f" and "msg_ok (setPriority pr f)"
  using Split_header [OF assms]
  by (simp_all add: framedMsg_def framedHeader_def setPriority_def msg_ok_def ChunkSize_def MaxPayloadSize_def)

text \<open>All fragments in the order they were sent reassemble at the last one.\<close>

lemma addAll_in_order:
  assumes "zstd_roundtrip E D" and sp: "Split E mid ct payload = Inr fs"
    and "streams a mid = None" "card (dom (streams a)) < maxStreams a"
    and tms: "map snd tms = map (setPriority pr) fs"
  shows "\<exists>a'. addAll D a tms = (a', replicate (length fs - 1) AddPending @ [AddDone payload]) \<and>
    streams a' = streams a \<and> maxStreams a' = maxStreams a"
proof (cases "2 \<le> length fs")
  case True
  then have up: "[0..<length fs] = [0..<length fs - 1] @ [length fs - 1]"
    by (cases "length fs") simp_all
  have fs: "map (setPriority pr) fs = map (\<lambda>i. setPriority pr (fs ! i)) [0..<length fs]"
    by (rule nth_equalityI) simp_all
  have "map snd tms = map (\<lambda>i. (fs ! i)\<lparr>Hdr := (Hdr (fs ! i))\<lparr>Priority := pr\<rparr>\<rparr>) ([0..<length fs - 1] @ [length fs - 1])"
    unfolding tms fs up by (simp add: setPriority_def)
  moreover have "set [0..<length fs - 1] \<union> {length fs - 1} = {..<length fs}" using True by auto
  ultimately show ?thesis
    using addAll_Split [OF assms(1) sp True assms(3,4), of "[0..<length fs - 1]" "length fs - 1" tms pr] by simp
next
  case False
  obtain data co where c: "Compress E payload = Inr (data, co)" "length fs = length (splitBytes data)"
    and car: "\<And>i. i < length fs \<Longrightarrow> carries mid (buildFlags (length fs > 1) co) (splitBytes data) i (fs ! i)"
    using Split_carries [OF sp] by metis
  have "0 < length fs" using c(2) by simp
  then have one: "length fs = 1" using False by linarith
  then have chunk: "splitBytes data = [data]"
    using c(2) concat_splitBytes [of data] by (cases "splitBytes data") (simp_all del: concat_splitBytes)
  obtain t where "tms = [(t, setPriority pr (fs ! 0))]"
    using tms one by (cases fs; cases tms) auto
  moreover have "carries mid (buildFlags (length fs > 1) co) [data] 0 (setPriority pr (fs ! 0))"
    using carries_priority [OF car [of 0], of pr] one chunk by (simp add: setPriority_def)
  then have "Add D t a (setPriority pr (fs ! 0)) = (a, AddDone payload)"
    using Add_single decompress_Compress [OF assms(1) c(1)] by simp
  ultimately show ?thesis using one by simp
qed

section \<open>Receiving\<close>

fun dispatchAll :: "'cs libs \<Rightarrow> (turn \<times> Message) list \<Rightarrow> 'cs Broker \<Rightarrow> 'cs Broker option" where
  "dispatchAll L [] b = Some b"
| "dispatchAll L ((t, m) # tms) b =
     (case dispatch L (t_ioAck t) (t_now t) m b of None \<Rightarrow> None | Some b' \<Rightarrow> dispatchAll L tms b')"

lemma dispatch_ack:
  "MsgType (Hdr m) = MsgACK \<Longrightarrow>
   dispatch L io now m b =
     Some (case snd (releaseSlot (MsgID (Hdr m)) (b_ring b)) of
             None \<Rightarrow> fst (freeSlot io (MsgID (Hdr m)) b)
           | Some st \<Rightarrow> call (OnAck (MsgID (Hdr m)) (now - st)) (fst (freeSlot io (MsgID (Hdr m)) b)))"
  by (simp add: dispatch_def Let_def snd_freeSlot [of io, symmetric] split: prod.splits option.splits)

text \<open>Dispatching does not touch the connection or the stop flag.\<close>

lemma dispatch_conn:
  "dispatch L io now m b = Some b' \<Longrightarrow> b_conn b' = b_conn b \<and> b_stop b' = b_stop b"
proof (cases "MsgType (Hdr m) = MsgACK")
  case True
  then show "dispatch L io now m b = Some b' \<Longrightarrow> ?thesis" by (auto simp: dispatch_ack split: option.splits)
next
  case False
  then show "dispatch L io now m b = Some b' \<Longrightarrow> ?thesis"
    by (auto simp: dispatch_def Let_def split: if_splits prod.splits AddOutcome.splits)
qed

lemma freeSlot_set_conn: "fst (freeSlot io i (b\<lparr>b_conn := c\<rparr>)) = (fst (freeSlot io i b))\<lparr>b_conn := c\<rparr>"
  by (simp add: freeSlot_def split: prod.splits option.splits)

lemma dispatch_set_conn:
  "dispatch L io now m (b\<lparr>b_conn := c\<rparr>) = map_option (\<lambda>b'. b'\<lparr>b_conn := c\<rparr>) (dispatch L io now m b)"
proof (cases "MsgType (Hdr m) = MsgACK")
  case True
  then show ?thesis by (simp add: dispatch_ack freeSlot_set_conn call_def split: option.splits)
next
  case False
  then show ?thesis
    by (simp add: dispatch_def freeSlot_set_conn call_def go_write_def Let_def
        split: prod.splits AddOutcome.splits)
qed

text \<open>Reading whole messages off a plain connection is dispatching them one after the other.\<close>

lemma readLoop_plain:
  "c_transport (b_conn b) = Plain l \<Longrightarrow> \<not> l_closed l \<Longrightarrow> \<not> b_stop b \<Longrightarrow>
   l_rx l = concat (map msgBytes ms) @ rest \<Longrightarrow> \<forall>m\<in>set ms. msg_ok m \<and> framedMsg m = m \<Longrightarrow>
   length turns = length ms \<Longrightarrow> \<forall>t\<in>set turns. \<not> t_stopped t \<Longrightarrow>
   dispatchAll L (zip turns ms) (b\<lparr>b_conn := (b_conn b)\<lparr>c_transport := Plain (l\<lparr>l_rx := rest\<rparr>)\<rparr>\<rparr>) = Some b' \<Longrightarrow>
   readLoop L hs turns b = Continue b'"
proof (induction ms arbitrary: turns b l)
  case Nil
  have "l\<lparr>l_rx := rest\<rparr> = l" using Nil.prems(4) by auto
  then have "b\<lparr>b_conn := (b_conn b)\<lparr>c_transport := Plain (l\<lparr>l_rx := rest\<rparr>)\<rparr>\<rparr> = b"
    using Nil.prems(1) by (cases b; cases "b_conn b") auto
  moreover have "b\<lparr>b_conn := (b_conn b)\<lparr>c_transport := Plain (l\<lparr>l_rx := rest\<rparr>)\<rparr>\<rparr> = b'" using Nil.prems(8) by simp
  ultimately have "b = b'" by (rule trans [OF sym])
  with Nil.prems(6) show ?case by simp
next
  case (Cons m ms)
  obtain t ts where turns: "turns = t # ts" "length ts = length ms" using Cons.prems(6) by (cases turns) auto
  let ?c = "\<lambda>rx. (b_conn b)\<lparr>c_transport := Plain (l\<lparr>l_rx := rx\<rparr>)\<rparr>"
  let ?rx = "concat (map msgBytes ms) @ rest"
  have stop: "b\<lparr>b_conn := c, b_stop := False\<rparr> = b\<lparr>b_conn := c\<rparr>" for c using Cons.prems(3) by simp
  have rd: "ReadMsg (cipherDecrypt L) (b_conn b) = (?c ?rx, Inr m)"
    using Cons.prems(1,2,4,5) msg_stream.rd_wr [of m ?rx "l_rerr l"] by (simp add: ReadMsg_Plain)
  obtain b1 where b1: "dispatch L (t_ioAck t) (t_now t) m (b\<lparr>b_conn := ?c rest\<rparr>) = Some b1"
    "dispatchAll L (zip ts ms) b1 = Some b'"
    using Cons.prems(8) turns(1) by (auto split: option.splits)
  have d: "dispatch L (t_ioAck t) (t_now t) m (b\<lparr>b_conn := ?c ?rx\<rparr>) = Some (b1\<lparr>b_conn := ?c ?rx\<rparr>)"
    using b1(1) dispatch_set_conn [where L = L and m = m and b = "b\<lparr>b_conn := ?c rest\<rparr>" and c = "?c ?rx"] by simp
  then have d': "dispatch L (t_ioAck t) (t_now t) m (b\<lparr>b_conn := ?c ?rx, b_stop := False\<rparr>) = Some (b1\<lparr>b_conn := ?c ?rx\<rparr>)"
    by (simp only: stop)
  have c1: "b_conn b1 = ?c rest" "b_stop b1 = b_stop b" using dispatch_conn [OF b1(1)] by simp_all
  have "readLoop L hs ts (b1\<lparr>b_conn := ?c ?rx\<rparr>) = Continue b'"
  proof (rule Cons.IH)
    show "dispatchAll L (zip ts ms) (b1\<lparr>b_conn := ?c ?rx\<rparr>\<lparr>b_conn := (b_conn (b1\<lparr>b_conn := ?c ?rx\<rparr>))\<lparr>c_transport :=
        Plain (l\<lparr>l_rx := ?rx\<rparr>\<lparr>l_rx := rest\<rparr>)\<rparr>\<rparr>) = Some b'"
      using b1(2) by (simp add: c1(1) [symmetric])
  qed (use Cons.prems turns c1 in simp_all)
  then show ?case
    using Cons.prems(3,7) rd d' turns(1) by (simp add: readLoopTurn_def)
qed

text \<open>A run of data messages that completes one payload.\<close>

definition ackMsg :: "u64 \<Rightarrow> Message" where
  "ackMsg mid = \<lparr>Hdr = zero_Header\<lparr>MsgID := mid, MsgType := MsgACK\<rparr>, Payload = []\<rparr>"

lemma dispatchAll_data:
  "\<forall>m\<in>set ms. MsgType (Hdr m) = MsgData \<and> MsgID (Hdr m) = mid \<and> ContentType (Hdr m) = ct \<Longrightarrow>
   length turns = length ms \<Longrightarrow>
   addAll (zstdDecode L) (b_assemb b) (zip (map t_now turns) ms) = (a, replicate n AddPending @ [AddDone payload]) \<Longrightarrow>
   dispatchAll L (zip turns ms) b =
     Some (go_write (ackMsg mid)
       (call (OnInbound \<lparr>im_MsgID = mid, im_ContentType = ct, im_Payload = payload\<rparr>) (b\<lparr>b_assemb := a\<rparr>)))"
proof (induction ms arbitrary: turns b n)
  case Nil
  then show ?case by simp
next
  case (Cons m ms)
  obtain t ts where turns: "turns = t # ts" "length ts = length ms" using Cons.prems(2) by (cases turns) auto
  obtain a1 r rs where a1: "Add (zstdDecode L) (t_now t) (b_assemb b) m = (a1, r)"
    "addAll (zstdDecode L) a1 (zip (map t_now ts) ms) = (a, rs)" "r # rs = replicate n AddPending @ [AddDone payload]"
    using Cons.prems(3) turns(1) by (auto split: prod.splits)
  show ?case
  proof (cases n)
    case 0
    then have "ms = []" using a1 turns(2) by (cases ms; cases ts) (auto split: prod.splits)
    then show ?thesis using 0 a1 turns Cons.prems(1) by (simp add: dispatch_def ackMsg_def)
  next
    case (Suc n')
    then have "dispatch L (t_ioAck t) (t_now t) m b = Some (b\<lparr>b_assemb := a1\<rparr>)"
      using a1 Cons.prems(1) by (simp add: dispatch_def)
    moreover have "dispatchAll L (zip ts ms) (b\<lparr>b_assemb := a1\<rparr>) =
       Some (go_write (ackMsg mid)
         (call (OnInbound \<lparr>im_MsgID = mid, im_ContentType = ct, im_Payload = payload\<rparr>)
           (b\<lparr>b_assemb := a1\<rparr>\<lparr>b_assemb := a\<rparr>)))"
      by (rule Cons.IH) (use Cons.prems(1) turns(2) a1(2,3) Suc in simp_all)
    ultimately show ?thesis using turns(1) by simp
  qed
qed

section \<open>Sending\<close>

text \<open>A successful \<open>Send\<close> taken apart.\<close>

lemma Send_okE:
  assumes "Send L ioAppend ioAck now ct pr payload b = (b', Some (Inr mid))"
  obtains fs r c where "mid = b_msgIDCounter b + 1" "Split (zstdEncode L) mid ct payload = Inr fs"
    "claimSlot now mid (map (setPriority pr) fs) (b_ring b) = Some r"
    "WriteMsgs (cipherEncrypt L) (map (setPriority pr) fs) (b_conn b) = (c, None)"
    "b' = b\<lparr>b_msgIDCounter := mid, b_ring := r, b_conn := c,
       b_wal := map_option (\<lambda>w. fst (Append (fst ioAppend) (snd ioAppend) mid (packWALPayload ct pr payload) w)) (b_wal b)\<rparr>"
    "\<And>w. b_wal b = Some w \<Longrightarrow> snd (Append (fst ioAppend) (snd ioAppend) mid (packWALPayload ct pr payload) w) = None"
proof -
  obtain fs where fs: "Split (zstdEncode L) (b_msgIDCounter b + 1) ct payload = Inr fs"
    using assms by (auto simp: Send_def Let_def split: sum.splits)
  obtain r where r: "claimSlot now (b_msgIDCounter b + 1) (map (setPriority pr) fs) (b_ring b) = Some r"
    using assms fs by (auto simp: Send_def enqueue_def Let_def split: option.splits if_splits)
  show ?thesis
  proof (cases "b_wal b")
    case None
    with assms fs r show ?thesis
      by (auto simp: Send_def enqueue_def Let_def split: prod.splits option.splits intro!: that)
  next
    case (Some w)
    with assms fs r show ?thesis
      by (auto simp: Send_def enqueue_def Let_def split: prod.splits option.splits intro!: that)
  qed
qed

lemma Send_wire:
  assumes snd: "Send L ioAppend ioAck now ct pr payload a = (a', Some (Inr mid))" and up: "plain_up (b_conn a)"
  obtains fs where "Split (zstdEncode L) mid ct payload = Inr fs" "plain_up (b_conn a')"
    "wire (b_conn a') = wire (b_conn a) @ concat (map msgBytes (map (setPriority pr) fs))"
proof -
  obtain fs r c where fs: "Split (zstdEncode L) mid ct payload = Inr fs"
    and w: "WriteMsgs (cipherEncrypt L) (map (setPriority pr) fs) (b_conn a) = (c, None)"
    and a': "b_conn a' = c" by (rule Send_okE [OF snd]) auto
  then show ?thesis
    using that [OF fs] WriteMsgs_plain [OF up, of "cipherEncrypt L" "map (setPriority pr) fs"]
    by (simp del: plain_up.simps wire.simps)
qed

lemma fragments_received:
  assumes "zstd_roundtrip E (zstdDecode M)" and fs: "Split E mid ct payload = Inr fs"
    and asm: "streams (b_assemb b) mid = None" "card (dom (streams (b_assemb b))) < maxStreams (b_assemb b)"
    and stop: "\<not> b_stop b"
    and l: "c_transport (b_conn b) = Plain l" "\<not> l_closed l" "l_rx l = concat (map msgBytes (map (setPriority pr) fs)) @ rest"
    and t: "length turns = length fs" "\<forall>t\<in>set turns. \<not> t_stopped t"
  shows "\<exists>asmb. streams asmb = streams (b_assemb b) \<and> maxStreams asmb = maxStreams (b_assemb b) \<and>
         readLoop M hs turns b = Continue (b\<lparr>
           b_conn := (b_conn b)\<lparr>c_transport := Plain (l\<lparr>l_rx := rest\<rparr>)\<rparr>,
           b_assemb := asmb,
           b_calls := b_calls b @ [OnInbound \<lparr>im_MsgID = mid, im_ContentType = ct, im_Payload = payload\<rparr>],
           b_tasks := b_tasks b @ [ackMsg mid]\<rparr>)"
proof -
  let ?ms = "map (setPriority pr) fs"
  have hdr: "\<forall>m\<in>set ?ms. MsgType (Hdr m) = MsgData \<and> MsgID (Hdr m) = mid \<and> ContentType (Hdr m) = ct"
    using Split_header [OF fs] by auto
  have ok: "\<forall>m\<in>set ?ms. msg_ok m \<and> framedMsg m = m" using framedMsg_fragment [OF fs] by auto
  have t1: "length turns = length ?ms" using t(1) by simp
  let ?b = "b\<lparr>b_conn := (b_conn b)\<lparr>c_transport := Plain (l\<lparr>l_rx := rest\<rparr>)\<rparr>\<rparr>"
  have "map snd (zip (map t_now turns) ?ms) = ?ms" using t(1) by (simp add: map_snd_zip)
  then obtain asmb where asmb: "addAll (zstdDecode M) (b_assemb ?b) (zip (map t_now turns) ?ms) =
      (asmb, replicate (length fs - 1) AddPending @ [AddDone payload])"
    "streams asmb = streams (b_assemb b)" "maxStreams asmb = maxStreams (b_assemb b)"
    using addAll_in_order [OF assms(1) fs asm] by force
  note dispatchAll_data [OF hdr t1 asmb(1)]
  then have "readLoop M hs turns b = Continue (go_write (ackMsg mid)
     (call (OnInbound \<lparr>im_MsgID = mid, im_ContentType = ct, im_Payload = payload\<rparr>) (?b\<lparr>b_assemb := asmb\<rparr>)))"
    by (rule readLoop_plain [OF l(1,2) stop l(3) ok t1 t(2)])
  with asmb(2,3) show ?thesis by (auto simp: call_def go_write_def)
qed

lemma Send_received:
  assumes "zstd_roundtrip (zstdEncode L) (zstdDecode M)"
    and snd: "Send L ioAppend ioAck now ct pr payload a = (a', Some (Inr mid))" and up: "plain_up (b_conn a)"
    and asm: "streams (b_assemb b) mid = None" "card (dom (streams (b_assemb b))) < maxStreams (b_assemb b)"
    and stop: "\<not> b_stop b"
  shows "\<exists>n sent. wire (b_conn a') = wire (b_conn a) @ sent \<and>
    (\<forall>l rest turns. c_transport (b_conn b) = Plain l \<longrightarrow> \<not> l_closed l \<longrightarrow> l_rx l = sent @ rest \<longrightarrow>
       length turns = n \<longrightarrow> (\<forall>t\<in>set turns. \<not> t_stopped t) \<longrightarrow>
       (\<exists>asmb. streams asmb = streams (b_assemb b) \<and> maxStreams asmb = maxStreams (b_assemb b) \<and>
         readLoop M hs turns b = Continue (b\<lparr>
           b_conn := (b_conn b)\<lparr>c_transport := Plain (l\<lparr>l_rx := rest\<rparr>)\<rparr>,
           b_assemb := asmb,
           b_calls := b_calls b @ [OnInbound \<lparr>im_MsgID = mid, im_ContentType = ct, im_Payload = payload\<rparr>],
           b_tasks := b_tasks b @ [ackMsg mid]\<rparr>)))"
proof -
  obtain fs where fs: "Split (zstdEncode L) mid ct payload = Inr fs"
    "wire (b_conn a') = wire (b_conn a) @ concat (map msgBytes (map (setPriority pr) fs))"
    using Send_wire [OF snd up] by blast
  note fragments_received [OF assms(1) fs(1) asm stop, of _ pr _ _ hs]
  then show ?thesis using fs(2) by blast
qed

text \<open>Claiming a fresh identifier and releasing it again.\<close>

lemma findSlot_claimed:
  assumes "i < length ss" "\<not> sl_active (ss ! i)" "\<forall>s\<in>set ss. sl_active s \<longrightarrow> sl_msgID s \<noteq> mid"
    and "sl_active s" "sl_msgID s = mid"
  shows "findSlot mid (ss[i := s]) = Some i"
  using assms
proof (induction ss arbitrary: i)
  case Nil
  then show ?case by simp
next
  case (Cons x xs)
  then show ?case by (cases i) auto
qed

lemma release_claimed:
  assumes "ring_ok r" "claimSlot now mid frags r = Some r'" "\<And>fr. (mid, fr) \<notin># inflight r"
  shows "\<exists>r''. releaseSlot mid r' = (r'', Some now) \<and> ring_ok r'' \<and> inflight r'' = inflight r"
proof -
  let ?i = "last (freeIdx r)"
  have ne: "freeIdx r \<noteq> []" using assms(2) by (auto simp: claimSlot_def)
  then have i: "?i < length (ring r)" "\<not> sl_active (ring r ! ?i)" using ring_okD [OF assms(1)] by auto
  have fresh: "\<forall>s\<in>set (ring r). sl_active s \<longrightarrow> sl_msgID s \<noteq> mid" using assms(3) by (auto simp: inflight_def)
  obtain r'' t where r'': "releaseSlot mid r' = (r'', Some t)" "ring_ok r''" "inflight r'' = inflight r"
    using ring_pool.del_put [OF assms] by blast
  have "t = now"
    using r''(1) assms(2) ne i findSlot_claimed [OF i fresh]
    by (auto simp: claimSlot_def releaseSlot_def Let_def split: option.splits)
  with r'' show ?thesis by blast
qed

text \<open>\<open>Send\<close> does succeed when there is a free slot, a working connection and a working log.\<close>

lemma Send_succeeds:
  assumes "freeIdx (b_ring b) \<noteq> []" "plain_up (b_conn b)" "case b_wal b of None \<Rightarrow> True | Some w \<Rightarrow> wal_inv w"
    and "Split (zstdEncode L) (b_msgIDCounter b + 1) ct payload = Inr fs" "length payload + 2 < 2 ^ 32"
  shows "\<exists>b'. Send L (None, None) ioAck now ct pr payload b = (b', Some (Inr (b_msgIDCounter b + 1)))"
proof -
  obtain c where c: "WriteMsgs (cipherEncrypt L) (map (setPriority pr) fs) (b_conn b) = (c, None)"
    using WriteMsgs_plain [OF assms(2)] by blast
  show ?thesis
  proof (cases "b_wal b")
    case None
    then show ?thesis using assms(1,4) c by (simp add: Send_def enqueue_def claimSlot_def Let_def)
  next
    case (Some w)
    then show ?thesis
      using assms(1,3,4,5) c writeRecord_ok(1) [of w "packWALPayload ct pr payload" OpSend "b_msgIDCounter b + 1"]
      by (simp add: Send_def enqueue_def claimSlot_def Append_def Let_def)
  qed
qed

text \<open>A broker with two free slots on a fresh plain connection, for examples.\<close>

definition exampleLibs :: "unit libs" where
  "exampleLibs = \<lparr>zstdEncode = (\<lambda>x. x), zstdDecode = Inr, cipherEncrypt = (\<lambda>k p. (k, Inr p)),
     cipherDecrypt = (\<lambda>k c. (k, Inr c)), outOfRange = 0\<rparr>"

definition exampleBroker :: "bytes \<Rightarrow> WAL option \<Rightarrow> unit Broker" where
  "exampleBroker rx wal =
     \<lparr>b_cfg = \<lparr>RetryBuffer = 2, ACKTimeout = 10 ^ 9, MaxRetries = 5\<rparr>, b_conn = plainConn (new_link rx IoEOF),
      b_assemb = NewAssembler, b_ring = newRing 2, b_wal = wal, b_msgIDCounter = 0, b_ackCount = 0,
      b_stop = False, b_tasks = [], b_calls = []\<rparr>"

lemma exampleBroker_fields [simp]:
  "b_ring (exampleBroker rx wal) = newRing 2" "b_wal (exampleBroker rx wal) = wal"
  "b_conn (exampleBroker rx wal) = plainConn (new_link rx IoEOF)"
  "b_assemb (exampleBroker rx wal) = NewAssembler" "b_msgIDCounter (exampleBroker rx wal) = 0"
  "\<not> b_stop (exampleBroker rx wal)" "b_calls (exampleBroker rx wal) = []"
  by (simp_all add: exampleBroker_def)

lemma plain_up_example: "plain_up (plainConn (new_link rx IoEOF))"
  by (simp add: plainConn_def)

lemma example_send:
  assumes "case wal of None \<Rightarrow> True | Some w \<Rightarrow> wal_inv w"
  shows "\<exists>a'. Send exampleLibs (None, None) (None, None) 5 ContentText PriorityHigh [1, 2, 3] (exampleBroker rx wal)
    = (a', Some (Inr 1))"
proof -
  obtain fs where "Split (zstdEncode exampleLibs) (0 + 1) ContentText [1, 2, 3] = Inr fs"
    by (simp add: Split_def Compress_def ThresholdBytes_def splitBytes_def splitLoop_step ChunkSize_def)
  then show ?thesis
    using Send_succeeds [of "exampleBroker rx wal" exampleLibs ContentText "[1, 2, 3]" fs "(None, None)" 5 PriorityHigh]
      assms plain_up_example [of rx]
    by (simp add: newRing_def del: plain_up.simps)
qed

section \<open>Properties\<close>

text \<open>
  C1: One send, one delivery. If \<open>Send\<close> returns an identifier on a working plain connection, then the
  bytes it has put on the connection (or in its write buffer) make the receiving broker's read loop
  call \<open>OnInbound\<close> exactly once, with that identifier, content type and payload, queue exactly one
  acknowledgement for it, keep its other reassembly streams, and consume exactly those bytes,
  whatever the payload size, compression, fragmentation and priority. (Relies on the zstd library
  restoring what it compressed.)
\<close>

theorem send_delivered_once:
  assumes "zstd_roundtrip (zstdEncode L) (zstdDecode M)"
    and "Send L ioAppend ioAck now ct pr payload a = (a', Some (Inr mid))" and "plain_up (b_conn a)"
    and "streams (b_assemb b) mid = None" and "card (dom (streams (b_assemb b))) < maxStreams (b_assemb b)"
    and "\<not> b_stop b"
  shows "\<exists>n sent. wire (b_conn a') = wire (b_conn a) @ sent \<and>
    (\<forall>l rest turns. c_transport (b_conn b) = Plain l \<longrightarrow> \<not> l_closed l \<longrightarrow> l_rx l = sent @ rest \<longrightarrow>
       length turns = n \<longrightarrow> (\<forall>t\<in>set turns. \<not> t_stopped t) \<longrightarrow>
       (\<exists>asmb. streams asmb = streams (b_assemb b) \<and> maxStreams asmb = maxStreams (b_assemb b) \<and>
         readLoop M hs turns b = Continue (b\<lparr>
           b_conn := (b_conn b)\<lparr>c_transport := Plain (l\<lparr>l_rx := rest\<rparr>)\<rparr>,
           b_assemb := asmb,
           b_calls := b_calls b @ [OnInbound \<lparr>im_MsgID = mid, im_ContentType = ct, im_Payload = payload\<rparr>],
           b_tasks := b_tasks b @ [ackMsg mid]\<rparr>)))"
  using assms by (rule Send_received)

theorem send_delivered_once_witness:
  "\<exists>a' n sent. Send exampleLibs (None, None) (None, None) 5 ContentText PriorityHigh [1, 2, 3]
      (exampleBroker [] None) = (a', Some (Inr 1)) \<and> wire (b_conn a') = sent \<and>
    (\<forall>turns. length turns = n \<longrightarrow> (\<forall>t\<in>set turns. \<not> t_stopped t) \<longrightarrow>
      (\<exists>b'. readLoop exampleLibs None turns (exampleBroker sent None) = Continue b' \<and>
        b_calls b' = [OnInbound \<lparr>im_MsgID = 1, im_ContentType = ContentText, im_Payload = [1, 2, 3]\<rparr>]))"
proof -
  obtain a' where a': "Send exampleLibs (None, None) (None, None) 5 ContentText PriorityHigh [1, 2, 3]
      (exampleBroker [] None) = (a', Some (Inr 1))"
    using example_send [of None] by auto
  have z: "zstd_roundtrip (zstdEncode exampleLibs) (zstdDecode exampleLibs)"
    by (simp add: zstd_roundtrip_def exampleLibs_def)
  define B where "B = exampleBroker (wire (b_conn a')) None"
  have B: "c_transport (b_conn B) = Plain (new_link (wire (b_conn a')) IoEOF)" "b_calls B = []"
    by (simp_all add: B_def del: wire.simps)
  have "\<exists>n sent. wire (b_conn a') = wire (b_conn (exampleBroker [] None)) @ sent \<and>
    (\<forall>l rest turns. c_transport (b_conn B) = Plain l \<longrightarrow> \<not> l_closed l \<longrightarrow> l_rx l = sent @ rest \<longrightarrow>
       length turns = n \<longrightarrow> (\<forall>t\<in>set turns. \<not> t_stopped t) \<longrightarrow>
       (\<exists>asmb. streams asmb = streams (b_assemb B) \<and> maxStreams asmb = maxStreams (b_assemb B) \<and>
         readLoop exampleLibs None turns B = Continue (B\<lparr>
           b_conn := (b_conn B)\<lparr>c_transport := Plain (l\<lparr>l_rx := rest\<rparr>)\<rparr>, b_assemb := asmb,
           b_calls := b_calls B @ [OnInbound \<lparr>im_MsgID = 1, im_ContentType = ContentText, im_Payload = [1, 2, 3]\<rparr>],
           b_tasks := b_tasks B @ [ackMsg 1]\<rparr>)))"
    by (rule send_delivered_once [OF z a'])
      (simp_all add: B_def plain_up_example NewAssembler_def DefaultMaxStreams_def del: plain_up.simps wire.simps)
  then obtain n sent where n: "wire (b_conn a') = wire (b_conn (exampleBroker [] None)) @ sent"
    "\<And>l turns. c_transport (b_conn B) = Plain l \<Longrightarrow> \<not> l_closed l \<Longrightarrow> l_rx l = sent @ [] \<Longrightarrow>
      length turns = n \<Longrightarrow> \<forall>t\<in>set turns. \<not> t_stopped t \<Longrightarrow>
      \<exists>asmb. readLoop exampleLibs None turns B = Continue (B\<lparr>
           b_conn := (b_conn B)\<lparr>c_transport := Plain (l\<lparr>l_rx := []\<rparr>)\<rparr>, b_assemb := asmb,
           b_calls := b_calls B @ [OnInbound \<lparr>im_MsgID = 1, im_ContentType = ContentText, im_Payload = [1, 2, 3]\<rparr>],
           b_tasks := b_tasks B @ [ackMsg 1]\<rparr>)"
    by blast
  have w: "wire (b_conn a') = sent" using n(1) by (simp add: plainConn_def)
  have "\<exists>b'. readLoop exampleLibs None turns B = Continue b' \<and>
        b_calls b' = [OnInbound \<lparr>im_MsgID = 1, im_ContentType = ContentText, im_Payload = [1, 2, 3]\<rparr>]"
    if "length turns = n" "\<forall>t\<in>set turns. \<not> t_stopped t" for turns
    using n(2) [OF B(1) _ _ that] w B(2) by auto
  with a' w show ?thesis unfolding B_def by blast
qed

text \<open>
  The acknowledgement ends a send. After a successful \<open>Send\<close> the message is in flight with its
  fragments and, if there is a write-ahead log, pending there; dispatching its acknowledgement then
  takes it out of both, calls \<open>OnAck\<close> with the time since the send, and leaves every other message
  alone.
\<close>

theorem ack_completes_send:
  assumes "Send L (None, None) ioAck now ct pr payload a = (a', Some (Inr mid))"
    and "ring_ok (b_ring a)" and "\<And>fr. (mid, fr) \<notin># inflight (b_ring a)"
    and "b_wal a = Some w" and "wal_inv w" and "length payload + 2 < 2 ^ 32"
  shows "\<exists>frags w' a''. Split (zstdEncode L) mid ct payload = Inr frags \<and>
    inflight (b_ring a') = add_mset (mid, map (setPriority pr) frags) (inflight (b_ring a)) \<and>
    b_wal a' = Some w' \<and> wal_pending w' = (wal_pending w)(mid \<mapsto> packWALPayload ct pr payload) \<and>
    dispatch L (None, None) later (ackMsg mid) a' = Some a'' \<and>
    inflight (b_ring a'') = inflight (b_ring a) \<and>
    (\<exists>w''. b_wal a'' = Some w'' \<and> wal_pending w'' = (wal_pending w)(mid := None)) \<and>
    b_calls a'' = b_calls a @ [OnAck mid (later - now)]"
proof -
  let ?w' = "fst (Append None None mid (packWALPayload ct pr payload) w)"
  obtain fs r c where fs: "Split (zstdEncode L) mid ct payload = Inr fs"
    and r: "claimSlot now mid (map (setPriority pr) fs) (b_ring a) = Some r"
    and a': "b_ring a' = r" "b_wal a' = Some ?w'" "b_calls a' = b_calls a"
    by (rule Send_okE [OF assms(1)]) (auto simp: assms(4))
  have w': "wal_inv ?w'" "wal_pending ?w' = (wal_pending w)(mid \<mapsto> packWALPayload ct pr payload)"
    using wal_log.invar_append [OF assms(5)] wal_log.pend_append [OF assms(5)] assms(6) by simp_all
  obtain r'' where r'': "releaseSlot mid r = (r'', Some now)" "inflight r'' = inflight (b_ring a)"
    using release_claimed [OF assms(2) r assms(3)] by blast
  have "dispatch L (None, None) later (ackMsg mid) a' =
      Some (call (OnAck mid (later - now)) (fst (freeSlot (None, None) mid a')))"
    using r''(1) a'(1) by (simp add: dispatch_ack ackMsg_def)
  moreover have "b_wal (fst (freeSlot (None, None) mid a')) = Some (fst (Ack None None mid ?w'))"
    using r''(1) a' by (simp add: freeSlot_wal)
  moreover have "wal_pending (fst (Ack None None mid ?w')) = (wal_pending w)(mid := None)"
    using wal_log.pend_ack [OF w'(1)] w'(2) by simp
  ultimately show ?thesis
    using fs a' w' r'' ring_pool.put_Some [OF assms(2) r] by simp
qed

theorem ack_completes_send_witness:
  "\<exists>a' a''. Send exampleLibs (None, None) (None, None) 5 ContentText PriorityHigh [1, 2, 3]
      (exampleBroker [] (Some \<lparr>w_file = [], w_handle = True, w_fsync = True\<rparr>)) = (a', Some (Inr 1)) \<and>
    dispatch exampleLibs (None, None) 8 (ackMsg 1) a' = Some a'' \<and>
    inflight (b_ring a'') = {#} \<and> b_calls a'' = [OnAck 1 3]"
proof -
  let ?w = "\<lparr>w_file = [], w_handle = True, w_fsync = True\<rparr>"
  obtain a' where a': "Send exampleLibs (None, None) (None, None) 5 ContentText PriorityHigh [1, 2, 3]
      (exampleBroker [] (Some ?w)) = (a', Some (Inr 1))"
    using example_send [of "Some ?w"] wal_inv_empty by auto
  have e: "inflight (newRing 2) = {#}" by (simp add: inflight_def newRing_def zero_slot_def)
  have ok: "ring_ok (b_ring (exampleBroker [] (Some ?w)))" by (simp add: ring_ok_new)
  show ?thesis
    using ack_completes_send [where later = 8, OF a' ok _ _ wal_inv_empty] a' e by auto
qed

text \<open>
  C13: Reconnecting resends what is unacknowledged. When the read loop's reconnect succeeds on a
  working plain link, it reports success, nothing is taken out of flight, and the new connection
  carries exactly the fragments of the messages in flight, each once, message by message in ring
  order, and nothing left over from the old connection's buffer.
\<close>

theorem reconnect_resends_unacked:
  assumes "handleReconnect L now None (map (\<lambda>e. Dials (Inl e)) fails @ Dials (Inr l) # later) b = (b', ok)"
    and "link_up l" and "\<not> b_stop b" and "ring_ok (b_ring b)"
  shows "ok \<and> inflight (b_ring b') = inflight (b_ring b) \<and>
    (\<exists>out. wire (b_conn b') = l_tx l @ concat (map msgBytes (concat out)) \<and>
       out = map sl_frags (filter sl_active (ring (b_ring b))) \<and>
       mset out = image_mset snd (inflight (b_ring b)))"
proof -
  obtain r out where r: "replayScan now (b_ring b) = (r, out)" by force
  have "filter (\<lambda>s. sl_active s \<and> \<not> sl_dead s) (ring (b_ring b)) = filter sl_active (ring (b_ring b))"
    using assms(4) by (intro filter_cong) (auto simp: ring_ok_def in_set_conv_nth)
  then have out: "out = map sl_frags (filter sl_active (ring (b_ring b)))"
    using r by (auto simp: replayScan_def)
  obtain c where c: "Reconnect (Inr l) None (b_conn b) = (c, None)" "plain_up c" "wire c = l_tx l"
    using assms(2) by (auto simp: Reconnect_def buildTransport_def newWriterSize_def split: option.splits)
  have "handleReconnect L now None (map (\<lambda>e. Dials (Inl e)) fails @ Dials (Inr l) # later) b =
      (replayUnacked L now (b\<lparr>b_conn := c\<rparr>), True)"
  proof (induction fails)
    case Nil
    then show ?case using c(1) assms(3) by simp
  next
    case (Cons e fails)
    then show ?case using assms(3) by (simp add: Reconnect_def)
  qed
  with assms(1) have b': "b' = writeAll L (concat out) (b\<lparr>b_conn := c, b_ring := r\<rparr>)" "ok"
    using r by (auto simp: replayUnacked_def)
  moreover have "wire (b_conn b') = l_tx l @ concat (map msgBytes (concat out))"
    using writeAll_plain [of "b\<lparr>b_conn := c, b_ring := r\<rparr>" L "concat out"] c(2,3) b'(1)
    by (simp del: plain_up.simps wire.simps)
  ultimately show ?thesis using replayScan_ok [OF assms(4) r] out by auto
qed

theorem reconnect_resends_unacked_witness:
  "\<exists>b'. handleReconnect exampleLibs 9 None [Dials (Inl NetErrClosed), Dials (Inr (new_link [] IoEOF))]
      ((exampleBroker [] None)\<lparr>b_ring := ring_step (newRing 2) (RClaim 0 4 [ackMsg 4])\<rparr>) = (b', True) \<and>
     wire (b_conn b') = msgBytes (ackMsg 4)"
proof -
  let ?b = "(exampleBroker [] None)\<lparr>b_ring := ring_step (newRing 2) (RClaim 0 4 [ackMsg 4])\<rparr>"
  obtain b' ok where b': "handleReconnect exampleLibs 9 None
      (map (\<lambda>e. Dials (Inl e)) [NetErrClosed] @ Dials (Inr (new_link [] IoEOF)) # []) ?b = (b', ok)"
    by (rule prod.exhaust)
  have r: "ring_ok (b_ring ?b)" using ring_step_ok [OF ring_ok_new, of 2 "RClaim 0 4 [ackMsg 4]"] by simp
  have f: "map sl_frags (filter sl_active (ring (b_ring ?b))) = [[ackMsg 4]]"
    by (simp add: newRing_def claimSlot_def zero_slot_def numeral_2_eq_2)
  have stop: "\<not> b_stop ?b" by simp
  have "ok" "wire (b_conn b') = l_tx (new_link [] IoEOF) @ concat (map msgBytes (concat [[ackMsg 4]]))"
    using reconnect_resends_unacked [OF b' link_up_new stop r] unfolding f by blast+
  with b' show ?thesis by (simp del: wire.simps handleReconnect.simps ring_step.simps)
qed

text \<open>
  A negative acknowledgement abandons the message: it is taken out of flight (and its log entry is
  acknowledged) without being sent again, and \<open>OnDead\<close> is called, whether or not it was in flight.
\<close>

theorem nack_abandons_message:
  assumes "MsgType (Hdr m) = MsgNACK" and "ring_ok (b_ring b)"
    and "inflight (b_ring b) = add_mset (MsgID (Hdr m), frags) others"
    and "\<And>fr. (MsgID (Hdr m), fr) \<notin># others"
  shows "\<exists>b'. dispatch L io now m b = Some b' \<and> inflight (b_ring b') = others \<and>
    b_calls b' = b_calls b @ [OnDead (MsgID (Hdr m)) (Errorf ''broker: NACK received'')] \<and>
    b_conn b' = b_conn b \<and> b_tasks b' = b_tasks b"
proof -
  have "inflight (fst (releaseSlot (MsgID (Hdr m)) (b_ring b))) = others"
    using ring_pool.del_unique [OF assms(2,3,4)] by auto
  then show ?thesis using assms(1) by (simp add: dispatch_def Let_def)
qed

theorem nack_abandons_message_witness:
  "\<exists>b'. dispatch exampleLibs (None, None) 0 \<lparr>Hdr = zero_Header\<lparr>MsgID := 4, MsgType := MsgNACK\<rparr>, Payload = []\<rparr>
     ((exampleBroker [] None)\<lparr>b_ring := ring_step (newRing 2) (RClaim 0 4 [])\<rparr>) = Some b' \<and>
     inflight (b_ring b') = {#} \<and> b_calls b' = [OnDead 4 (Errorf ''broker: NACK received'')]"
proof -
  let ?b = "(exampleBroker [] None)\<lparr>b_ring := ring_step (newRing 2) (RClaim 0 4 [])\<rparr>"
  have ok: "ring_ok (b_ring ?b)" using ring_step_ok [OF ring_ok_new, of 2 "RClaim 0 4 []"] by simp
  have fl: "inflight (b_ring ?b) = add_mset (4, []) {#}"
    by (simp add: newRing_def claimSlot_def inflight_def zero_slot_def numeral_2_eq_2)
  show ?thesis
    using nack_abandons_message [of "\<lparr>Hdr = zero_Header\<lparr>MsgID := 4, MsgType := MsgNACK\<rparr>, Payload = []\<rparr>" ?b
        "[]" "{#}" exampleLibs "(None, None)" 0] ok fl by auto
qed

end
