(* ===== verification/Recovery.thy ===== *)
theory Recovery
  imports Delivery
begin

text \<open>
  Durability of the broker's write-ahead log and recovery from it: every message in flight is
  pending in the log, and starting a broker on the log puts exactly the pending messages back in
  flight.
\<close>

section \<open>Start-up\<close>

text \<open>The fragments an entry of the log is replayed as; \<open>None\<close> if it cannot be split.\<close>

definition entryItem :: "'cs libs \<Rightarrow> Entry \<Rightarrow> (u64 \<times> Message list) option" where
  "entryItem L e =
     (case unpackWALPayload (e_Payload e) of
        (ct, pr, payload) \<Rightarrow>
          (case Split (zstdEncode L) (e_MsgID e) ct payload of
             Inl err \<Rightarrow> None
           | Inr fs \<Rightarrow> Some (e_MsgID e, map (setPriority pr) fs)))"

lemma replayEntry_None: "entryItem L e = None \<Longrightarrow> replayEntry L now e b = Some b"
  by (auto simp: entryItem_def replayEntry_def split: prod.splits sum.splits)

lemma replayEntry_Some:
  assumes "entryItem L e = Some (mid, fr)" "claimSlot now mid fr (b_ring b) = Some r"
  shows "replayEntry L now e b = Some (b\<lparr>b_ring := r, b_msgIDCounter := max (b_msgIDCounter b) mid\<rparr>)" "mid = e_MsgID e"
  using assms
  by (auto simp: entryItem_def replayEntry_def enqueue_def max_def Let_def split: prod.splits sum.splits)

lemma replayEntry_full:
  assumes "entryItem L e = Some (mid, fr)" "freeIdx (b_ring b) = []" "\<not> b_stop b"
  shows "replayEntry L now e b = None"
  using assms
  by (auto simp: entryItem_def replayEntry_def enqueue_def claimSlot_def Let_def split: prod.splits sum.splits)

lemma replayWAL_recovers:
  "ring_ok (b_ring b) \<Longrightarrow> length (List.map_filter (entryItem L) es) \<le> length (freeIdx (b_ring b)) \<Longrightarrow>
   \<exists>r cnt. replayWAL L now es b = Some (b\<lparr>b_ring := r, b_msgIDCounter := cnt\<rparr>) \<and> ring_ok r \<and>
     inflight r = inflight (b_ring b) + mset (List.map_filter (entryItem L) es) \<and>
     b_msgIDCounter b \<le> cnt \<and> (\<forall>(mid, fr)\<in>set (List.map_filter (entryItem L) es). mid \<le> cnt)"
proof (induction es arbitrary: b)
  case Nil
  then show ?case by (auto simp: map_filter_simps intro!: exI [of _ "b_ring b"] exI [of _ "b_msgIDCounter b"])
next
  case (Cons e es)
  show ?case
  proof (cases "entryItem L e")
    case None
    then show ?thesis using Cons by (simp add: replayEntry_None map_filter_simps)
  next
    case (Some item)
    obtain mid fr where it: "item = (mid, fr)" by force
    then obtain r where r: "claimSlot now mid fr (b_ring b) = Some r"
      using Cons.prems(2) Some by (cases "freeIdx (b_ring b)") (auto simp: claimSlot_def Let_def map_filter_simps)
    let ?b = "b\<lparr>b_ring := r, b_msgIDCounter := max (b_msgIDCounter b) mid\<rparr>"
    have ok: "ring_ok r" "inflight r = add_mset (mid, fr) (inflight (b_ring b))"
      "length (freeIdx (b_ring b)) = Suc (length (freeIdx r))"
      using ring_pool.put_Some [OF Cons.prems(1) r] by auto
    have "\<exists>r' cnt. replayWAL L now es ?b = Some (?b\<lparr>b_ring := r', b_msgIDCounter := cnt\<rparr>) \<and> ring_ok r' \<and>
       inflight r' = inflight (b_ring ?b) + mset (List.map_filter (entryItem L) es) \<and>
       b_msgIDCounter ?b \<le> cnt \<and> (\<forall>(mid, fr)\<in>set (List.map_filter (entryItem L) es). mid \<le> cnt)"
      by (rule Cons.IH) (use Cons.prems(2) ok Some in \<open>simp_all add: map_filter_simps\<close>)
    with ok(2) Some it replayEntry_Some(1) [of L e mid fr now b r] r show ?thesis
      by (auto simp: map_filter_simps)
  qed
qed

lemma replayWAL_blocks:
  "ring_ok (b_ring b) \<Longrightarrow> \<not> b_stop b \<Longrightarrow>
   length (freeIdx (b_ring b)) < length (List.map_filter (entryItem L) es) \<Longrightarrow> replayWAL L now es b = None"
proof (induction es arbitrary: b)
  case Nil
  then show ?case by (simp add: map_filter_simps)
next
  case (Cons e es)
  show ?case
  proof (cases "entryItem L e")
    case None
    then show ?thesis using Cons by (simp add: replayEntry_None map_filter_simps)
  next
    case (Some item)
    obtain mid fr where it: "item = (mid, fr)" by force
    show ?thesis
    proof (cases "claimSlot now mid fr (b_ring b)")
      case None
      then show ?thesis
        using replayEntry_full [of L e mid fr b now] Some it Cons.prems(2)
        by (simp add: claimSlot_def Let_def split: if_splits)
    next
      case (Some r)
      have "replayWAL L now es (b\<lparr>b_ring := r, b_msgIDCounter := max (b_msgIDCounter b) mid\<rparr>) = None"
        by (rule Cons.IH)
          (use ring_pool.put_Some [OF Cons.prems(1) Some] Cons.prems \<open>entryItem L e = Some item\<close> in
            \<open>simp_all add: map_filter_simps\<close>)
      then show ?thesis
        using replayEntry_Some(1) [of L e mid fr now b r] Some \<open>entryItem L e = Some item\<close> it by simp
    qed
  qed
qed

section \<open>Every message in flight is in the log\<close>

definition logged :: "'cs libs \<Rightarrow> (u64 \<rightharpoonup> bytes) \<Rightarrow> u64 \<times> Message list \<Rightarrow> bool" where
  "logged L pend item \<longleftrightarrow>
     (\<exists>ct pr payload fs. pend (fst item) = Some (packWALPayload ct pr payload) \<and>
        Split (zstdEncode L) (fst item) ct payload = Inr fs \<and> snd item = map (setPriority pr) fs)"

text \<open>
  The ring is consistent, identifiers in flight are distinct and not beyond the counter, the log
  consists of whole records, and every message in flight is pending in it.
\<close>

definition durable :: "'cs libs \<Rightarrow> Ring \<Rightarrow> WAL \<Rightarrow> u64 \<Rightarrow> bool" where
  "durable L r w cnt \<longleftrightarrow> ring_ok r \<and> wal_inv w \<and>
     (\<forall>mid. count (image_mset fst (inflight r)) mid \<le> 1) \<and>
     (\<forall>item\<in>#inflight r. unat (fst item) \<le> unat cnt \<and> logged L (wal_pending w) item)"

definition broker_durable :: "'cs libs \<Rightarrow> 'cs Broker \<Rightarrow> bool" where
  "broker_durable L b \<longleftrightarrow> (\<exists>w. b_wal b = Some w \<and> durable L (b_ring b) w (b_msgIDCounter b))"

lemma durable_sub:
  assumes "durable L r w cnt" "ring_ok r'" "inflight r' \<subseteq># inflight r" "unat cnt \<le> unat cnt'"
  shows "durable L r' w cnt'"
proof -
  have "count (image_mset fst (inflight r')) mid \<le> count (image_mset fst (inflight r)) mid" for mid
    by (intro mset_subset_eq_count image_mset_subseteq_mono assms(3))
  then show ?thesis
    using assms(1,2,4) mset_subset_eqD [OF assms(3)] unfolding durable_def by (meson le_trans)
qed

lemma durable_release:
  assumes "durable L r w cnt" "releaseSlot mid r = (r', Some t)"
  shows "durable L r' (fst (Ack None None mid w)) cnt"
proof -
  have ok: "ring_ok r" "wal_inv w" using assms(1) by (simp_all add: durable_def)
  obtain fr where fr: "inflight r = add_mset (mid, fr) (inflight r')" and ok': "ring_ok r'"
    using ring_pool.del_Some [OF ok(1) assms(2)] by blast
  have d: "durable L r' w cnt" by (rule durable_sub [OF assms(1) ok']) (simp_all add: fr)
  have "count (image_mset fst (inflight r)) mid \<le> 1" using assms(1) by (simp add: durable_def)
  then have "count (image_mset fst (inflight r')) mid = 0" by (simp add: fr)
  then have "mid \<notin># image_mset fst (inflight r')" by (simp only: not_in_iff)
  then have "\<forall>item\<in>#inflight r'. fst item \<noteq> mid" by auto
  with d show ?thesis
    by (auto simp: durable_def logged_def wal_log.pend_ack [OF ok(2)] wal_log.invar_ack [OF ok(2)])
qed

lemma durable_freeSlot:
  assumes "broker_durable L b"
  shows "broker_durable L (fst (freeSlot (None, None) mid b))"
proof (cases "releaseSlot mid (b_ring b)")
  case (Pair r' t)
  show ?thesis
  proof (cases t)
    case None
    then show ?thesis using Pair assms by (simp add: freeSlot_def)
  next
    case (Some st)
    then show ?thesis
      using Pair assms durable_release [of L "b_ring b" _ "b_msgIDCounter b" mid r' st]
      by (auto simp: broker_durable_def freeSlot_wal)
  qed
qed

lemma unat_next: "cnt \<noteq> - 1 \<Longrightarrow> unat (cnt + 1) = Suc (unat cnt)" for cnt :: u64
  using unatSuc [of cnt] by (metis add.commute add.right_inverse add_left_cancel)

lemma durable_claim:
  assumes "durable L r w cnt" "cnt \<noteq> - 1" "claimSlot now (cnt + 1) (map (setPriority pr) fs) r = Some r'"
    and "Split (zstdEncode L) (cnt + 1) ct payload = Inr fs" "length payload + 2 < 2 ^ 32"
  shows "durable L r' (fst (Append None None (cnt + 1) (packWALPayload ct pr payload) w)) (cnt + 1)"
proof -
  have ok: "ring_ok r" "wal_inv w" using assms(1) by (simp_all add: durable_def)
  have old: "unat (fst item) \<le> unat cnt" "logged L (wal_pending w) item" if "item \<in># inflight r" for item
    using assms(1) that by (auto simp: durable_def)
  then have fresh: "cnt + 1 \<noteq> fst item" if "item \<in># inflight r" for item
    using that unat_next [OF assms(2)] by fastforce
  then have "cnt + 1 \<notin># image_mset fst (inflight r)" by auto
  then have cnt: "count (image_mset fst (inflight r)) (cnt + 1) = 0" by (simp only: not_in_iff)
  have len: "length (packWALPayload ct pr payload) < 4294967296" using assms(5) by simp
  have fl: "inflight r' = add_mset (cnt + 1, map (setPriority pr) fs) (inflight r)" "ring_ok r'"
    using ring_pool.put_Some [OF ok(1) assms(3)] by auto
  have "logged L ((wal_pending w)(cnt + 1 \<mapsto> packWALPayload ct pr payload)) item" if "item \<in># inflight r'" for item
  proof (cases "item \<in># inflight r")
    case True
    then show ?thesis using old(2) fresh by (fastforce simp: logged_def)
  next
    case False
    then have "item = (cnt + 1, map (setPriority pr) fs)" using that fl(1) by simp
    then show ?thesis using assms(4) by (auto simp: logged_def)
  qed
  moreover have "unat (fst item) \<le> unat (cnt + 1)" if "item \<in># inflight r'" for item
    using that fl(1) old(1) unat_next [OF assms(2)] by (fastforce intro: le_SucI)
  moreover have "count (image_mset fst (inflight r')) mid \<le> 1" for mid
    using assms(1) cnt by (auto simp: fl(1) durable_def)
  ultimately show ?thesis
    using fl(2) by (simp add: durable_def wal_log.pend_append [OF ok(2) len] wal_log.invar_append [OF ok(2) len])
qed

lemma durable_Send:
  assumes "broker_durable L b" "b_msgIDCounter b \<noteq> - 1" "length payload + 2 < 2 ^ 32"
  shows "broker_durable L (fst (Send L (None, None) (None, None) now ct pr payload b))"
proof -
  let ?id = "b_msgIDCounter b + 1"
  obtain w where w: "b_wal b = Some w" "durable L (b_ring b) w (b_msgIDCounter b)"
    using assms(1) by (auto simp: broker_durable_def)
  have skip: "broker_durable L (b\<lparr>b_msgIDCounter := ?id\<rparr>)"
    using w durable_sub [OF w(2), of "b_ring b" ?id] unat_next [OF assms(2)]
    by (auto simp: broker_durable_def durable_def)
  show ?thesis
  proof (cases "Split (zstdEncode L) ?id ct payload")
    case (Inl e)
    then show ?thesis using skip by (simp add: Send_def)
  next
    case (Inr fs)
    let ?fs = "map (setPriority pr) fs"
    show ?thesis
    proof (cases "claimSlot now ?id ?fs (b_ring b)")
      case None
      then show ?thesis using Inr skip by (simp add: Send_def enqueue_def Let_def)
    next
      case (Some r)
      let ?w = "fst (Append None None ?id (packWALPayload ct pr payload) w)"
      have ap: "Append None None ?id (packWALPayload ct pr payload) w = (?w, None)"
        using writeRecord_ok(1) [of w "packWALPayload ct pr payload"] w(2) assms(3)
        by (simp add: Append_def durable_def)
      have "broker_durable L (b\<lparr>b_msgIDCounter := ?id, b_ring := r, b_wal := Some ?w, b_conn := c\<rparr>)" for c
        using durable_claim [OF w(2) assms(2) Some Inr assms(3)] by (simp add: broker_durable_def)
      then show ?thesis
        using Inr Some w(1) ap
        by (auto simp: Send_def enqueue_def Let_def split: prod.splits option.splits intro!: durable_freeSlot)
    qed
  qed
qed

section \<open>Runs of the broker\<close>

text \<open>
  Everything a running broker does, in any order: sends (successful, failed or waiting), incoming
  messages of any kind, time-out checks, pending goroutines, log compaction, reconnecting, closing,
  and any change of the connection from outside. Log writes succeed, payloads are below 4 GB, and the
  counter does not wrap.
\<close>

inductive broker_step :: "'cs libs \<Rightarrow> 'cs Broker \<Rightarrow> 'cs Broker \<Rightarrow> bool" for L where
  send: "Send L (None, None) (None, None) now ct pr payload b = (b', r) \<Longrightarrow> b_msgIDCounter b \<noteq> - 1 \<Longrightarrow>
    length payload + 2 < 2 ^ 32 \<Longrightarrow> broker_step L b b'"
| receive: "dispatch L (None, None) now m b = Some b' \<Longrightarrow> broker_step L b b'"
| timeouts: "broker_step L b (checkTimeouts L now b)"
| task: "broker_step L b (runTask L i b)"
| compact: "broker_step L b (walCompactTick compactEnvOk b)"
| reconnect: "handleReconnect L now hs attempts b = (b', ok) \<Longrightarrow> broker_step L b b'"
| close: "CloseBroker L b = (b', e) \<Longrightarrow> broker_step L b b'"
| network: "broker_step L b (b\<lparr>b_conn := c\<rparr>)"

inductive_cases broker_stepE: "broker_step L b b'"

text \<open>A step that changes at most the ring, shrinking what is in flight.\<close>

lemma durable_ring:
  assumes "broker_durable L b" "b_wal b' = b_wal b" "b_msgIDCounter b' = b_msgIDCounter b"
    and "ring_ok (b_ring b) \<Longrightarrow> ring_ok (b_ring b') \<and> inflight (b_ring b') \<subseteq># inflight (b_ring b)"
  shows "broker_durable L b'"
proof -
  obtain w where w: "b_wal b = Some w" "durable L (b_ring b) w (b_msgIDCounter b)"
    using assms(1) by (auto simp: broker_durable_def)
  then have "ring_ok (b_ring b)" by (simp add: durable_def)
  from assms(4) [OF this] have "durable L (b_ring b') w (b_msgIDCounter b)"
    by (intro durable_sub [OF w(2)]) simp_all
  with w(1) assms(2,3) show ?thesis by (simp add: broker_durable_def)
qed

lemma replayUnacked_frame:
  "b_wal (replayUnacked L now b) = b_wal b" "b_msgIDCounter (replayUnacked L now b) = b_msgIDCounter b"
  "ring_ok (b_ring b) \<Longrightarrow> ring_ok (b_ring (replayUnacked L now b)) \<and>
     inflight (b_ring (replayUnacked L now b)) = inflight (b_ring b)"
  using replayScan_ok [of "b_ring b" now] by (auto simp: replayUnacked_def split: prod.splits)

lemma handleReconnect_frame:
  "handleReconnect L now hs attempts b = (b', ok) \<Longrightarrow>
   b_wal b' = b_wal b \<and> b_msgIDCounter b' = b_msgIDCounter b \<and>
   (ring_ok (b_ring b) \<longrightarrow> ring_ok (b_ring b') \<and> inflight (b_ring b') = inflight (b_ring b))"
proof (induction L now hs attempts b rule: handleReconnect.induct)
  case (3 L now hs d as b)
  then show ?case
    by (auto simp: replayUnacked_frame split: if_splits prod.splits option.splits)
qed auto

lemma foldl_call_frame [simp]:
  "b_wal (foldl (\<lambda>b i. call (f i) b) b xs) = b_wal b" "b_ring (foldl (\<lambda>b i. call (f i) b) b xs) = b_ring b"
  "b_msgIDCounter (foldl (\<lambda>b i. call (f i) b) b xs) = b_msgIDCounter b"
  by (induction xs arbitrary: b) simp_all

lemma durable_timeouts:
  assumes "broker_durable L b"
  shows "broker_durable L (checkTimeouts L now b)"
proof (rule durable_ring [OF assms])
  obtain r S T where sc: "timeoutScan (outOfRange L) (ACKTimeout (b_cfg b)) (nat (MaxRetries (b_cfg b))) now (b_ring b) = (r, S, T)"
    by (metis prod_cases3)
  then show "b_wal (checkTimeouts L now b) = b_wal b" "b_msgIDCounter (checkTimeouts L now b) = b_msgIDCounter b"
    by (simp_all add: checkTimeouts_def)
  assume "ring_ok (b_ring b)"
  from timeoutScan_ok [OF this sc] sc
  show "ring_ok (b_ring (checkTimeouts L now b)) \<and> inflight (b_ring (checkTimeouts L now b)) \<subseteq># inflight (b_ring b)"
    by (simp add: checkTimeouts_def)
qed

lemma durable_dispatch:
  assumes "broker_durable L b" "dispatch L (None, None) now m b = Some b'"
  shows "broker_durable L b'"
proof -
  have call: "broker_durable L (call c x) = broker_durable L x" for c x by (simp add: broker_durable_def)
  have frame: "broker_durable L b'" if "b_ring b' = b_ring b" "b_wal b' = b_wal b" "b_msgIDCounter b' = b_msgIDCounter b"
    using assms(1) that by (simp add: broker_durable_def)
  show ?thesis
  proof (cases "MsgType (Hdr m) = MsgACK")
    case True
    then show ?thesis
      using assms(2) durable_freeSlot [OF assms(1)] by (auto simp: dispatch_ack call split: option.splits)
  next
    case False
    then show ?thesis
      using assms(2) durable_freeSlot [OF assms(1)] frame
      by (auto simp: dispatch_def Let_def call split: if_splits prod.splits AddOutcome.splits)
  qed
qed

lemma durable_compact:
  assumes "broker_durable L b"
  shows "broker_durable L (walCompactTick compactEnvOk b)"
  using assms wal_log.pend_compact wal_log.invar_compact
  by (auto simp: broker_durable_def walCompactTick_def durable_def)

lemma broker_step_durable: "broker_step L b b' \<Longrightarrow> broker_durable L b \<Longrightarrow> broker_durable L b'"
proof (induction rule: broker_step.induct)
  case (send now ct pr payload b b' r)
  then show ?case using durable_Send by (metis fst_conv)
next
  case (task b i)
  then show ?case by (simp add: runTask_def broker_durable_def)
next
  case (reconnect now hs attempts b b' ok)
  then show ?case by (auto intro!: durable_ring [of L b b'] dest!: handleReconnect_frame)
next
  case (close b b' e)
  then show ?case by (auto simp: CloseBroker_def broker_durable_def split: prod.splits)
next
  case (network b c)
  then show ?case by (simp add: broker_durable_def)
qed (simp_all add: durable_dispatch durable_timeouts durable_compact)

lemma broker_run_durable: "(broker_step L)\<^sup>*\<^sup>* b b' \<Longrightarrow> broker_durable L b \<Longrightarrow> broker_durable L b'"
  by (induction rule: rtranclp_induct) (auto intro: broker_step_durable)

lemma set_map_filter_eq: "y \<in> set (List.map_filter f xs) \<longleftrightarrow> (\<exists>x\<in>set xs. f x = Some y)"
  by (induction xs) (auto simp: map_filter_simps split: option.splits)

text \<open>What is pending in the log is what a restart replays.\<close>

lemma logged_replayed:
  assumes "wal_inv w" "Replay None IoEOF w = Inr es"
  shows "item \<in> set (List.map_filter (entryItem L) es) \<longleftrightarrow>
    (\<exists>p. wal_pending w (fst item) = Some p \<and> entryItem L \<lparr>e_MsgID = fst item, e_Payload = p\<rparr> = Some item)"
proof -
  have es: "set es = {\<lparr>e_MsgID = i, e_Payload = p\<rparr> | i p. wal_pending w i = Some p}"
    using Replay_wal_inv [OF assms(1)] assms(2) set_replayEntries [OF replay_of_order, of "wal_records w"]
    by (simp add: wal_pending_def)
  have mid: "fst item = e_MsgID e" if "entryItem L e = Some item" for e
    using that by (auto simp: entryItem_def split: prod.splits sum.splits)
  show ?thesis
  proof
    assume "item \<in> set (List.map_filter (entryItem L) es)"
    then obtain i p where ip: "wal_pending w i = Some p" "entryItem L \<lparr>e_MsgID = i, e_Payload = p\<rparr> = Some item"
      by (auto simp: set_map_filter_eq es)
    with mid [OF ip(2)] show "\<exists>p. wal_pending w (fst item) = Some p \<and>
        entryItem L \<lparr>e_MsgID = fst item, e_Payload = p\<rparr> = Some item" by simp
  next
    assume "\<exists>p. wal_pending w (fst item) = Some p \<and> entryItem L \<lparr>e_MsgID = fst item, e_Payload = p\<rparr> = Some item"
    then show "item \<in> set (List.map_filter (entryItem L) es)" unfolding set_map_filter_eq es by blast
  qed
qed

lemma entryItem_logged:
  "logged L pend item \<Longrightarrow> \<exists>p. pend (fst item) = Some p \<and> entryItem L \<lparr>e_MsgID = fst item, e_Payload = p\<rparr> = Some item"
  by (cases item) (auto simp: logged_def entryItem_def)

lemma NewBroker_replay:
  assumes "Replay None IoEOF w = Inr es"
    and "length (List.map_filter (entryItem L) es) \<le> nat (RetryBuffer (withDefaults cfg))"
  shows "\<exists>b. NewBroker L now None IoEOF (Some c) (Some w) cfg = Some (Inr b) \<and> b_wal b = Some w \<and>
    ring_ok (b_ring b) \<and> inflight (b_ring b) = mset (List.map_filter (entryItem L) es) \<and>
    (\<forall>(mid, fr)\<in>#inflight (b_ring b). mid \<le> b_msgIDCounter b)"
proof -
  let ?b = "\<lparr>b_cfg = withDefaults cfg, b_conn = c, b_assemb = NewAssembler,
    b_ring = newRing (nat (RetryBuffer (withDefaults cfg))), b_wal = Some w, b_msgIDCounter = 0,
    b_ackCount = 0, b_stop = False, b_tasks = [], b_calls = []\<rparr>"
  have "ring_ok (b_ring ?b)" "length (List.map_filter (entryItem L) es) \<le> length (freeIdx (b_ring ?b))"
    "inflight (b_ring ?b) = {#}"
    using assms(2) by (simp_all add: ring_ok_new)
  from replayWAL_recovers [OF this(1,2), of now] this(3) assms(1) show ?thesis
    by (auto simp: NewBroker_def Let_def)
qed

section \<open>Properties\<close>



text \<open>
  Starting a broker on a log with more unacknowledged messages than slots never returns: replay
  waits for a free slot before any goroutine that could free one has been started.
\<close>

theorem new_blocks_on_large_log:
  assumes "Replay None IoEOF w = Inr es"
    and "nat (RetryBuffer (withDefaults cfg)) < length es"
    and "\<forall>e\<in>set es. entryItem L e \<noteq> None"
  shows "NewBroker L now None IoEOF (Some c) (Some w) cfg = None"
proof -
  have "length (List.map_filter (entryItem L) es) = length es"
    using assms(3) by (simp add: map_filter_def)
  then show ?thesis
    using replayWAL_blocks [of "\<lparr>b_cfg = withDefaults cfg, b_conn = c, b_assemb = NewAssembler,
        b_ring = newRing (nat (RetryBuffer (withDefaults cfg))), b_wal = Some w, b_msgIDCounter = 0,
        b_ackCount = 0, b_stop = False, b_tasks = [], b_calls = []\<rparr>" L es now] assms(1,2) ring_ok_new
    by (simp add: NewBroker_def Let_def)
qed

theorem new_blocks_on_large_log_witness:
  "NewBroker exampleLibs 0 None IoEOF (Some (plainConn (new_link [] IoEOF)))
     (Some \<lparr>w_file = logBytes [(OpSend, 1, [7, 8, 9]), (OpSend, 2, [7, 8, 9])], w_handle = True, w_fsync = True\<rparr>)
     \<lparr>RetryBuffer = 1, ACKTimeout = 0, MaxRetries = 0\<rparr> = None"
proof -
  let ?recs = "[(OpSend, 1, [7, 8, 9]), (OpSend, 2, [7, 8, 9])] :: walrec list"
  let ?w = "\<lparr>w_file = logBytes ?recs, w_handle = True, w_fsync = True\<rparr>"
  let ?es = "[\<lparr>e_MsgID = 1, e_Payload = [7, 8, 9]\<rparr>, \<lparr>e_MsgID = 2, e_Payload = [7, 8, 9]\<rparr>]"
  have r: "Replay None IoEOF ?w = Inr ?es"
    using Replay_logBytes [of ?recs ?w] by (simp add: rec_ok_def replayEntries_def)
  have "entryItem exampleLibs \<lparr>e_MsgID = i, e_Payload = [7, 8, 9]\<rparr> \<noteq> None" for i
    by (simp add: entryItem_def unpackWALPayload_def exampleLibs_def Split_def Compress_def ThresholdBytes_def
        splitBytes_def splitLoop_step ChunkSize_def)
  then show ?thesis
    by (intro new_blocks_on_large_log [OF r]) (simp_all add: withDefaults_def)
qed

end
