(* ===== verification/Slot_Wait.thy ===== *)
theory Slot_Wait
  imports Retry_Ring
begin

text \<open>
  Waiting for a slot in \<^verbatim>\<open>pkg/broker/broker.go\<close>: callers of \<open>enqueue\<close> that find the ring full, the acknowledgements and
  time-outs that free slots and signal the condition variable, and \<open>Close\<close>, each as the steps between
  which other goroutines can run. A step is a critical section of \<open>mu\<close>, a look at the stop channel, or a
  signal.
\<close>

section \<open>Definitions\<close>

text \<open>
  Where a caller is: at the head of the loop (on entering, or awake after a wait), after releasing the lock to look at
  the stop channel, after having seen it open, asleep in \<^verbatim>\<open>cond.Wait\<close>, or returned with a slot or with an
  error.
\<close>

datatype caller = Entering | Unlocked | SeenOpen | Asleep | Awake | GotSlot | Refused

record slots =
  sw_ring :: Ring
  sw_stop :: bool
  sw_phase :: "nat \<Rightarrow> caller"
  sw_signals :: nat
  sw_broadcasts :: nat

definition slotsInit :: "Ring \<Rightarrow> slots" where
  "slotsInit r = \<lparr>sw_ring = r, sw_stop = False, sw_phase = (\<lambda>_. Entering), sw_signals = 0, sw_broadcasts = 0\<rparr>"

datatype slotEvent = CallerStep nat | FreeStep | SignalStep | CloseStep

text \<open>\<open>req\<close> is what each caller wants to enqueue. Freeing slots leaves signals to be given after the lock is released.\<close>

inductive slot_step :: "(nat \<Rightarrow> u64 \<times> Message list) \<Rightarrow> slotEvent \<Rightarrow> slots \<Rightarrow> slots \<Rightarrow> bool" for req where
  claim: "sw_phase s t \<in> {Entering, Awake, SeenOpen} \<Longrightarrow> claimSlot now (fst (req t)) (snd (req t)) (sw_ring s) = Some r \<Longrightarrow>
    slot_step req (CallerStep t) s (s\<lparr>sw_ring := r, sw_phase := (sw_phase s)(t := GotSlot)\<rparr>)"
| unlock: "sw_phase s t \<in> {Entering, Awake} \<Longrightarrow> freeIdx (sw_ring s) = [] \<Longrightarrow>
    slot_step req (CallerStep t) s (s\<lparr>sw_phase := (sw_phase s)(t := Unlocked)\<rparr>)"
| refuse: "sw_phase s t = Unlocked \<Longrightarrow> sw_stop s \<Longrightarrow>
    slot_step req (CallerStep t) s (s\<lparr>sw_phase := (sw_phase s)(t := Refused)\<rparr>)"
| seen_open: "sw_phase s t = Unlocked \<Longrightarrow> \<not> sw_stop s \<Longrightarrow>
    slot_step req (CallerStep t) s (s\<lparr>sw_phase := (sw_phase s)(t := SeenOpen)\<rparr>)"
| sleep: "sw_phase s t = SeenOpen \<Longrightarrow> freeIdx (sw_ring s) = [] \<Longrightarrow>
    slot_step req (CallerStep t) s (s\<lparr>sw_phase := (sw_phase s)(t := Asleep)\<rparr>)"
| release: "releaseSlot mid (sw_ring s) = (r, Some st) \<Longrightarrow>
    slot_step req FreeStep s (s\<lparr>sw_ring := r, sw_signals := sw_signals s + 1\<rparr>)"
| expire: "timeoutScan oor tmo mx now (sw_ring s) = (r, toSend, toDead) \<Longrightarrow>
    slot_step req FreeStep s (s\<lparr>sw_ring := r, sw_signals := sw_signals s + length toDead\<rparr>)"
| wake: "sw_signals s = Suc n \<Longrightarrow> sw_phase s t = Asleep \<Longrightarrow>
    slot_step req SignalStep s (s\<lparr>sw_signals := n, sw_phase := (sw_phase s)(t := Awake)\<rparr>)"
| wake_none: "sw_signals s = Suc n \<Longrightarrow> \<forall>t. sw_phase s t \<noteq> Asleep \<Longrightarrow>
    slot_step req SignalStep s (s\<lparr>sw_signals := n\<rparr>)"
| stop: "slot_step req CloseStep s (s\<lparr>sw_stop := True, sw_broadcasts := sw_broadcasts s + 1\<rparr>)"
| broadcast: "sw_broadcasts s = Suc n \<Longrightarrow>
    slot_step req CloseStep s (s\<lparr>sw_broadcasts := n, sw_phase := (\<lambda>t. if sw_phase s t = Asleep then Awake else sw_phase s t)\<rparr>)"

inductive_cases slot_stepE: "slot_step req ev s s'"

abbreviation slot_run :: "(nat \<Rightarrow> u64 \<times> Message list) \<Rightarrow> (slotEvent \<Rightarrow> bool) \<Rightarrow> slots \<Rightarrow> slots \<Rightarrow> bool" where
  "slot_run req P \<equiv> (\<lambda>s s'. \<exists>ev. P ev \<and> slot_step req ev s s')\<^sup>*\<^sup>*"

definition awake :: "(nat \<Rightarrow> caller) \<Rightarrow> nat set" where "awake ph = {t. ph t = Awake}"

text \<open>While somebody sleeps, there are at least as many wake-ups under way as free slots.\<close>

definition slots_inv :: "slots \<Rightarrow> bool" where
  "slots_inv s \<longleftrightarrow> ring_ok (sw_ring s) \<and> finite {t. sw_phase s t \<noteq> Entering} \<and>
     ((\<exists>t. sw_phase s t = Asleep) \<longrightarrow> length (freeIdx (sw_ring s)) \<le> sw_signals s + card (awake (sw_phase s)))"

section \<open>The invariant\<close>

lemma finite_awake: "finite {t. ph t \<noteq> Entering} \<Longrightarrow> finite (awake ph)"
  by (erule rev_finite_subset) (auto simp: awake_def)

lemma finite_moved: "finite {t. ph t \<noteq> Entering} \<Longrightarrow> finite {t. (ph(x := c)) t \<noteq> Entering}"
  by (rule finite_subset [of _ "insert x {t. ph t \<noteq> Entering}"]) auto

lemma awake_moved:
  assumes "finite {t. ph t \<noteq> Entering}"
  shows "card (awake (ph(x := c))) + (if ph x = Awake then 1 else 0) = card (awake ph) + (if c = Awake then 1 else 0)"
proof -
  have fin: "finite (awake ph)" using assms by (rule finite_awake)
  have eq: "awake (ph(x := c)) = (if c = Awake then insert x (awake ph) else awake ph - {x})"
    by (auto simp: awake_def)
  have mem: "x \<in> awake ph \<longleftrightarrow> ph x = Awake" by (simp add: awake_def)
  have "0 < card (awake ph)" if "x \<in> awake ph" using fin that by (auto simp: card_gt_0_iff)
  then show ?thesis unfolding eq using fin mem by (auto simp: insert_absorb)
qed

text \<open>A caller that moves and does not fall asleep keeps the invariant if the free slots and wake-ups allow.\<close>

lemma slots_inv_move:
  assumes "slots_inv s" and "c \<noteq> Asleep" and "ring_ok r"
    and "length (freeIdx r) + (if sw_phase s t = Awake then 1 else 0) + sw_signals s
      \<le> length (freeIdx (sw_ring s)) + n + (if c = Awake then 1 else 0) \<or> freeIdx r = []"
  shows "slots_inv (s\<lparr>sw_ring := r, sw_signals := n, sw_phase := (sw_phase s)(t := c)\<rparr>)"
proof -
  have fin: "finite {t. sw_phase s t \<noteq> Entering}" using assms(1) by (simp add: slots_inv_def)
  have "\<exists>x. sw_phase s x = Asleep" if "((sw_phase s)(t := c)) x = Asleep" for x
    using that assms(2) by (auto split: if_splits)
  then show ?thesis
    using assms finite_moved [OF fin, of t c] awake_moved [OF fin, of t c]
    by (auto simp: slots_inv_def simp del: fun_upd_apply split: if_splits)
qed

lemma length_filter_nth: "length (filter (\<lambda>i. Q (xs ! i)) [0..<length xs]) = length (filter Q xs)"
proof -
  have "filter Q xs = filter Q (map ((!) xs) [0..<length xs])" by (simp add: map_nth)
  then show ?thesis by (simp add: filter_map o_def)
qed

lemma slot_step_inv: "slot_step req ev s s' \<Longrightarrow> slots_inv s \<Longrightarrow> slots_inv s'"
proof (induction rule: slot_step.induct)
  case (claim s t now r)
  have "ring_ok r" "length (freeIdx (sw_ring s)) = Suc (length (freeIdx r))"
    using ring_pool.put_Some [OF _ claim.hyps(2)] claim.prems by (auto simp: slots_inv_def)
  then show ?case using slots_inv_move [OF claim.prems, of GotSlot r t "sw_signals s"] by simp
next
  case (unlock s t)
  then show ?case using slots_inv_move [OF unlock.prems, of Unlocked "sw_ring s" t "sw_signals s"] by (simp add: slots_inv_def)
next
  case (refuse s t)
  then show ?case using slots_inv_move [OF refuse.prems, of Refused "sw_ring s" t "sw_signals s"] by (simp add: slots_inv_def)
next
  case (seen_open s t)
  then show ?case using slots_inv_move [OF seen_open.prems, of SeenOpen "sw_ring s" t "sw_signals s"] by (simp add: slots_inv_def)
next
  case (sleep s t)
  have fin: "finite {t. sw_phase s t \<noteq> Entering}" using sleep.prems by (simp add: slots_inv_def)
  show ?case using sleep finite_moved [OF fin, of t Asleep] by (auto simp: slots_inv_def simp del: fun_upd_apply)
next
  case (release mid s r st)
  have "ring_ok r" "length (freeIdx r) = Suc (length (freeIdx (sw_ring s)))"
    using ring_pool.del_Some [OF _ release.hyps] release.prems by (auto simp: slots_inv_def)
  then show ?case using release.prems by (auto simp: slots_inv_def)
next
  case (expire oor tmo mx now s r toSend toDead)
  note parts = timeoutScan_parts [OF expire.hyps]
  have "length (freeIdx r) = length (freeIdx (sw_ring s)) + length toDead"
    unfolding parts(2,4) by (simp add: length_filter_nth)
  then show ?case using expire.prems timeoutScan_ok(1) [OF _ expire.hyps] by (auto simp: slots_inv_def)
next
  case (wake s n t)
  then show ?case using slots_inv_move [OF wake.prems, of Awake "sw_ring s" t n] by (simp add: slots_inv_def)
next
  case (wake_none s n)
  then show ?case by (auto simp: slots_inv_def)
next
  case (stop s)
  then show ?case by (simp add: slots_inv_def)
next
  case (broadcast s n)
  have "{t. (if sw_phase s t = Asleep then Awake else sw_phase s t) \<noteq> Entering} = {t. sw_phase s t \<noteq> Entering}" by auto
  then show ?case using broadcast by (auto simp: slots_inv_def split: if_splits)
qed

lemma slots_reachable_inv:
  assumes "ring_ok r" and "slot_run req P (slotsInit r) s"
  shows "slots_inv s"
  using assms(2)
proof (induction rule: rtranclp_induct)
  case base
  then show ?case using assms(1) by (simp add: slots_inv_def slotsInit_def)
next
  case (step s s')
  then show ?case using slot_step_inv by blast
qed

section \<open>Properties\<close>

text \<open>
  C8: No freed slot is overlooked. In every state that any interleaving of callers, acknowledgements, time-outs,
  signals and \<open>Close\<close> reaches from a well-formed ring, as long as somebody sleeps waiting for a slot, at
  least as many wake-ups are under way (signals to be given, callers awake but not yet back at
  the lock) as slots are free: a free slot and sleeping callers with no wake-up coming cannot be.
\<close>

theorem freed_slot_wakes_sender:
  assumes "ring_ok r" and "slot_run req (\<lambda>_. True) (slotsInit r) s" and "sw_phase s t = Asleep"
  shows "ring_ok (sw_ring s) \<and> length (freeIdx (sw_ring s)) \<le> sw_signals s + card (awake (sw_phase s)) \<and>
    (freeIdx (sw_ring s) \<noteq> [] \<longrightarrow> sw_signals s > 0 \<or> (\<exists>t'. sw_phase s t' = Awake))"
proof -
  have inv: "slots_inv s" using assms(1,2) by (rule slots_reachable_inv)
  then have le: "length (freeIdx (sw_ring s)) \<le> sw_signals s + card (awake (sw_phase s))"
    using assms(3) by (auto simp: slots_inv_def)
  have "card (awake (sw_phase s)) = 0" if "\<not> (\<exists>t'. sw_phase s t' = Awake)" using that by (simp add: awake_def)
  moreover have "0 < length (freeIdx (sw_ring s))" if "freeIdx (sw_ring s) \<noteq> []" using that by simp
  ultimately have "sw_signals s > 0 \<or> (\<exists>t'. sw_phase s t' = Awake)" if "freeIdx (sw_ring s) \<noteq> []"
    using that le by (metis add_0_right gr0I not_less)
  then show ?thesis using inv le by (simp add: slots_inv_def)
qed

lemma slot_run_step: "slot_step req ev s s' \<Longrightarrow> P ev \<Longrightarrow> slot_run req P s' u \<Longrightarrow> slot_run req P s u"
  by (rule converse_rtranclp_into_rtranclp) auto

text \<open>A caller can fall asleep on a full ring, and after the stop channel was closed, too.\<close>

lemma run_to_sleep:
  assumes "freeIdx r = []"
  shows "slot_run req (\<lambda>_. True) (slotsInit r) ((slotsInit r)\<lparr>sw_phase := (\<lambda>_. Entering)(t := Asleep)\<rparr>)"
proof -
  let ?s = "\<lambda>c. (slotsInit r)\<lparr>sw_phase := (\<lambda>_. Entering)(t := c)\<rparr>"
  have 1: "slot_step req (CallerStep t) (slotsInit r) (?s Unlocked)"
    using slot_step.unlock [of "slotsInit r" t req] assms by (simp add: slotsInit_def)
  have 2: "slot_step req (CallerStep t) (?s Unlocked) (?s SeenOpen)"
    using slot_step.seen_open [of "?s Unlocked" t req] by (simp add: slotsInit_def)
  have 3: "slot_step req (CallerStep t) (?s SeenOpen) (?s Asleep)"
    using slot_step.sleep [of "?s SeenOpen" t req] assms by (simp add: slotsInit_def)
  show ?thesis by (rule slot_run_step [OF 1], simp, rule slot_run_step [OF 2], simp, rule slot_run_step [OF 3]) simp_all
qed

text \<open>
  C19: \<open>Close\<close> can miss a waiting sender. On a full ring a caller may look at the stop channel just before \<open>Close\<close>
  closes it and broadcasts, and fall asleep after that: \<open>Close\<close> is through, and whatever other callers and
  outstanding signals do, this caller sleeps on, since the loops that would free a slot have ended.
\<close>

theorem close_misses_sender:
  assumes "ring_ok r" and "freeIdx r = []"
  shows "\<exists>s. slot_run req (\<lambda>_. True) (slotsInit r) s \<and> sw_stop s \<and> sw_broadcasts s = 0 \<and> sw_phase s t = Asleep \<and>
    (\<forall>s'. slot_run req (\<lambda>ev. ev \<noteq> FreeStep \<and> ev \<noteq> CloseStep) s s' \<longrightarrow> sw_phase s' t = Asleep)"
proof -
  let ?s = "\<lambda>c st b. (slotsInit r)\<lparr>sw_phase := (\<lambda>_. Entering)(t := c), sw_stop := st, sw_broadcasts := b\<rparr>"
  have 1: "slot_step req (CallerStep t) (slotsInit r) (?s Unlocked False 0)"
    using slot_step.unlock [of "slotsInit r" t req] assms(2) by (simp add: slotsInit_def)
  have 2: "slot_step req (CallerStep t) (?s Unlocked False 0) (?s SeenOpen False 0)"
    using slot_step.seen_open [of "?s Unlocked False 0" t req] by (simp add: slotsInit_def)
  have 3: "slot_step req CloseStep (?s SeenOpen False 0) (?s SeenOpen True 1)"
    using slot_step.stop [of req "?s SeenOpen False 0"] by (simp add: slotsInit_def)
  have e: "(?s SeenOpen True 1)\<lparr>sw_broadcasts := 0, sw_phase := (\<lambda>u. if sw_phase (?s SeenOpen True 1) u = Asleep then Awake
      else sw_phase (?s SeenOpen True 1) u)\<rparr> = ?s SeenOpen True 0" by (auto simp: slotsInit_def)
  have 4: "slot_step req CloseStep (?s SeenOpen True 1) (?s SeenOpen True 0)"
    using slot_step.broadcast [of "?s SeenOpen True 1" 0 req] unfolding e by simp
  have 5: "slot_step req (CallerStep t) (?s SeenOpen True 0) (?s Asleep True 0)"
    using slot_step.sleep [of "?s SeenOpen True 0" t req] assms(2) by (simp add: slotsInit_def)
  have run: "slot_run req (\<lambda>_. True) (slotsInit r) (?s Asleep True 0)"
    by (rule slot_run_step [OF 1], simp, rule slot_run_step [OF 2], simp, rule slot_run_step [OF 3], simp,
        rule slot_run_step [OF 4], simp, rule slot_run_step [OF 5]) simp_all
  have "sw_phase s' t = Asleep \<and> sw_signals s' = 0"
    if "slot_run req (\<lambda>ev. ev \<noteq> FreeStep \<and> ev \<noteq> CloseStep) (?s Asleep True 0) s'" for s'
    using that
  proof (induction rule: rtranclp_induct)
    case base
    then show ?case by (simp add: slotsInit_def)
  next
    case (step u v)
    then obtain ev where "ev \<noteq> FreeStep" "ev \<noteq> CloseStep" "slot_step req ev u v" by blast
    then show ?case using step.IH by (auto elim!: slot_stepE)
  qed
  then show ?thesis using run by (intro exI [of _ "?s Asleep True 0"]) (simp add: slotsInit_def)
qed

text \<open>A ring of one slot, which is taken.\<close>

definition fullRing :: Ring where
  "fullRing = ring_step (newRing 1) (RClaim 0 7 [])"

lemma fullRing_facts: "ring_ok fullRing" "freeIdx fullRing = []"
proof -
  show "ring_ok fullRing" unfolding fullRing_def by (rule ring_step_ok) (rule ring_ok_new)
  show "freeIdx fullRing = []" by (simp add: fullRing_def newRing_def claimSlot_def)
qed

theorem freed_slot_wakes_sender_witness:
  "\<exists>s. slot_run (\<lambda>_. (8, [])) (\<lambda>_. True) (slotsInit fullRing) s \<and> sw_phase s 0 = Asleep \<and>
    length (freeIdx (sw_ring s)) \<le> sw_signals s + card (awake (sw_phase s))"
  using freed_slot_wakes_sender [OF fullRing_facts(1) run_to_sleep [OF fullRing_facts(2), of "\<lambda>_. (8, [])" 0], of 0]
    run_to_sleep [OF fullRing_facts(2), of "\<lambda>_. (8, [])" 0]
  by (intro exI [of _ "(slotsInit fullRing)\<lparr>sw_phase := (\<lambda>_. Entering)(0 := Asleep)\<rparr>"]) simp

theorem close_misses_sender_witness:
  "\<exists>s. slot_run (\<lambda>_. (8, [])) (\<lambda>_. True) (slotsInit fullRing) s \<and> sw_stop s \<and> sw_phase s 0 = Asleep"
  using close_misses_sender [OF fullRing_facts, of "\<lambda>_. (8, [])" 0] by blast

end
