(* ===== verification/Paths.thy ===== *)
theory Paths
  imports P2P_Prelude "HOL-Library.Sublist"
begin

text \<open>
  The functions of \<^verbatim>\<open>path/filepath\<close> the transfer code uses, on Unix: \<open>Clean\<close>, \<open>Join\<close>, \<open>Base\<close> and \<open>Dir\<close>,
  by components. The main fact relates the textual prefix test of the code to a prefix of components.
\<close>

section \<open>Definitions\<close>

abbreviation sep :: char where "sep \<equiv> CHR ''/''"

fun splitSlash :: "string \<Rightarrow> string list" where
  "splitSlash [] = [[]]"
| "splitSlash (c # cs) =
     (if c = sep then [] # splitSlash cs
      else case splitSlash cs of p # ps \<Rightarrow> (c # p) # ps | [] \<Rightarrow> [[c]])"

fun joinSlash :: "string list \<Rightarrow> string" where
  "joinSlash [] = []"
| "joinSlash [p] = p"
| "joinSlash (p # q # ps) = p @ sep # joinSlash (q # ps)"

definition dot :: string where "dot = ''.''"
definition dotdot :: string where "dotdot = ''..''"

text \<open>The loop of \<open>Clean\<close>, with the components kept so far in reverse.\<close>

fun cleanParts :: "bool \<Rightarrow> string list \<Rightarrow> string list \<Rightarrow> string list" where
  "cleanParts rooted kept [] = rev kept"
| "cleanParts rooted kept (c # cs) =
     (if c = [] \<or> c = dot then cleanParts rooted kept cs
      else if c = dotdot then
        (case kept of
           [] \<Rightarrow> cleanParts rooted (if rooted then [] else [dotdot]) cs
         | k # ks \<Rightarrow> cleanParts rooted (if k = dotdot then dotdot # kept else ks) cs)
      else cleanParts rooted (c # kept) cs)"

definition isRooted :: "string \<Rightarrow> bool" where
  "isRooted p \<longleftrightarrow> p \<noteq> [] \<and> hd p = sep"

definition mkPath :: "bool \<Rightarrow> string list \<Rightarrow> string" where
  "mkPath rooted ps =
     (if rooted then sep # joinSlash ps else if ps = [] then dot else joinSlash ps)"

definition parts :: "string \<Rightarrow> string list" where
  "parts p = cleanParts (isRooted p) [] (splitSlash p)"

definition Clean :: "string \<Rightarrow> string" where
  "Clean p = mkPath (isRooted p) (parts p)"

definition Join :: "string \<Rightarrow> string \<Rightarrow> string" where
  "Join a b =
     (if a \<noteq> [] then Clean (a @ sep # b) else if b \<noteq> [] then Clean b else [])"

definition Base :: "string \<Rightarrow> string" where
  "Base p =
     (if p = [] then dot
      else let q = rev (dropWhile (\<lambda>c. c = sep) (rev p));
               b = rev (takeWhile (\<lambda>c. c \<noteq> sep) (rev q))
           in if b = [] then [sep] else b)"

definition Dir :: "string \<Rightarrow> string" where
  "Dir p = Clean (rev (dropWhile (\<lambda>c. c \<noteq> sep) (rev p)))"

section \<open>Splitting and joining\<close>

text \<open>A component: not empty and without a separator.\<close>

definition comp :: "string \<Rightarrow> bool" where
  "comp p \<longleftrightarrow> p \<noteq> [] \<and> sep \<notin> set p"

lemma splitSlash_nonempty [simp]: "splitSlash p \<noteq> []"
  by (induction p) (auto split: list.splits)

lemma splitSlash_no_sep: "c \<in> set (splitSlash p) \<Longrightarrow> sep \<notin> set c"
  by (induction p arbitrary: c) (auto split: if_splits list.splits)

lemma splitSlash_plain: "sep \<notin> set p \<Longrightarrow> splitSlash p = [p]"
  by (induction p) auto

lemma splitSlash_append: "splitSlash (p @ sep # q) = splitSlash p @ splitSlash q"
  by (induction p) (auto split: list.splits)

lemma split_joinSlash: "\<forall>p\<in>set ps. sep \<notin> set p \<Longrightarrow> ps \<noteq> [] \<Longrightarrow> splitSlash (joinSlash ps) = ps"
  by (induction ps rule: joinSlash.induct) (auto simp: splitSlash_plain splitSlash_append)

lemma joinSlash_Cons: "ps \<noteq> [] \<Longrightarrow> joinSlash (p # ps) = p @ sep # joinSlash ps"
  by (cases ps) auto

lemma joinSlash_append: "ps \<noteq> [] \<Longrightarrow> qs \<noteq> [] \<Longrightarrow> joinSlash (ps @ qs) = joinSlash ps @ sep # joinSlash qs"
  by (induction ps rule: joinSlash.induct) (auto simp: joinSlash_Cons)

section \<open>Clean components\<close>

text \<open>
  A proper name, and clean component lists in reverse: proper names, after leading \<^verbatim>\<open>..\<close> in a
  relative path.
\<close>

definition proper :: "string \<Rightarrow> bool" where
  "proper c \<longleftrightarrow> comp c \<and> c \<noteq> dot \<and> c \<noteq> dotdot"

fun cleanKept :: "bool \<Rightarrow> string list \<Rightarrow> bool" where
  "cleanKept rooted [] = True"
| "cleanKept rooted (k # ks) =
     (if k = dotdot then \<not> rooted \<and> (\<forall>x\<in>set ks. x = dotdot) else proper k \<and> cleanKept rooted ks)"

lemma dotdot_comp [simp]: "comp dotdot" "dotdot \<noteq> []" "dotdot \<noteq> dot"
  by (simp_all add: comp_def dotdot_def dot_def)

lemma cleanKept_dotdots: "\<not> rooted \<Longrightarrow> \<forall>x\<in>set ks. x = dotdot \<Longrightarrow> cleanKept rooted ks"
  by (cases ks) auto

lemma cleanKept_comp: "cleanKept rooted ks \<Longrightarrow> c \<in> set ks \<Longrightarrow> comp c"
  by (induction ks) (auto simp: proper_def split: if_splits)

lemma cleanParts_clean:
  "cleanKept rooted kept \<Longrightarrow> \<forall>c\<in>set cs. sep \<notin> set c \<Longrightarrow> cleanKept rooted (rev (cleanParts rooted kept cs))"
proof (induction cs arbitrary: kept)
  case Nil
  then show ?case by simp
next
  case (Cons c cs)
  consider "c = [] \<or> c = dot" | "c = dotdot" | "proper c"
    using Cons.prems(2) by (auto simp: proper_def comp_def)
  then show ?case
  proof cases
    case 1
    then show ?thesis using Cons by simp
  next
    case 2
    show ?thesis
    proof (cases kept)
      case Nil
      then show ?thesis using 2 Cons by simp
    next
      case (Cons k ks)
      have "cleanKept rooted (if k = dotdot then dotdot # kept else ks)"
        using Cons Cons.prems(1) by (auto split: if_splits)
      then show ?thesis using 2 Cons Cons.IH Cons.prems(2) by (cases "k = dotdot") simp_all
    qed
  next
    case 3
    then show ?thesis using Cons by (simp add: proper_def comp_def)
  qed
qed

lemma parts_clean: "cleanKept (isRooted p) (rev (parts p))"
  unfolding parts_def by (rule cleanParts_clean) (auto dest: splitSlash_no_sep)

lemma parts_comp: "c \<in> set (parts p) \<Longrightarrow> comp c"
  using cleanKept_comp [OF parts_clean] by simp

text \<open>Clean components are pushed unchanged.\<close>

lemma cleanKept_suffix: "cleanKept rooted (xs @ ks) \<Longrightarrow> cleanKept rooted ks"
  by (induction xs) (auto split: if_splits intro: cleanKept_dotdots)

lemma cleanParts_push:
  "cleanKept rooted (rev ps @ kept) \<Longrightarrow> cleanParts rooted kept (ps @ cs) = cleanParts rooted (rev ps @ kept) cs"
proof (induction ps arbitrary: kept)
  case Nil
  then show ?case by simp
next
  case (Cons p ps)
  then have p: "cleanKept rooted (p # kept)" using cleanKept_suffix [of rooted "rev ps" "p # kept"] by simp
  then have "cleanParts rooted kept (p # ps @ cs) = cleanParts rooted (p # kept) (ps @ cs)"
    by (cases kept) (auto simp: proper_def comp_def split: if_splits)
  then show ?case using Cons by simp
qed

section \<open>Clean paths\<close>

lemma comp_hd: "comp c \<Longrightarrow> c \<noteq> [] \<and> hd c \<noteq> sep"
  by (cases c) (auto simp: comp_def)

lemma isRooted_joinSlash: "\<forall>p\<in>set ps. comp p \<Longrightarrow> \<not> isRooted (joinSlash ps)"
  by (induction ps rule: joinSlash.induct) (auto simp: isRooted_def dest!: comp_hd)

lemma isRooted_mkPath [simp]: "\<forall>p\<in>set ps. comp p \<Longrightarrow> isRooted (mkPath rooted ps) = rooted"
  using isRooted_joinSlash [of ps] by (auto simp: mkPath_def isRooted_def dot_def)

lemma splitSlash_mkPath:
  assumes "\<forall>p\<in>set ps. comp p" "ps \<noteq> []"
  shows "splitSlash (mkPath rooted ps) = (if rooted then [] # ps else ps)"
  using assms split_joinSlash [of ps] by (simp add: mkPath_def comp_def)

lemma cleanParts_split_mkPath:
  assumes "cleanKept rooted (rev ps)"
  shows "cleanParts rooted [] (splitSlash (mkPath rooted ps) @ cs) = cleanParts rooted (rev ps) cs"
proof (cases "ps = []")
  case True
  then show ?thesis by (simp add: mkPath_def dot_def)
next
  case False
  have "\<forall>p\<in>set ps. comp p" using cleanKept_comp [OF assms] by simp
  then show ?thesis using cleanParts_push [of rooted ps "[]"] assms False by (cases rooted) (simp_all add: splitSlash_mkPath)
qed

lemma parts_mkPath:
  assumes "cleanKept rooted (rev ps)"
  shows "parts (mkPath rooted ps) = ps" "isRooted (mkPath rooted ps) = rooted" "Clean (mkPath rooted ps) = mkPath rooted ps"
proof -
  have c: "\<forall>p\<in>set ps. comp p" using cleanKept_comp [OF assms] by simp
  then show r: "isRooted (mkPath rooted ps) = rooted" by simp
  show p: "parts (mkPath rooted ps) = ps"
    using cleanParts_split_mkPath [OF assms, of "[]"] by (simp add: parts_def r)
  show "Clean (mkPath rooted ps) = mkPath rooted ps" by (simp add: Clean_def p r)
qed

lemma Clean_Clean [simp]: "Clean (Clean p) = Clean p"
  unfolding Clean_def [of p] by (rule parts_mkPath(3) [OF parts_clean])

lemma parts_Clean [simp]: "parts (Clean p) = parts p"
  unfolding Clean_def by (rule parts_mkPath(1) [OF parts_clean])

lemma isRooted_Clean [simp]: "isRooted (Clean p) = isRooted p"
  unfolding Clean_def by (rule parts_mkPath(2) [OF parts_clean])

lemma Clean_nonempty [simp]: "Clean p \<noteq> []"
proof -
  have "\<forall>c\<in>set (parts p). comp c" by (simp add: parts_comp)
  then show ?thesis by (cases "parts p" rule: joinSlash.cases) (auto simp: Clean_def mkPath_def dot_def comp_def)
qed

text \<open>Joining a name to a directory continues cleaning from the directory's components.\<close>

lemma Join_Clean:
  "Join (Clean d) name = mkPath (isRooted d) (cleanParts (isRooted d) (rev (parts d)) (splitSlash name))"
  "parts (Join (Clean d) name) = cleanParts (isRooted d) (rev (parts d)) (splitSlash name)"
  "isRooted (Join (Clean d) name) = isRooted d"
  "Clean (Join (Clean d) name) = Join (Clean d) name"
proof -
  let ?p = "Clean d @ sep # name"
  have r: "isRooted ?p = isRooted d" using isRooted_Clean [of d] by (simp add: isRooted_def)
  have "parts ?p = cleanParts (isRooted d) [] (splitSlash (Clean d) @ splitSlash name)"
    by (simp only: parts_def [of ?p] r splitSlash_append)
  then have p: "parts ?p = cleanParts (isRooted d) (rev (parts d)) (splitSlash name)"
    using cleanParts_split_mkPath [OF parts_clean, of d "splitSlash name"] by (simp only: Clean_def)
  have j: "Join (Clean d) name = Clean ?p" by (simp add: Join_def)
  show "Join (Clean d) name = mkPath (isRooted d) (cleanParts (isRooted d) (rev (parts d)) (splitSlash name))"
    by (simp add: j Clean_def [of ?p] r p)
  show "parts (Join (Clean d) name) = cleanParts (isRooted d) (rev (parts d)) (splitSlash name)" by (simp add: j p)
  show "isRooted (Join (Clean d) name) = isRooted d" by (simp add: j r)
  show "Clean (Join (Clean d) name) = Join (Clean d) name" by (simp add: j)
qed

text \<open>Cleaning goes on where it stopped, so joining does not depend on whether the directory is clean.\<close>

lemma cleanParts_append: "cleanParts r kept (xs @ ys) = cleanParts r (rev (cleanParts r kept xs)) ys"
proof (induction xs arbitrary: kept)
  case Nil
  then show ?case by simp
next
  case (Cons x xs)
  then show ?case by (cases kept) simp_all
qed

lemma Join_dirty: "d \<noteq> [] \<Longrightarrow> Join d name = Join (Clean d) name"
proof -
  assume d: "d \<noteq> []"
  have r: "isRooted (d @ sep # name) = isRooted d" using d by (simp add: isRooted_def)
  have "parts (d @ sep # name) = cleanParts (isRooted d) (rev (parts d)) (splitSlash name)"
    by (simp only: parts_def r splitSlash_append cleanParts_append)
  then show ?thesis using d r by (simp add: Join_def [of d] Clean_def [of "d @ sep # name"] Join_Clean(1))
qed

text \<open>Joining a proper name.\<close>

lemma Join_proper: "d \<noteq> [] \<Longrightarrow> proper b \<Longrightarrow> Join d b = mkPath (isRooted d) (parts d @ [b])"
proof -
  assume "d \<noteq> []" "proper b"
  then have "splitSlash b = [b]" "b \<noteq> []" "b \<noteq> dot" "b \<noteq> dotdot"
    by (auto simp: proper_def comp_def splitSlash_plain)
  then show ?thesis using Join_dirty [OF \<open>d \<noteq> []\<close>, of b] by (simp add: Join_Clean(1))
qed

lemma mkPath_snoc_append: "mkPath r (ps @ [b]) @ x = mkPath r (ps @ [b @ x])"
  by (cases "ps = []") (simp_all add: mkPath_def joinSlash_append)

section \<open>The prefix test\<close>

lemma prefix_joinSlash:
  assumes "\<forall>p\<in>set ds. sep \<notin> set p" "\<forall>p\<in>set ps. sep \<notin> set p" "ds \<noteq> []" "ps \<noteq> []"
  shows "prefix (joinSlash ds @ [sep]) (joinSlash ps @ [sep]) \<longleftrightarrow> prefix ds ps"
proof
  assume "prefix (joinSlash ds @ [sep]) (joinSlash ps @ [sep])"
  then obtain zs where "joinSlash ps @ sep # [] = joinSlash ds @ sep # zs" by (auto simp: prefix_def)
  then have "splitSlash (joinSlash ps @ sep # []) = splitSlash (joinSlash ds @ sep # zs)" by simp
  then have "ps @ [[]] = ds @ splitSlash zs" using assms by (simp add: splitSlash_append split_joinSlash)
  then have "ps = ds @ butlast (splitSlash zs)" by (metis butlast_append butlast_snoc splitSlash_nonempty)
  then show "prefix ds ps" by (simp add: prefix_def)
next
  assume "prefix ds ps"
  then obtain rest where "ps = ds @ rest" by (auto simp: prefix_def)
  then show "prefix (joinSlash ds @ [sep]) (joinSlash ps @ [sep])"
    using assms(3) by (cases "rest = []") (simp_all add: joinSlash_append)
qed

lemma prefix_mkPath:
  assumes "cleanKept rooted (rev ds)" "\<forall>p\<in>set ps. comp p" "ds \<noteq> []"
  shows "prefix (mkPath rooted ds @ [sep]) (mkPath rooted ps @ [sep]) \<longleftrightarrow> prefix ds ps"
proof -
  have ds: "\<forall>p\<in>set ds. comp p" using cleanKept_comp [OF assms(1)] by simp
  show ?thesis
  proof (cases "ps = []")
    case True
    have "splitSlash (joinSlash ds) = ds" using split_joinSlash [of ds] ds assms(3) by (simp add: comp_def)
    then have "joinSlash ds \<noteq> []" "joinSlash ds \<noteq> dot"
      using assms(1) ds by (auto simp: dot_def comp_def proper_def dotdot_def)
    then show ?thesis
      using True assms(3) isRooted_joinSlash [OF ds]
      by (cases "joinSlash ds") (auto simp: mkPath_def isRooted_def dot_def)
  next
    case False
    then show ?thesis
      using prefix_joinSlash [of ds ps] assms(2,3) ds by (auto simp: mkPath_def comp_def)
  qed
qed

lemma mkPath_inject:
  assumes "cleanKept rooted (rev ds)" "cleanKept rooted (rev ps)"
  shows "mkPath rooted ds = mkPath rooted ps \<longleftrightarrow> ds = ps"
  using parts_mkPath(1) [OF assms(1)] parts_mkPath(1) [OF assms(2)] by metis

text \<open>After a proper name only proper names follow.\<close>

lemma cleanKept_proper:
  "cleanKept rooted (rev (ds @ rest)) \<Longrightarrow> ds \<noteq> [] \<Longrightarrow> last ds \<noteq> dotdot \<Longrightarrow> \<forall>c\<in>set rest. proper c"
proof (induction rest rule: rev_induct)
  case Nil
  then show ?case by simp
next
  case (snoc c rest)
  have "c \<noteq> dotdot"
  proof
    assume "c = dotdot"
    then have "\<forall>x\<in>set (rev (ds @ rest)). x = dotdot" using snoc.prems(1) by simp
    then have "last ds = dotdot" using snoc.prems(2) by simp
    then show False using snoc.prems(3) by simp
  qed
  then show ?case using snoc by simp
qed

end
