(* ===== verification/Archive.thy ===== *)
theory Archive
  imports Paths
begin

text \<open>
  Unpacking an archive, \<open>extractTar\<close> of \<^verbatim>\<open>pkg/transfer/archive.go\<close>, on a file system that maps clean
  paths to nodes. The tar reader is the sequence of entries it yields and the error that ends it; what
  the operating system refuses is a function from paths to errors.
\<close>

section \<open>File system\<close>

datatype node = DirNode | FileNode bytes nat

type_synonym fs = "string \<rightharpoonup> node"
type_synonym refusal = "string \<Rightarrow> error option"

definition ancestors :: "string \<Rightarrow> string list" where
  "ancestors p = map (\<lambda>k. mkPath (isRooted p) (take (Suc k) (parts p))) [0..<length (parts p)]"

fun mkdirs :: "refusal \<Rightarrow> string list \<Rightarrow> fs \<Rightarrow> fs \<times> error option" where
  "mkdirs deny [] f = (f, None)"
| "mkdirs deny (q # qs) f =
     (case f q of
        Some DirNode \<Rightarrow> mkdirs deny qs f
      | Some (FileNode _ _) \<Rightarrow> (f, Some (Errorf ''not a directory''))
      | None \<Rightarrow> (case deny q of
                  Some e \<Rightarrow> (f, Some e)
                | None \<Rightarrow> mkdirs deny qs (f(q \<mapsto> DirNode))))"

definition MkdirAll :: "refusal \<Rightarrow> string \<Rightarrow> fs \<Rightarrow> fs \<times> error option" where
  "MkdirAll deny p f = mkdirs deny (ancestors p) f"

text \<open>\<^verbatim>\<open>os.OpenFile\<close> with create and truncate: an existing file keeps its mode.\<close>

definition OpenTrunc :: "refusal \<Rightarrow> string \<Rightarrow> nat \<Rightarrow> fs \<Rightarrow> fs \<times> error option" where
  "OpenTrunc deny p mode f =
     (case (deny p, f p) of
        (Some e, _) \<Rightarrow> (f, Some e)
      | (None, Some DirNode) \<Rightarrow> (f, Some (Errorf ''is a directory''))
      | (None, Some (FileNode _ m)) \<Rightarrow> (f(p \<mapsto> FileNode [] m), None)
      | (None, None) \<Rightarrow> (f(p \<mapsto> FileNode [] mode), None))"

definition writeOpened :: "string \<Rightarrow> bytes \<Rightarrow> fs \<Rightarrow> fs" where
  "writeOpened p data f =
     (case f p of Some (FileNode _ m) \<Rightarrow> f(p \<mapsto> FileNode data m) | _ \<Rightarrow> f)"

section \<open>Unpacking\<close>

datatype typeflag = TypeDir | TypeReg | TypeOther

text \<open>An entry with its contents, and the error of reading them if they are cut short.\<close>

record tarEntry =
  te_Name :: string
  te_Typeflag :: typeflag
  te_Mode :: nat
  te_Data :: bytes
  te_Err :: "error option"

text \<open>The check of one entry's path.\<close>

definition unsafePath :: "string \<Rightarrow> string \<Rightarrow> bool" where
  "unsafePath cleanDest target \<longleftrightarrow>
     target \<noteq> cleanDest \<and> \<not> prefix (cleanDest @ [sep]) (Clean target @ [sep])"

definition extractEntry :: "refusal \<Rightarrow> string \<Rightarrow> tarEntry \<Rightarrow> fs \<Rightarrow> fs \<times> error option" where
  "extractEntry deny cleanDest hdr f =
     (let target = Join cleanDest (te_Name hdr) in
      if unsafePath cleanDest target then (f, Some (Errorf ''transfer: unsafe path in archive''))
      else case te_Typeflag hdr of
             TypeDir \<Rightarrow> MkdirAll deny target f
           | TypeReg \<Rightarrow>
               (case MkdirAll deny (Dir target) f of
                  (f1, Some e) \<Rightarrow> (f1, Some e)
                | (f1, None) \<Rightarrow>
                    (case OpenTrunc deny target (te_Mode hdr) f1 of
                       (f2, Some e) \<Rightarrow> (f2, Some e)
                     | (f2, None) \<Rightarrow> (writeOpened target (te_Data hdr) f2, te_Err hdr)))
           | TypeOther \<Rightarrow> (f, None))"

fun extractLoop :: "refusal \<Rightarrow> string \<Rightarrow> tarEntry list \<Rightarrow> error \<Rightarrow> fs \<Rightarrow> fs \<times> error option" where
  "extractLoop deny cleanDest [] endErr f = (f, if endErr = IoEOF then None else Some endErr)"
| "extractLoop deny cleanDest (hdr # hdrs) endErr f =
     (case extractEntry deny cleanDest hdr f of
        (f', Some e) \<Rightarrow> (f', Some e)
      | (f', None) \<Rightarrow> extractLoop deny cleanDest hdrs endErr f')"

definition extractTar :: "refusal \<Rightarrow> tarEntry list \<Rightarrow> error \<Rightarrow> string \<Rightarrow> fs \<Rightarrow> fs \<times> error option" where
  "extractTar deny entries endErr destDir f = extractLoop deny (Clean destDir) entries endErr f"

section \<open>The check\<close>

text \<open>\<open>p\<close> lies strictly below the directory \<open>d\<close>.\<close>

definition inside :: "string \<Rightarrow> string \<Rightarrow> bool" where
  "inside d p \<longleftrightarrow> (\<exists>rest. rest \<noteq> [] \<and> (\<forall>c\<in>set rest. proper c) \<and> p = mkPath (isRooted d) (parts d @ rest))"

lemma Join_parts_clean: "cleanKept (isRooted d) (rev (parts (Join (Clean d) name)))"
  using parts_clean [of "Join (Clean d) name"] by (simp add: Join_Clean(3))

lemma Join_mkPath: "Join (Clean d) name = mkPath (isRooted d) (parts (Join (Clean d) name))"
  using Join_Clean(1,2) [of d name] by simp

lemma unsafePath_iff:
  assumes "parts d \<noteq> []"
  shows "unsafePath (Clean d) (Join (Clean d) name) \<longleftrightarrow> \<not> prefix (parts d) (parts (Join (Clean d) name))"
proof -
  let ?ps = "parts (Join (Clean d) name)"
  have "\<forall>p\<in>set ?ps. comp p" using parts_comp by blast
  then have "prefix (Clean d @ [sep]) (Join (Clean d) name @ [sep]) \<longleftrightarrow> prefix (parts d) ?ps"
    using prefix_mkPath [OF parts_clean [of d] _ assms, of ?ps]
    by (simp only: Join_mkPath [symmetric] Clean_def [of d, symmetric])
  moreover have "Join (Clean d) name = Clean d \<longleftrightarrow> ?ps = parts d"
    using mkPath_inject [OF Join_parts_clean parts_clean, of d name]
    by (simp only: Join_mkPath [symmetric] Clean_def [of d, symmetric])
  ultimately show ?thesis by (auto simp: unsafePath_def Join_Clean(4))
qed

lemma safe_target:
  assumes "parts d \<noteq> []" "last (parts d) \<noteq> dotdot" "\<not> unsafePath (Clean d) (Join (Clean d) name)"
  shows "\<exists>rest. (\<forall>c\<in>set rest. proper c) \<and> parts (Join (Clean d) name) = parts d @ rest \<and>
    Join (Clean d) name = mkPath (isRooted d) (parts d @ rest)"
proof -
  obtain rest where rest: "parts (Join (Clean d) name) = parts d @ rest"
    using assms(1,3) by (auto simp: unsafePath_iff prefix_def)
  then have "\<forall>c\<in>set rest. proper c"
    using cleanKept_proper [of "isRooted d" "parts d" rest] Join_parts_clean [of d name] assms(1,2) by simp
  with rest show ?thesis using Join_mkPath [of d name] by auto
qed

section \<open>What unpacking changes\<close>

lemma mkdirs_changes: "mkdirs deny qs f = (f', e) \<Longrightarrow> f' p \<noteq> f p \<Longrightarrow> p \<in> set qs \<and> f p = None"
proof (induction qs arbitrary: f)
  case Nil
  then show ?case by simp
next
  case (Cons q qs)
  consider (skip) "mkdirs deny qs f = (f', e)" | (same) "f' = f"
    | (new) "f q = None" "mkdirs deny qs (f(q \<mapsto> DirNode)) = (f', e)"
    using Cons.prems(1) by (auto split: option.splits node.splits)
  then show ?case
  proof cases
    case new
    then show ?thesis using Cons.IH [OF new(2)] Cons.prems(2) by (cases "p = q") auto
  qed (use Cons in auto)
qed

lemma mkdirs_existing: "mkdirs deny qs f = (f', e) \<Longrightarrow> f p = Some n \<Longrightarrow> f' p = Some n"
  using mkdirs_changes [of deny qs f f' e p] by auto

lemma ancestors_mkPath:
  assumes "p = mkPath r ps" "cleanKept r (rev ps)"
  shows "ancestors p = map (\<lambda>k. mkPath r (take (Suc k) ps)) [0..<length ps]"
  using assms parts_mkPath [OF assms(2)] by (simp add: ancestors_def)

text \<open>The ancestors of a path below the directory are the directory's own or below it.\<close>

lemma ancestors_inside:
  assumes "q \<in> set (ancestors p)" "p = mkPath (isRooted d) (parts d @ rest)" "\<forall>c\<in>set rest. proper c"
  shows "q \<in> set (ancestors (Clean d)) \<or> inside d q"
proof -
  have cl: "cleanKept (isRooted d) (rev (parts d @ rest))"
    using assms(3) parts_clean [of d] by (induction rest rule: rev_induct) (auto simp: proper_def)
  obtain k where k: "k < length (parts d @ rest)" "q = mkPath (isRooted d) (take (Suc k) (parts d @ rest))"
    using assms(1) ancestors_mkPath [OF assms(2) cl] by auto
  show ?thesis
  proof (cases "k < length (parts d)")
    case True
    then show ?thesis using k(2) by (simp add: ancestors_def)
  next
    case False
    then have "q = mkPath (isRooted d) (parts d @ take (Suc k - length (parts d)) rest)" "0 < Suc k - length (parts d)"
      using k(2) by auto
    moreover have "rest \<noteq> []" using False k(1) by auto
    ultimately show ?thesis
      using assms(3) in_set_takeD [of _ _ rest] unfolding inside_def
      by (intro disjI2 exI [of _ "take (Suc k - length (parts d)) rest"]) (auto simp: take_eq_Nil)
  qed
qed

lemma Dir_mkPath:
  assumes "cleanKept r (rev (ps @ [c]))"
  shows "Dir (mkPath r (ps @ [c])) = mkPath r ps"
proof -
  have c: "comp c" "\<forall>p\<in>set ps. comp p" using cleanKept_comp [OF assms] by auto
  have ps: "cleanKept r (rev ps)" using cleanKept_suffix [of r "[c]" "rev ps"] assms by simp
  have nosep: "\<forall>x\<in>set (rev c). x \<noteq> sep" using c(1) by (auto simp: comp_def)
  have drop: "rev (dropWhile (\<lambda>c. c \<noteq> sep) (rev (x @ sep # c))) = x @ [sep]" for x
    using dropWhile_append2 [of "rev c" "\<lambda>c. c \<noteq> sep" "sep # rev x"] nosep by simp
  show ?thesis
  proof (cases "ps = []")
    case True
    have dw: "dropWhile (\<lambda>c. c \<noteq> sep) (rev c) = []" using nosep by (simp only: dropWhile_eq_Nil_conv)
    have "Dir c = Clean []" unfolding Dir_def dw by simp
    moreover have "Dir (sep # c) = Clean [sep]" using drop [of "[]"] by (simp add: Dir_def)
    ultimately show ?thesis
      using True by (cases r) (simp_all add: mkPath_def Clean_def isRooted_def parts_def)
  next
    case False
    then have "mkPath r (ps @ [c]) = mkPath r ps @ sep # c" by (simp add: mkPath_def joinSlash_append)
    then have "Dir (mkPath r (ps @ [c])) = Join (Clean (mkPath r ps)) []"
      by (simp only: Dir_def drop) (use parts_mkPath(3) [OF ps] Clean_nonempty [of "mkPath r ps"] in \<open>simp add: Join_def\<close>)
    then show ?thesis using Join_Clean(1) [of "mkPath r ps" "[]"] parts_mkPath [OF ps] by simp
  qed
qed

lemma parts_snoc_cases: obtains "ps = []" | qs c where "ps = qs @ [c]"
  by (cases ps rule: rev_cases) auto

text \<open>The parent of a target that passed the check creates nothing outside the directory either.\<close>

lemma Dir_ancestors_inside:
  assumes "target = mkPath (isRooted d) (parts d @ rest)" "\<forall>c\<in>set rest. proper c" "parts d \<noteq> []"
    and "q \<in> set (ancestors (Dir target))"
  shows "q \<in> set (ancestors (Clean d)) \<or> inside d q"
proof -
  have cl: "cleanKept (isRooted d) (rev (parts d @ rest))"
    using assms(2) parts_clean [of d] by (induction rest rule: rev_induct) (auto simp: proper_def)
  show ?thesis
  proof (cases rest rule: rev_cases)
    case Nil
    obtain qs c where qs: "parts d = qs @ [c]" using assms(3) by (metis rev_exhaust)
    then have "Dir target = mkPath (isRooted d) qs" using Dir_mkPath [of "isRooted d" qs c] cl Nil assms(1) by simp
    moreover have "cleanKept (isRooted d) (rev qs)"
      using cleanKept_suffix [of "isRooted d" "[c]" "rev qs"] cl Nil qs by (simp del: cleanKept.simps)
    ultimately have "ancestors (Dir target) = map (\<lambda>k. mkPath (isRooted d) (take (Suc k) qs)) [0..<length qs]"
      by (rule ancestors_mkPath)
    then show ?thesis using assms(4) qs by (auto simp: ancestors_def)
  next
    case (snoc rs r)
    then have "Dir target = mkPath (isRooted d) (parts d @ rs)"
      using Dir_mkPath [of "isRooted d" "parts d @ rs" r] cl assms(1) by simp
    then show ?thesis using ancestors_inside [OF assms(4)] assms(2) snoc by simp
  qed
qed

text \<open>The destination exists: it and its ancestors are directories.\<close>

definition dir_exists :: "fs \<Rightarrow> string \<Rightarrow> bool" where
  "dir_exists f d \<longleftrightarrow> (\<forall>q\<in>set (ancestors (Clean d)). f q = Some DirNode)"

lemma ancestors_Clean: "ancestors (Clean d) = map (\<lambda>k. mkPath (isRooted d) (take (Suc k) (parts d))) [0..<length (parts d)]"
  by (simp add: ancestors_def)

lemma ancestors_self:
  assumes "parts d \<noteq> []"
  shows "Clean d \<in> set (ancestors (Clean d))"
proof -
  have "Clean d = mkPath (isRooted d) (take (Suc (length (parts d) - 1)) (parts d))"
    using assms by (simp add: Clean_def)
  moreover have "length (parts d) - 1 \<in> set [0..<length (parts d)]" using assms by simp
  ultimately show ?thesis unfolding ancestors_Clean set_map by (rule image_eqI)
qed

lemma extractEntry_changes:
  assumes d: "parts d \<noteq> []" "last (parts d) \<noteq> dotdot" and dir: "dir_exists f d"
    and ex: "extractEntry deny (Clean d) hdr f = (f', e)" and ch: "f' p \<noteq> f p"
  shows "inside d p"
proof -
  let ?t = "Join (Clean d) (te_Name hdr)"
  have safe: "\<not> unsafePath (Clean d) ?t" using ex ch by (auto simp: extractEntry_def Let_def)
  obtain rest where rest: "\<forall>c\<in>set rest. proper c" "?t = mkPath (isRooted d) (parts d @ rest)"
    using safe_target [OF d safe] by blast
  have no_dest: "q \<notin> set (ancestors (Clean d))" if "f q \<noteq> Some DirNode" for q
    using dir that by (auto simp: dir_exists_def)
  have mk: "inside d p" if "MkdirAll deny q f = (g, x)" "g p \<noteq> f p" "q = ?t \<or> q = Dir ?t" for q g x
  proof -
    have "p \<in> set (ancestors q)" "f p = None" using mkdirs_changes [of deny "ancestors q" f g x p] that by (auto simp: MkdirAll_def)
    then show ?thesis
      using that(3) ancestors_inside [OF _ rest(2,1)] Dir_ancestors_inside [OF rest(2,1) d(1)] no_dest by fastforce
  qed
  consider (dir) "MkdirAll deny ?t f = (f', e)"
    | (reg) g x where "MkdirAll deny (Dir ?t) f = (g, x)" "f' = g \<or> (x = None \<and> (\<forall>q. q \<noteq> ?t \<longrightarrow> f' q = g q) \<and> (g ?t = Some DirNode \<longrightarrow> f' = g))"
    using ex ch safe
    by (auto simp: extractEntry_def Let_def OpenTrunc_def writeOpened_def split: typeflag.splits prod.splits option.splits node.splits if_splits)
  then show ?thesis
  proof cases
    case dir
    then show ?thesis using mk ch by blast
  next
    case reg
    show ?thesis
    proof (cases "g p = f p")
      case False
      then show ?thesis using mk reg(1) by blast
    next
      case True
      then have p: "p = ?t" using reg(2) ch by auto
      then have "f ?t \<noteq> Some DirNode" using reg(2) ch True by auto
      then have "?t \<noteq> Clean d" using dir d(1) ancestors_self unfolding dir_exists_def by metis
      then have "rest \<noteq> []" using rest(2) by (auto simp: Clean_def)
      then show ?thesis using p rest unfolding inside_def by blast
    qed
  qed
qed

lemma inside_not_ancestor:
  assumes "inside d p"
  shows "p \<notin> set (ancestors (Clean d))"
proof
  obtain rest where rest: "rest \<noteq> []" "\<forall>c\<in>set rest. proper c" "p = mkPath (isRooted d) (parts d @ rest)"
    using assms by (auto simp: inside_def)
  have cl: "cleanKept (isRooted d) (rev (parts d @ rest))"
    using rest(2) parts_clean [of d] by (induction rest rule: rev_induct) (auto simp: proper_def)
  assume "p \<in> set (ancestors (Clean d))"
  then obtain k where k: "k < length (parts d)" "p = mkPath (isRooted d) (take (Suc k) (parts d))"
    by (auto simp: ancestors_Clean)
  have "cleanKept (isRooted d) (rev (take (Suc k) (parts d)))"
    using cleanKept_suffix [of "isRooted d" "rev (drop (Suc k) (parts d))" "rev (take (Suc k) (parts d))"] parts_clean [of d]
    by (metis append_take_drop_id rev_append)
  with cl have "take (Suc k) (parts d) = parts d @ rest" using k(2) rest(3) mkPath_inject by metis
  then have "length (take (Suc k) (parts d)) = length (parts d @ rest)" by simp
  then show False using k(1) rest(1) by (cases rest) auto
qed

lemma extractLoop_changes:
  assumes d: "parts d \<noteq> []" "last (parts d) \<noteq> dotdot"
  shows "dir_exists f d \<Longrightarrow> extractLoop deny (Clean d) hdrs endErr f = (f', e) \<Longrightarrow> f' p \<noteq> f p \<Longrightarrow> inside d p"
proof (induction hdrs arbitrary: f)
  case Nil
  then show ?case by simp
next
  case (Cons hdr hdrs)
  obtain g x where g: "extractEntry deny (Clean d) hdr f = (g, x)" by force
  have ch: "inside d q" if "g q \<noteq> f q" for q by (rule extractEntry_changes [OF d Cons.prems(1) g that])
  then have dir: "dir_exists g d" using Cons.prems(1) inside_not_ancestor unfolding dir_exists_def by metis
  show ?case
  proof (cases "g p = f p")
    case True
    then show ?thesis using Cons.IH [OF dir] Cons.prems(2,3) g by (auto split: option.splits)
  qed (rule ch)
qed

section \<open>What unpacking writes\<close>

lemma mkdirs_keeps_file: "mkdirs deny qs f = (f', e) \<Longrightarrow> f p = Some (FileNode a m) \<Longrightarrow> f' p = Some (FileNode a m)"
  by (rule mkdirs_existing)

lemma extractEntry_writes:
  assumes "extractEntry deny dst hdr f = (f', None)" "te_Typeflag hdr = TypeReg"
  shows "\<exists>m. f' (Join dst (te_Name hdr)) = Some (FileNode (te_Data hdr) m)"
  using assms
  by (auto simp: extractEntry_def Let_def OpenTrunc_def writeOpened_def split: if_splits prod.splits option.splits node.splits)

lemma extractEntry_keeps:
  assumes "extractEntry deny dst hdr f = (f', None)" "f p = Some (FileNode a m)"
    and "te_Typeflag hdr = TypeReg \<longrightarrow> Join dst (te_Name hdr) \<noteq> p"
  shows "f' p = Some (FileNode a m)"
proof (cases "te_Typeflag hdr")
  case TypeDir
  then show ?thesis
    using assms mkdirs_keeps_file [of deny "ancestors (Join dst (te_Name hdr))" f f' None p]
    by (auto simp: extractEntry_def Let_def MkdirAll_def split: if_splits)
next
  case TypeReg
  obtain g x where g: "MkdirAll deny (Dir (Join dst (te_Name hdr))) f = (g, x)" by force
  then have "g p = Some (FileNode a m)"
    using mkdirs_keeps_file [of deny _ f g x p] assms(2) by (auto simp: MkdirAll_def)
  then show ?thesis
    using assms TypeReg g
    by (auto simp: extractEntry_def Let_def OpenTrunc_def writeOpened_def split: if_splits prod.splits option.splits node.splits)
next
  case TypeOther
  then show ?thesis using assms by (auto simp: extractEntry_def Let_def split: if_splits)
qed

lemma extractLoop_keeps:
  "extractLoop deny dst hdrs endErr f = (f', None) \<Longrightarrow> f p = Some (FileNode a m) \<Longrightarrow>
   \<forall>h\<in>set hdrs. te_Typeflag h = TypeReg \<longrightarrow> Join dst (te_Name h) \<noteq> p \<Longrightarrow> f' p = Some (FileNode a m)"
proof (induction hdrs arbitrary: f)
  case Nil
  then show ?case by simp
next
  case (Cons h hdrs)
  obtain g where g: "extractEntry deny dst h f = (g, None)" "extractLoop deny dst hdrs endErr g = (f', None)"
    using Cons.prems(1) by (auto split: prod.splits option.splits)
  then show ?case using Cons.IH [OF g(2)] extractEntry_keeps [OF g(1) Cons.prems(2)] Cons.prems(3) by simp
qed

section \<open>Properties\<close>


text \<open>
  Successful unpacking writes the files: afterwards every regular-file entry that is not replaced by
  a later entry of the same path is a file with exactly the entry's contents at its place in the
  destination, and the archive was read to its end.
\<close>

theorem extract_writes_files:
  assumes "extractTar deny (before @ hdr # later) endErr destDir f = (f', None)" and "te_Typeflag hdr = TypeReg"
    and "\<forall>h\<in>set later. te_Typeflag h = TypeReg \<longrightarrow>
      Join (Clean destDir) (te_Name h) \<noteq> Join (Clean destDir) (te_Name hdr)"
  shows "endErr = IoEOF \<and> (\<exists>m. f' (Join (Clean destDir) (te_Name hdr)) = Some (FileNode (te_Data hdr) m))"
proof -
  have "endErr = IoEOF \<and> (\<exists>m. f' (Join dst (te_Name hdr)) = Some (FileNode (te_Data hdr) m))"
    if "extractLoop deny dst (before @ hdr # later) endErr f = (f', None)"
      "\<forall>h\<in>set later. te_Typeflag h = TypeReg \<longrightarrow> Join dst (te_Name h) \<noteq> Join dst (te_Name hdr)" for dst
    using that
  proof (induction before arbitrary: f)
    case Nil
    then obtain g where g: "extractEntry deny dst hdr f = (g, None)" "extractLoop deny dst later endErr g = (f', None)"
      by (auto split: prod.splits option.splits)
    have "endErr = IoEOF" using g(2) by (induction later arbitrary: g) (auto split: if_splits prod.splits option.splits)
    with extractEntry_writes [OF g(1) assms(2)] extractLoop_keeps [OF g(2)] Nil.prems(2) show ?case by blast
  next
    case (Cons h before)
    then show ?case by (auto split: prod.splits option.splits)
  qed
  then show ?thesis using assms(1,3) by (simp add: extractTar_def)
qed

text \<open>An entry and a file system for examples.\<close>

definition exampleEntry :: "string \<Rightarrow> tarEntry" where
  "exampleEntry name = \<lparr>te_Name = name, te_Typeflag = TypeReg, te_Mode = 420, te_Data = [1, 2], te_Err = None\<rparr>"

definition exampleFs :: fs where
  "exampleFs = [''/home'' \<mapsto> DirNode, ''/home/u'' \<mapsto> DirNode]"


theorem extract_writes_files_witness:
  "\<exists>f' m. extractTar (\<lambda>_. None) ([] @ exampleEntry ''d/a'' # []) IoEOF ''/home/u'' exampleFs = (f', None) \<and>
     f' (Join (Clean ''/home/u'') ''d/a'') = Some (FileNode [1, 2] m)"
proof -
  let ?x = "extractTar (\<lambda>_. None) ([] @ exampleEntry ''d/a'' # []) IoEOF ''/home/u'' exampleFs"
  have "snd ?x = None" by code_simp
  then have x: "?x = (fst ?x, None)" by (metis prod.collapse)
  with extract_writes_files [OF x] show ?thesis by (auto simp: exampleEntry_def)
qed

text \<open>
  The textual check is not right for every destination. With the destination \<^verbatim>\<open>..\<close> an entry
  \<^verbatim>\<open>../x\<close> passes and is written outside it; with the current directory or the root as destination
  even a plain name is rejected as unsafe.
\<close>

theorem extract_check_limits:
  "fst (extractTar (\<lambda>_. None) [exampleEntry ''../x''] IoEOF ''..'' Map.empty) ''../../x'' = Some (FileNode [1, 2] 420) \<and>
   snd (extractTar (\<lambda>_. None) [exampleEntry ''../x''] IoEOF ''..'' Map.empty) = None \<and>
   extractTar deny (exampleEntry ''a'' # es) endErr ''.'' f = (f, Some (Errorf ''transfer: unsafe path in archive'')) \<and>
   extractTar deny (exampleEntry ''a'' # es) endErr ''/'' f = (f, Some (Errorf ''transfer: unsafe path in archive''))"
proof (intro conjI)
  show "fst (extractTar (\<lambda>_. None) [exampleEntry ''../x''] IoEOF ''..'' Map.empty) ''../../x'' = Some (FileNode [1, 2] 420)"
    by code_simp
  show "snd (extractTar (\<lambda>_. None) [exampleEntry ''../x''] IoEOF ''..'' Map.empty) = None" by code_simp
  have "unsafePath (Clean ''.'') (Join (Clean ''.'') ''a'')" by code_simp
  then show "extractTar deny (exampleEntry ''a'' # es) endErr ''.'' f = (f, Some (Errorf ''transfer: unsafe path in archive''))"
    by (simp add: extractTar_def extractEntry_def exampleEntry_def)
  have "unsafePath (Clean ''/'') (Join (Clean ''/'') ''a'')" by code_simp
  then show "extractTar deny (exampleEntry ''a'' # es) endErr ''/'' f = (f, Some (Errorf ''transfer: unsafe path in archive''))"
    by (simp add: extractTar_def extractEntry_def exampleEntry_def)
qed

end
