(* ===== verification/Tar_Write.thy ===== *)
theory Tar_Write
  imports Archive
begin

text \<open>
  Writing an archive, \<open>writeTar\<close> of \<^verbatim>\<open>pkg/transfer/archive.go\<close>, over a tree of files, and the round trip with
  unpacking. \<^verbatim>\<open>filepath.Walk\<close> visits a directory before its entries, and these in the order of the tree,
  which is that of their names.
\<close>

section \<open>Definitions\<close>

datatype tree = FileTree bytes nat | DirTree nat "(string \<times> tree) list" | SpecialTree

fun stripCommon :: "string list \<Rightarrow> string list \<Rightarrow> string list \<times> string list" where
  "stripCommon (a # as) (b # bs) = (if a = b then stripCommon as bs else (a # as, b # bs))"
| "stripCommon as bs = (as, bs)"

text \<open>\<^verbatim>\<open>filepath.Rel\<close>.\<close>

definition Rel :: "string \<Rightarrow> string \<Rightarrow> string result" where
  "Rel base targ =
     (case stripCommon (parts base) (parts targ) of
        (bs, ts) \<Rightarrow>
          if isRooted base \<noteq> isRooted targ \<or> (bs \<noteq> [] \<and> hd bs = dotdot) then Inl (Errorf ''Rel: cannot make relative'')
          else Inr (mkPath False (replicate (length bs) dotdot @ ts)))"

fun walkTree :: "string \<Rightarrow> tree \<Rightarrow> (string \<times> tree) list" where
  "walkTree file (FileTree c m) = [(file, FileTree c m)]"
| "walkTree file SpecialTree = [(file, SpecialTree)]"
| "walkTree file (DirTree m kids) =
     (file, DirTree m kids) # concat (map (\<lambda>(n, k). walkTree (Join file n) k) kids)"

text \<open>
  What can fail for a visited path: the visit, making or writing the header, opening the file, copying it
  (after so many bytes). A header whose contents do not follow is an entry cut short.
\<close>

record tarEnv =
  tv_walk :: "string \<Rightarrow> error option"
  tv_header :: "string \<Rightarrow> error option"
  tv_put :: "string \<Rightarrow> error option"
  tv_open :: "string \<Rightarrow> error option"
  tv_copy :: "string \<Rightarrow> (nat \<times> error) option"
  tv_close :: "error option"

definition fileInfoHeader :: "tree \<Rightarrow> string \<Rightarrow> tarEntry" where
  "fileInfoHeader t rel =
     (case t of
        DirTree m _ \<Rightarrow> \<lparr>te_Name = rel @ [sep], te_Typeflag = TypeDir, te_Mode = m, te_Data = [], te_Err = None\<rparr>
      | SpecialTree \<Rightarrow> \<lparr>te_Name = rel, te_Typeflag = TypeOther, te_Mode = 0, te_Data = [], te_Err = None\<rparr>
      | FileTree c m \<Rightarrow> \<lparr>te_Name = rel, te_Typeflag = TypeReg, te_Mode = m, te_Data = c, te_Err = None\<rparr>)"

definition cutShort :: "nat \<Rightarrow> tarEntry \<Rightarrow> tarEntry" where
  "cutShort k hdr = hdr\<lparr>te_Data := take k (te_Data hdr), te_Err := Some IoErrUnexpectedEOF\<rparr>"

definition visit :: "tarEnv \<Rightarrow> string \<Rightarrow> string \<times> tree \<Rightarrow> tarEntry list \<times> error option" where
  "visit env base x =
     (case x of (file, t) \<Rightarrow>
      case tv_walk env file of
        Some e \<Rightarrow> ([], Some e)
      | None \<Rightarrow>
          (case Rel base file of
             Inl e \<Rightarrow> ([], Some e)
           | Inr rel \<Rightarrow>
               (case tv_header env file of
                  Some e \<Rightarrow> ([], Some e)
                | None \<Rightarrow>
                    (let hdr = fileInfoHeader t rel in
                     case tv_put env file of
                       Some e \<Rightarrow> ([], Some e)
                     | None \<Rightarrow>
                         (case t of
                            FileTree _ _ \<Rightarrow>
                              (case tv_open env file of
                                 Some e \<Rightarrow> ([cutShort 0 hdr], Some e)
                               | None \<Rightarrow>
                                   (case tv_copy env file of
                                      Some (k, e) \<Rightarrow> ([cutShort k hdr], Some e)
                                    | None \<Rightarrow> ([hdr], None)))
                          | _ \<Rightarrow> ([hdr], None))))))"

fun visitAll :: "tarEnv \<Rightarrow> string \<Rightarrow> (string \<times> tree) list \<Rightarrow> tarEntry list \<times> error option" where
  "visitAll env base [] = ([], None)"
| "visitAll env base (x # xs) =
     (case visit env base x of
        (hs, Some e) \<Rightarrow> (hs, Some e)
      | (hs, None) \<Rightarrow> (case visitAll env base xs of (hs', e) \<Rightarrow> (hs @ hs', e)))"

text \<open>The entries written and the error; \<open>disk\<close> is what is found at a path.\<close>

fun writeTar :: "tarEnv \<Rightarrow> (string \<Rightarrow> tree result) \<Rightarrow> string list \<Rightarrow> tarEntry list \<times> error option" where
  "writeTar env disk [] = ([], tv_close env)"
| "writeTar env disk (p # ps) =
     (let clean = Clean p; base = Dir clean in
      case disk clean of
        Inl e \<Rightarrow> ([], Some e)
      | Inr t \<Rightarrow>
          (case visitAll env base (walkTree clean t) of
             (hs, Some e) \<Rightarrow> (hs, Some e)
           | (hs, None) \<Rightarrow> (case writeTar env disk ps of (hs', e) \<Rightarrow> (hs @ hs', e))))"

section \<open>What is written\<close>

text \<open>The entries of a tree at the components \<open>ps\<close> of the archive.\<close>

fun treeEntries :: "string list \<Rightarrow> tree \<Rightarrow> tarEntry list" where
  "treeEntries ps (FileTree c m) = [\<lparr>te_Name = joinSlash ps, te_Typeflag = TypeReg, te_Mode = m, te_Data = c, te_Err = None\<rparr>]"
| "treeEntries ps SpecialTree = [\<lparr>te_Name = joinSlash ps, te_Typeflag = TypeOther, te_Mode = 0, te_Data = [], te_Err = None\<rparr>]"
| "treeEntries ps (DirTree m kids) =
     \<lparr>te_Name = joinSlash ps @ [sep], te_Typeflag = TypeDir, te_Mode = m, te_Data = [], te_Err = None\<rparr>
     # concat (map (\<lambda>(n, k). treeEntries (ps @ [n]) k) kids)"

text \<open>A tree whose names are proper and distinct among siblings.\<close>

fun tree_ok :: "tree \<Rightarrow> bool" where
  "tree_ok (DirTree m kids) \<longleftrightarrow> distinct (map fst kids) \<and> list_all (\<lambda>(n, k). proper n \<and> tree_ok k) kids"
| "tree_ok _ = True"

definition tar_env_ok :: "tarEnv \<Rightarrow> bool" where
  "tar_env_ok env \<longleftrightarrow> (\<forall>p. tv_walk env p = None \<and> tv_header env p = None \<and> tv_put env p = None \<and> tv_open env p = None \<and> tv_copy env p = None) \<and> tv_close env = None"

lemma clean_snoc: "cleanKept r (rev ps) \<Longrightarrow> \<forall>c\<in>set qs. proper c \<Longrightarrow> cleanKept r (rev (ps @ qs))"
  by (induction qs rule: rev_induct) (auto simp: proper_def)

lemma stripCommon_prefix: "stripCommon bs (bs @ ts) = ([], ts)"
  by (induction bs) (cases ts; simp)+

lemma Rel_below:
  assumes "cleanKept r (rev bs)" "\<forall>c\<in>set ts. proper c" "ts \<noteq> []"
  shows "Rel (mkPath r bs) (mkPath r (bs @ ts)) = Inr (joinSlash ts)"
  using assms parts_mkPath [OF assms(1)] parts_mkPath [OF clean_snoc [OF assms(1,2)]]
  by (simp add: Rel_def stripCommon_prefix mkPath_def)

lemma Join_mkPath_proper:
  assumes "cleanKept r (rev ps)" "proper n"
  shows "Join (mkPath r ps) n = mkPath r (ps @ [n])"
proof -
  have "mkPath r ps \<noteq> []" using parts_mkPath(3) [OF assms(1)] Clean_nonempty by metis
  then show ?thesis using Join_proper [of "mkPath r ps" n] assms(2) parts_mkPath [OF assms(1)] by simp
qed

lemma visitAll_append:
  "visitAll env base (xs @ ys) =
     (case visitAll env base xs of (hs, Some e) \<Rightarrow> (hs, Some e)
      | (hs, None) \<Rightarrow> (case visitAll env base ys of (hs', e) \<Rightarrow> (hs @ hs', e)))"
  by (induction xs) (auto split: sum.splits prod.splits option.splits)

lemma visitAll_concat:
  assumes "\<And>x. x \<in> set xs \<Longrightarrow> visitAll env base (g x) = (h x, None)"
  shows "visitAll env base (concat (map g xs)) = (concat (map h xs), None)"
  using assms by (induction xs) (simp_all add: visitAll_append)

lemma visitAll_tree:
  assumes "tar_env_ok env" "cleanKept r (rev bs)"
  shows "tree_ok t \<Longrightarrow> ps \<noteq> [] \<Longrightarrow> \<forall>c\<in>set ps. proper c \<Longrightarrow>
    visitAll env (mkPath r bs) (walkTree (mkPath r (bs @ ps)) t) = (treeEntries ps t, None)"
proof (induction t arbitrary: ps)
  case (DirTree m kids)
  have env: "visit env (mkPath r bs) (mkPath r (bs @ ps), DirTree m kids) =
      ([\<lparr>te_Name = joinSlash ps @ [sep], te_Typeflag = TypeDir, te_Mode = m, te_Data = [], te_Err = None\<rparr>], None)"
    using assms DirTree.prems Rel_below [OF assms(2) DirTree.prems(3,2)] by (simp add: visit_def tar_env_ok_def fileInfoHeader_def)
  have "visitAll env (mkPath r bs) (walkTree (Join (mkPath r (bs @ ps)) (fst x)) (snd x)) = (treeEntries (ps @ [fst x]) (snd x), None)"
    if x: "x \<in> set kids" for x
  proof -
    have n: "proper (fst x)" "tree_ok (snd x)" using DirTree.prems(1) x by (auto simp: list_all_iff)
    have "Join (mkPath r (bs @ ps)) (fst x) = mkPath r (bs @ ps @ [fst x])"
      using Join_mkPath_proper [OF clean_snoc [OF assms(2) DirTree.prems(3)] n(1)] by simp
    then show ?thesis
      using DirTree.IH [of x "snd x" "ps @ [fst x]"] x n DirTree.prems(3) by (cases x) (auto simp: snds.simps)
  qed
  then have "visitAll env (mkPath r bs) (concat (map (\<lambda>(n, k). walkTree (Join (mkPath r (bs @ ps)) n) k) kids)) =
      (concat (map (\<lambda>(n, k). treeEntries (ps @ [n]) k) kids), None)"
    by (intro visitAll_concat) auto
  then show ?case using env by simp
qed (use assms Rel_below [OF assms(2)] in \<open>simp_all add: visit_def tar_env_ok_def fileInfoHeader_def\<close>)


section \<open>Unpacking what was written\<close>

text \<open>Where the components \<open>qs\<close> of an archive are unpacked.\<close>

definition place :: "string \<Rightarrow> string list \<Rightarrow> string" where
  "place d qs = mkPath (isRooted d) (parts d @ qs)"

lemma place_clean: "\<forall>c\<in>set qs. proper c \<Longrightarrow> cleanKept (isRooted d) (rev (parts d @ qs))"
  by (rule clean_snoc [OF parts_clean])

lemma place_inject: "\<forall>c\<in>set qs. proper c \<Longrightarrow> \<forall>c\<in>set rs. proper c \<Longrightarrow> place d qs = place d rs \<longleftrightarrow> qs = rs"
  using mkPath_inject [OF place_clean place_clean, of qs rs d] by (simp add: place_def)

lemma proper_no_sep: "\<forall>c\<in>set qs. proper c \<Longrightarrow> \<forall>c\<in>set qs. sep \<notin> set c"
  by (simp add: proper_def comp_def)

lemma Join_place:
  assumes "\<forall>c\<in>set qs. proper c" "qs \<noteq> []"
  shows "Join (Clean d) (joinSlash qs) = place d qs" "Join (Clean d) (joinSlash qs @ [sep]) = place d qs"
proof -
  have split: "splitSlash (joinSlash qs) = qs" by (rule split_joinSlash [OF proper_no_sep [OF assms(1)] assms(2)])
  have push: "cleanParts (isRooted d) (rev (parts d)) (qs @ cs) = cleanParts (isRooted d) (rev (parts d @ qs)) cs" for cs
    using cleanParts_push [of "isRooted d" qs "rev (parts d)" cs] place_clean [OF assms(1), of d] by simp
  show "Join (Clean d) (joinSlash qs) = place d qs"
    using push [of "[]"] by (simp add: Join_Clean(1) split place_def)
  show "Join (Clean d) (joinSlash qs @ [sep]) = place d qs"
    using push [of "[[]]"] by (simp add: Join_Clean(1) split place_def splitSlash_append)
qed

lemma place_safe:
  assumes "parts d \<noteq> []" "\<forall>c\<in>set qs. proper c" "qs \<noteq> []"
  shows "\<not> unsafePath (Clean d) (place d qs)"
  using unsafePath_iff [OF assms(1), of "joinSlash qs"] parts_mkPath(1) [OF place_clean [OF assms(2), of d]]
  by (simp add: Join_place(1) [OF assms(2,3)]) (simp add: place_def)

lemma ancestors_place:
  assumes "\<forall>c\<in>set qs. proper c" "proper n"
  shows "ancestors (place d (qs @ [n])) = ancestors (place d qs) @ [place d (qs @ [n])]"
  using ancestors_mkPath [OF refl place_clean [of "qs @ [n]" d]] ancestors_mkPath [OF refl place_clean [OF assms(1), of d]] assms
  by (simp add: place_def)

lemma Dir_place: "\<forall>c\<in>set qs. proper c \<Longrightarrow> proper n \<Longrightarrow> Dir (place d (qs @ [n])) = place d qs"
  using Dir_mkPath [of "isRooted d" "parts d @ qs" n] place_clean [of "qs @ [n]" d] by (simp add: place_def)

lemma mkdirs_append_existing:
  "\<forall>q\<in>set xs. f q = Some DirNode \<Longrightarrow> mkdirs deny (xs @ ys) f = mkdirs deny ys f"
  by (induction xs) auto

text \<open>One entry: a directory or a file whose parent is there and whose place is free.\<close>

lemma extractEntry_place:
  assumes "parts d \<noteq> []" "\<forall>c\<in>set (qs @ [n]). proper c" "\<forall>p\<in>set (ancestors (place d qs)). f p = Some DirNode"
    "f (place d (qs @ [n])) = None"
  shows "extractEntry (\<lambda>_. None) (Clean d)
      \<lparr>te_Name = joinSlash (qs @ [n]) @ [sep], te_Typeflag = TypeDir, te_Mode = m, te_Data = [], te_Err = None\<rparr> f =
      (f(place d (qs @ [n]) \<mapsto> DirNode), None)"
    "extractEntry (\<lambda>_. None) (Clean d)
      \<lparr>te_Name = joinSlash (qs @ [n]), te_Typeflag = TypeReg, te_Mode = m, te_Data = c, te_Err = None\<rparr> f =
      (f(place d (qs @ [n]) \<mapsto> FileNode c m), None)"
  using assms place_safe [OF assms(1,2)] mkdirs_append_existing [OF assms(3), where ys = "[place d (qs @ [n])]"]
    mkdirs_append_existing [OF assms(3), where ys = "[]"]
  by (simp_all add: extractEntry_def Join_place [OF assms(2)] MkdirAll_def ancestors_place Dir_place OpenTrunc_def writeOpened_def)

text \<open>The nodes of a tree with their places, and writing them in order.\<close>

fun treeNodes :: "string \<Rightarrow> string list \<Rightarrow> tree \<Rightarrow> (string \<times> node) list" where
  "treeNodes d ps (FileTree c m) = [(place d ps, FileNode c m)]"
| "treeNodes d ps SpecialTree = []"
| "treeNodes d ps (DirTree m kids) = (place d ps, DirNode) # concat (map (\<lambda>(n, k). treeNodes d (ps @ [n]) k) kids)"

definition putAll :: "fs \<Rightarrow> (string \<times> node) list \<Rightarrow> fs" where
  "putAll f xs = foldl (\<lambda>f (p, n). f(p \<mapsto> n)) f xs"


lemma putAll_append [simp]: "putAll f (xs @ ys) = putAll (putAll f xs) ys"
  by (simp add: putAll_def)

lemma putAll_simps [simp]: "putAll f [] = f" "putAll f ((p, n) # xs) = putAll (f(p \<mapsto> n)) xs"
  by (simp_all add: putAll_def)

lemma putAll_other: "q \<notin> fst ` set xs \<Longrightarrow> putAll f xs q = f q"
  by (induction xs arbitrary: f) (auto split: prod.splits)

lemma tree_ok_kid: "tree_ok (DirTree m kids) \<Longrightarrow> (n, k) \<in> set kids \<Longrightarrow> proper n \<and> tree_ok k"
  by (auto simp: list_all_iff)

lemma treeNodes_places:
  "tree_ok t \<Longrightarrow> q \<in> fst ` set (treeNodes d ps t) \<Longrightarrow> \<exists>ns. (\<forall>c\<in>set ns. proper c) \<and> q = place d (ps @ ns)"
proof (induction t arbitrary: ps)
  case (FileTree c m)
  then show ?case by (auto intro: exI [of _ "[]"])
next
  case (DirTree m kids)
  consider "q = place d ps" | n k where "(n, k) \<in> set kids" "q \<in> fst ` set (treeNodes d (ps @ [n]) k)"
    using DirTree.prems(2) by auto
  then show ?case
  proof cases
    case 1
    then show ?thesis by (auto intro: exI [of _ "[]"])
  next
    case (2 n k)
    then have "proper n" "tree_ok k" using tree_ok_kid [OF DirTree.prems(1)] by auto
    moreover obtain ns where "\<forall>c\<in>set ns. proper c" "q = place d ((ps @ [n]) @ ns)"
      using DirTree.IH [of "(n, k)" k "ps @ [n]"] 2 \<open>tree_ok k\<close> by (auto simp: snds.simps)
    ultimately show ?thesis by (intro exI [of _ "n # ns"]) simp
  qed
qed simp

lemma treeNodes_elsewhere:
  assumes "tree_ok k" "proper n" "\<forall>c\<in>set ps. proper c" "\<forall>c\<in>set rs. proper c" "rs = [] \<or> hd rs \<noteq> n"
  shows "putAll f (treeNodes d (ps @ [n]) k) (place d (ps @ rs)) = f (place d (ps @ rs))"
proof (rule putAll_other, rule notI)
  assume "place d (ps @ rs) \<in> fst ` set (treeNodes d (ps @ [n]) k)"
  then obtain ns where "\<forall>c\<in>set ns. proper c" "place d (ps @ rs) = place d ((ps @ [n]) @ ns)"
    using treeNodes_places [OF assms(1)] by blast
  then have "ps @ rs = (ps @ [n]) @ ns" using place_inject [of "ps @ rs" "(ps @ [n]) @ ns" d] assms by auto
  then show False using assms(5) by auto
qed

text \<open>Nothing is at or below the components yet.\<close>

definition vacant :: "string \<Rightarrow> string list \<Rightarrow> fs \<Rightarrow> bool" where
  "vacant d ps f \<longleftrightarrow> (\<forall>ns. (\<forall>c\<in>set ns. proper c) \<longrightarrow> f (place d (ps @ ns)) = None)"

definition dirsPresent :: "string \<Rightarrow> string list \<Rightarrow> fs \<Rightarrow> bool" where
  "dirsPresent d ps f \<longleftrightarrow> (\<forall>p\<in>set (ancestors (place d ps)). f p = Some DirNode)"

definition unpacks :: "string \<Rightarrow> string list \<Rightarrow> tree \<Rightarrow> bool" where
  "unpacks d ps t \<longleftrightarrow>
     (\<forall>f rest endErr. dirsPresent d (butlast ps) f \<longrightarrow> vacant d ps f \<longrightarrow>
        extractLoop (\<lambda>_. None) (Clean d) (treeEntries ps t @ rest) endErr f =
        extractLoop (\<lambda>_. None) (Clean d) rest endErr (putAll f (treeNodes d ps t)))"

lemma vacant_below: "vacant d ps f \<Longrightarrow> proper n \<Longrightarrow> vacant d (ps @ [n]) f"
  unfolding vacant_def by (intro allI impI) (auto dest: spec [of _ "n # _"])

lemma ancestors_above:
  assumes "\<forall>c\<in>set ps. proper c" "\<forall>c\<in>set ns. proper c" "ns \<noteq> []"
  shows "place d (ps @ ns) \<notin> set (ancestors (place d ps))"
proof
  assume "place d (ps @ ns) \<in> set (ancestors (place d ps))"
  then obtain k where k: "place d (ps @ ns) = mkPath (isRooted d) (take (Suc k) (parts d @ ps))"
    using ancestors_mkPath [OF refl place_clean [OF assms(1), of d]] by (auto simp: place_def)
  have "cleanKept (isRooted d) (rev (take (Suc k) (parts d @ ps)))"
    using cleanKept_suffix [of "isRooted d" "rev (drop (Suc k) (parts d @ ps))"] place_clean [OF assms(1), of d]
    by (metis append_take_drop_id rev_append)
  then have "parts d @ ps @ ns = take (Suc k) (parts d @ ps)"
    using k mkPath_inject place_clean [of "ps @ ns" d] assms unfolding place_def by (metis Un_iff append.assoc set_append)
  then have "length (parts d @ ps @ ns) \<le> length (parts d @ ps)" by (metis length_take min.cobounded1)
  then show False using assms(3) by simp
qed

lemma dirsPresent_putAll:
  assumes "dirsPresent d ps f" "tree_ok k" "proper n" "\<forall>c\<in>set ps. proper c"
  shows "dirsPresent d ps (putAll f (treeNodes d (ps @ [n]) k))"
proof -
  have "q \<notin> fst ` set (treeNodes d (ps @ [n]) k)" if q: "q \<in> set (ancestors (place d ps))" for q
  proof
    assume "q \<in> fst ` set (treeNodes d (ps @ [n]) k)"
    then obtain ns where "\<forall>c\<in>set ns. proper c" "q = place d ((ps @ [n]) @ ns)" using treeNodes_places [OF assms(2)] by blast
    then show False using ancestors_above [OF assms(4), of "n # ns" d] assms(3) q by simp
  qed
  then show ?thesis using assms(1) by (simp add: dirsPresent_def putAll_other)
qed

text \<open>The entries of a directory, once each of them unpacks.\<close>

lemma unpack_kids:
  assumes "\<forall>c\<in>set ps. proper c"
  shows "list_all (\<lambda>(n, k). proper n \<and> tree_ok k \<and> unpacks d (ps @ [n]) k) kids \<Longrightarrow> distinct (map fst kids) \<Longrightarrow>
    dirsPresent d ps f \<Longrightarrow> \<forall>n\<in>fst ` set kids. vacant d (ps @ [n]) f \<Longrightarrow>
    extractLoop (\<lambda>_. None) (Clean d) (concat (map (\<lambda>(n, k). treeEntries (ps @ [n]) k) kids) @ rest) endErr f =
    extractLoop (\<lambda>_. None) (Clean d) rest endErr (putAll f (concat (map (\<lambda>(n, k). treeNodes d (ps @ [n]) k) kids)))"
proof (induction kids arbitrary: f)
  case (Cons x kids)
  obtain n k where x: "x = (n, k)" by force
  let ?g = "putAll f (treeNodes d (ps @ [n]) k)"
  have ok: "proper n" "tree_ok k" "unpacks d (ps @ [n]) k" using Cons.prems(1) x by auto
  have "vacant d (ps @ [n']) ?g" if "n' \<in> fst ` set kids" for n'
  proof -
    have "proper n'" "n' \<noteq> n" "vacant d (ps @ [n']) f" using that Cons.prems x by (auto simp: list_all_iff)
    then show ?thesis
      using treeNodes_elsewhere [OF ok(2,1) assms, of "n' # _"] by (simp add: vacant_def)
  qed
  moreover have "dirsPresent d ps ?g" by (rule dirsPresent_putAll [OF Cons.prems(3) ok(2,1) assms])
  ultimately show ?case
    using Cons.IH [of ?g] Cons.prems ok(3) x unfolding unpacks_def by simp
qed simp

lemma unpack_tree:
  assumes "parts d \<noteq> []"
  shows "tree_ok t \<Longrightarrow> \<forall>c\<in>set (qs @ [n]). proper c \<Longrightarrow> unpacks d (qs @ [n]) t"
proof (induction t arbitrary: qs n)
  case (FileTree c m)
  then show ?case
    using extractEntry_place(2) [OF assms FileTree.prems(2)] by (auto simp: unpacks_def dirsPresent_def vacant_def dest: spec [of _ "[]"])
next
  case SpecialTree
  then show ?case
    using place_safe [OF assms SpecialTree.prems(2)] by (simp add: unpacks_def extractEntry_def Join_place [OF SpecialTree.prems(2)])
next
  case (DirTree m kids)
  have kids: "list_all (\<lambda>(n', k). proper n' \<and> tree_ok k \<and> unpacks d ((qs @ [n]) @ [n']) k) kids"
    using DirTree.IH [of _ _ "qs @ [n]"] DirTree.prems by (fastforce simp: list_all_iff snds.simps)
  show ?case
    unfolding unpacks_def
  proof (intro allI impI)
    fix f rest endErr
    assume pre: "dirsPresent d (butlast (qs @ [n])) f" and vac: "vacant d (qs @ [n]) f"
    let ?g = "f(place d (qs @ [n]) \<mapsto> DirNode)"
    have "f (place d (qs @ [n])) = None" using vac unfolding vacant_def by (metis append_Nil2 empty_iff empty_set)
    then have entry: "extractEntry (\<lambda>_. None) (Clean d)
        \<lparr>te_Name = joinSlash (qs @ [n]) @ [sep], te_Typeflag = TypeDir, te_Mode = m, te_Data = [], te_Err = None\<rparr> f = (?g, None)"
      using extractEntry_place(1) [OF assms DirTree.prems(2)] pre by (simp add: dirsPresent_def)
    have "dirsPresent d (qs @ [n]) ?g" using pre DirTree.prems(2) by (auto simp: dirsPresent_def ancestors_place)
    moreover have "vacant d ((qs @ [n]) @ [n']) ?g" if n': "n' \<in> fst ` set kids" for n'
    proof -
      have "proper n'" using n' kids by (auto simp: list_all_iff)
      moreover have "place d ((qs @ [n]) @ n' # ns) \<noteq> place d (qs @ [n])" if "\<forall>c\<in>set ns. proper c" for ns
        using place_inject [of "(qs @ [n]) @ n' # ns" "qs @ [n]" d] DirTree.prems(2) \<open>proper n'\<close> that by auto
      ultimately show ?thesis using vacant_below [OF vac, of n'] by (simp add: vacant_def)
    qed
    ultimately show "extractLoop (\<lambda>_. None) (Clean d) (treeEntries (qs @ [n]) (DirTree m kids) @ rest) endErr f =
        extractLoop (\<lambda>_. None) (Clean d) rest endErr (putAll f (treeNodes d (qs @ [n]) (DirTree m kids)))"
      using unpack_kids [OF DirTree.prems(2) kids, where f = ?g and rest = rest and endErr = endErr] DirTree.prems(1) entry by simp
  qed
qed


text \<open>What a tree has at the components below its root.\<close>

fun nodeAt :: "tree \<Rightarrow> string list \<Rightarrow> node option" where
  "nodeAt (FileTree c m) [] = Some (FileNode c m)"
| "nodeAt (DirTree m kids) [] = Some DirNode"
| "nodeAt (DirTree m kids) (n # ns) = (case map_of kids n of Some k \<Rightarrow> nodeAt k ns | None \<Rightarrow> None)"
| "nodeAt _ _ = None"

definition orElse :: "'a option \<Rightarrow> 'a option \<Rightarrow> 'a option" where
  "orElse a b = (case a of Some x \<Rightarrow> Some x | None \<Rightarrow> b)"

lemma orElse_simps [simp]: "orElse None b = b" "orElse (Some x) b = Some x"
  by (simp_all add: orElse_def)

definition found :: "string \<Rightarrow> string list \<Rightarrow> tree \<Rightarrow> bool" where
  "found d ps t \<longleftrightarrow>
     (\<forall>f ns. (\<forall>c\<in>set ns. proper c) \<longrightarrow>
        putAll f (treeNodes d ps t) (place d (ps @ ns)) = orElse (nodeAt t ns) (f (place d (ps @ ns))))"

lemma found_kids:
  assumes "\<forall>c\<in>set ps. proper c" "\<forall>c\<in>set ns. proper c" "proper n"
  shows "list_all (\<lambda>(n, k). proper n \<and> tree_ok k \<and> found d (ps @ [n]) k) kids \<Longrightarrow> distinct (map fst kids) \<Longrightarrow>
    putAll f (concat (map (\<lambda>(n, k). treeNodes d (ps @ [n]) k) kids)) (place d (ps @ n # ns)) =
    orElse (nodeAt (DirTree m kids) (n # ns)) (f (place d (ps @ n # ns)))"
proof (induction kids arbitrary: f)
  case (Cons x kids)
  obtain n' k where x: "x = (n', k)" by force
  have k: "proper n'" "tree_ok k" "found d (ps @ [n']) k" using Cons.prems(1) x by auto
  let ?g = "putAll f (treeNodes d (ps @ [n']) k)"
  have IH: "putAll ?g (concat (map (\<lambda>(n, k). treeNodes d (ps @ [n]) k) kids)) (place d (ps @ n # ns)) =
      orElse (nodeAt (DirTree m kids) (n # ns)) (?g (place d (ps @ n # ns)))"
    using Cons.IH [of ?g] Cons.prems by simp
  show ?case
  proof (cases "n' = n")
    case True
    then have "map_of kids n = None" using Cons.prems(2) x by (auto simp: map_of_eq_None_iff)
    then show ?thesis using IH k(3) True x assms(2) by (simp add: found_def)
  next
    case False
    then show ?thesis using IH x treeNodes_elsewhere [OF k(2,1) assms(1), of "n # ns" f d] assms(2,3) by simp
  qed
qed simp

lemma kids_at_root:
  "\<forall>c\<in>set ps. proper c \<Longrightarrow> list_all (\<lambda>(n, k). proper n \<and> tree_ok k) kids \<Longrightarrow>
   putAll f (concat (map (\<lambda>(n, k). treeNodes d (ps @ [n]) k) kids)) (place d ps) = f (place d ps)"
proof (induction kids arbitrary: f)
  case (Cons x kids)
  obtain n k where x: "x = (n, k)" by force
  then show ?case using Cons treeNodes_elsewhere [of k n ps "[]" f d] by simp
qed simp

lemma found_tree: "tree_ok t \<Longrightarrow> \<forall>c\<in>set ps. proper c \<Longrightarrow> found d ps t"
proof (induction t arbitrary: ps)
  case (FileTree c m)
  have "place d (ps @ ns) \<noteq> place d ps" if "ns \<noteq> []" "\<forall>c\<in>set ns. proper c" for ns
    using place_inject [of "ps @ ns" ps d] FileTree.prems(2) that by auto
  then show ?case unfolding found_def by (intro allI impI) (case_tac ns; simp)
next
  case (DirTree m kids)
  have kids: "list_all (\<lambda>(n, k). proper n \<and> tree_ok k \<and> found d (ps @ [n]) k) kids"
    using DirTree.IH [of _ _ "ps @ [_]"] DirTree.prems by (fastforce simp: list_all_iff snds.simps)
  show ?case
    unfolding found_def
  proof (intro allI impI)
    fix f ns
    assume ns: "\<forall>c\<in>set ns. proper c"
    let ?g = "f(place d ps \<mapsto> DirNode)"
    show "putAll f (treeNodes d ps (DirTree m kids)) (place d (ps @ ns)) = orElse (nodeAt (DirTree m kids) ns) (f (place d (ps @ ns)))"
    proof (cases ns)
      case Nil
      then show ?thesis using kids_at_root [OF DirTree.prems(2), of kids ?g d] DirTree.prems(1) by simp
    next
      case (Cons n ns')
      then have "place d (ps @ ns) \<noteq> place d ps" using place_inject [of "ps @ ns" ps d] DirTree.prems(2) ns by auto
      then show ?thesis
        using found_kids [OF DirTree.prems(2) _ _ kids, of ns' n ?g m] DirTree.prems(1) ns Cons by simp
    qed
  qed
qed (simp add: found_def)

section \<open>Several paths\<close>

definition rootsOf :: "(string \<Rightarrow> tree result) \<Rightarrow> string list \<Rightarrow> (string \<times> tree) list" where
  "rootsOf disk paths = map (\<lambda>p. (last (parts p), projr (disk (Clean p)))) paths"

text \<open>A path that can be sent: it ends in a name, and what is there has names of its own.\<close>

definition sendable :: "(string \<Rightarrow> tree result) \<Rightarrow> string \<Rightarrow> bool" where
  "sendable disk p \<longleftrightarrow> parts p \<noteq> [] \<and> last (parts p) \<noteq> dotdot \<and> (case disk (Clean p) of Inr t \<Rightarrow> tree_ok t | Inl _ \<Rightarrow> False)"

lemma sendable_split:
  assumes "parts p \<noteq> []" "last (parts p) \<noteq> dotdot"
  shows "\<exists>bs. cleanKept (isRooted p) (rev bs) \<and> proper (last (parts p)) \<and> Dir (Clean p) = mkPath (isRooted p) bs \<and>
    Clean p = mkPath (isRooted p) (bs @ [last (parts p)])"
proof -
  obtain bs n where bs: "parts p = bs @ [n]" using assms(1) by (metis rev_exhaust)
  have cl: "cleanKept (isRooted p) (rev (bs @ [n]))" using parts_clean [of p] bs by simp
  then have "cleanKept (isRooted p) (rev bs)" "proper n" using assms(2) bs by auto
  then show ?thesis using Dir_mkPath [OF cl] bs by (auto simp: Clean_def)
qed

lemma writeTar_entries:
  assumes "tar_env_ok env"
  shows "list_all (sendable disk) paths \<Longrightarrow>
    writeTar env disk paths = (concat (map (\<lambda>(n, t). treeEntries [n] t) (rootsOf disk paths)), None)"
proof (induction paths)
  case Nil
  then show ?case using assms by (simp add: rootsOf_def tar_env_ok_def)
next
  case (Cons p paths)
  obtain t where t: "disk (Clean p) = Inr t" "tree_ok t" using Cons.prems by (auto simp: sendable_def split: sum.splits)
  obtain bs where bs: "cleanKept (isRooted p) (rev bs)" "proper (last (parts p))" "Dir (Clean p) = mkPath (isRooted p) bs"
      "Clean p = mkPath (isRooted p) (bs @ [last (parts p)])"
    using sendable_split [of p] Cons.prems by (auto simp: sendable_def)
  have "visitAll env (Dir (Clean p)) (walkTree (Clean p) t) = (treeEntries [last (parts p)] t, None)"
    using visitAll_tree [OF assms bs(1) t(2), of "[last (parts p)]"] bs(2) by (simp add: bs(3,4) [symmetric])
  then show ?case using Cons t(1) by (simp add: rootsOf_def)
qed

lemma place_inside: "\<forall>c\<in>set ns. proper c \<Longrightarrow> ns \<noteq> [] \<Longrightarrow> inside d (place d ns)"
  unfolding inside_def place_def by blast

lemma place_nil: "place d [] = Clean d"
  by (simp add: place_def Clean_def)


text \<open>Packing and unpacking, the core of the properties on archives and on directory transfer.\<close>

lemma unpack_written:
  assumes "tar_env_ok env" and "list_all (sendable disk) paths" and "distinct (map (\<lambda>p. last (parts p)) paths)"
    and "parts d \<noteq> []" and "dir_exists f d" and "list_all (\<lambda>p. vacant d [last (parts p)] f) paths"
  shows "\<exists>f'. snd (writeTar env disk paths) = None \<and>
    extractTar (\<lambda>_. None) (fst (writeTar env disk paths)) IoEOF d f = (f', None) \<and>
    (\<forall>n ns. list_all proper (n # ns) \<longrightarrow>
       f' (place d (n # ns)) =
       (case map_of (rootsOf disk paths) n of Some t \<Rightarrow> nodeAt t ns | None \<Rightarrow> f (place d (n # ns)))) \<and>
    (\<forall>q. \<not> inside d q \<longrightarrow> f' q = f q)"
proof -
  let ?roots = "rootsOf disk paths" and ?nodes = "concat (map (\<lambda>(n, t). treeNodes d ([] @ [n]) t) (rootsOf disk paths))"
  have ok: "proper n \<and> tree_ok t \<and> vacant d [n] f" if nt: "(n, t) \<in> set ?roots" for n t
  proof -
    obtain p where p: "p \<in> set paths" "n = last (parts p)" "t = projr (disk (Clean p))" using nt by (auto simp: rootsOf_def)
    then have "sendable disk p" using assms(2) by (simp add: list_all_iff)
    then show ?thesis using sendable_split [of p] p assms(6) by (auto simp: sendable_def list_all_iff split: sum.splits)
  qed
  have dist: "distinct (map fst ?roots)" using assms(3) by (simp add: rootsOf_def o_def)
  have unp: "list_all (\<lambda>(n, t). proper n \<and> tree_ok t \<and> unpacks d ([] @ [n]) t) ?roots"
    using ok unpack_tree [OF assms(4), of _ "[]"] by (fastforce simp: list_all_iff)
  have fnd: "list_all (\<lambda>(n, t). proper n \<and> tree_ok t \<and> found d ([] @ [n]) t) ?roots"
    using ok found_tree by (fastforce simp: list_all_iff)
  have "dirsPresent d [] f" using assms(5) by (simp add: dirsPresent_def dir_exists_def place_nil)
  then have ext: "extractTar (\<lambda>_. None) (fst (writeTar env disk paths)) IoEOF d f = (putAll f ?nodes, None)"
    using unpack_kids [OF _ unp dist, where f = f and rest = "[]" and endErr = IoEOF] ok
    by (simp add: extractTar_def writeTar_entries [OF assms(1,2)] image_iff split_paired_all)
  have look: "putAll f ?nodes (place d (n # ns)) =
      (case map_of ?roots n of Some t \<Rightarrow> nodeAt t ns | None \<Rightarrow> f (place d (n # ns)))" if ns: "list_all proper (n # ns)" for n ns
  proof -
    have "putAll f ?nodes (place d (n # ns)) = orElse (nodeAt (DirTree 0 ?roots) (n # ns)) (f (place d (n # ns)))"
      using found_kids [OF _ _ _ fnd dist, of ns n f 0] ns by (simp add: list_all_iff)
    moreover have "f (place d (n # ns)) = None" if "map_of ?roots n = Some t" for t
      using ok [OF map_of_SomeD [OF that]] ns by (simp add: vacant_def list_all_iff)
    ultimately show ?thesis by (cases "map_of ?roots n") (auto simp: orElse_def split: option.splits)
  qed
  have "putAll f ?nodes q = f q" if "\<not> inside d q" for q
  proof (rule putAll_other, rule notI)
    assume "q \<in> fst ` set ?nodes"
    then obtain n t where nt: "(n, t) \<in> set ?roots" "q \<in> fst ` set (treeNodes d [n] t)" by auto
    then obtain ns where "\<forall>c\<in>set ns. proper c" "q = place d ([n] @ ns)" using ok treeNodes_places by blast
    then show False using that place_inside [of "n # ns" d] ok [OF nt(1)] by simp
  qed
  with ext look show ?thesis by (auto simp: writeTar_entries [OF assms(1,2)])
qed

text \<open>The parent directory.\<close>

lemma parent_refused:
  assumes "tar_env_ok env" and "disk ''..'' = Inr (DirTree m kids)" and "parts d \<noteq> []" and "last (parts d) \<noteq> ''..''"
  shows "extractTar deny (fst (writeTar env disk [''..''])) endErr d f =
    (f, Some (Errorf ''transfer: unsafe path in archive''))"
proof -
  have "Clean ''..'' = ''..''" "Dir ''..'' = ''.''" "Rel ''.'' ''..'' = Inr ''..''" by code_simp+
  then have "\<exists>hs. fst (writeTar env disk [''..'']) =
      \<lparr>te_Name = ''../'', te_Typeflag = TypeDir, te_Mode = m, te_Data = [], te_Err = None\<rparr> # hs"
    using assms(1,2) by (auto simp: visit_def fileInfoHeader_def tar_env_ok_def split: prod.splits option.splits)
  then obtain hs where hs: "fst (writeTar env disk [''..'']) =
      \<lparr>te_Name = ''../'', te_Typeflag = TypeDir, te_Mode = m, te_Data = [], te_Err = None\<rparr> # hs" by blast
  obtain ds n where n: "parts d = ds @ [n]" using assms(3) by (metis rev_exhaust)
  have "splitSlash ''../'' = [dotdot, []]" by code_simp
  then have "parts (Join (Clean d) ''../'') = ds"
    using n assms(4) dotdot_comp by (simp add: Join_Clean(2) dotdot_def)
  then have "unsafePath (Clean d) (Join (Clean d) ''../'')" using unsafePath_iff [OF assms(3)] n by (auto simp: prefix_def)
  then show ?thesis unfolding extractTar_def hs by (simp add: extractEntry_def)
qed

section \<open>Properties\<close>

text \<open>
  What is packed is what is unpacked. When every path to send ends in a name, the names differ and
  nothing fails on the way, the archive that is written unpacks into an existing destination without error;
  afterwards the destination has, below each of the names, exactly the directories and files of the tree
  that was sent, with their contents and modes (links and devices are left out), and every other path is as before.
\<close>

theorem archive_roundtrip:
  assumes "tar_env_ok env" and "list_all (sendable disk) paths" and "distinct (map (\<lambda>p. last (parts p)) paths)"
    and "parts d \<noteq> []" and "dir_exists f d" and "list_all (\<lambda>p. vacant d [last (parts p)] f) paths"
  shows "\<exists>f'. snd (writeTar env disk paths) = None \<and>
    extractTar (\<lambda>_. None) (fst (writeTar env disk paths)) IoEOF d f = (f', None) \<and>
    (\<forall>n ns. list_all proper (n # ns) \<longrightarrow>
       f' (place d (n # ns)) =
       (case map_of (rootsOf disk paths) n of Some t \<Rightarrow> nodeAt t ns | None \<Rightarrow> f (place d (n # ns)))) \<and>
    (\<forall>q. \<not> inside d q \<longrightarrow> f' q = f q)"
  by (rule unpack_written [OF assms])

text \<open>
  C28: Two arguments that cannot be sent. A symbolic link (followed by the check that decides how to send, but
  not by the walk) is packed as a single entry that the receiver skips: unpacking reports success and leaves
  nothing. The parent directory is packed under the name \<^verbatim>\<open>../\<close>, which the receiver refuses as unsafe for every
  destination that ends in a name.
\<close>

theorem archive_lost_paths:
  assumes "tar_env_ok env" and "disk (Clean p) = Inr SpecialTree" and "parts p \<noteq> []" and "last (parts p) \<noteq> ''..''"
    and "disk ''..'' = Inr (DirTree m kids)" and "parts d \<noteq> []" and "last (parts d) \<noteq> ''..''"
  shows "extractTar deny (fst (writeTar env disk [p])) IoEOF d f = (f, None) \<and> snd (writeTar env disk [p]) = None \<and>
    extractTar deny (fst (writeTar env disk [''..''])) endErr d f =
      (f, Some (Errorf ''transfer: unsafe path in archive''))"
proof (intro conjI)
  have s: "list_all (sendable disk) [p]" using assms(2-4) by (simp add: sendable_def dotdot_def)
  have n: "proper (last (parts p))" using sendable_split [of p] assms(3,4) by (auto simp: dotdot_def)
  show "snd (writeTar env disk [p]) = None" using writeTar_entries [OF assms(1) s] by (simp del: writeTar.simps)
  show "extractTar deny (fst (writeTar env disk [p])) IoEOF d f = (f, None)"
    using writeTar_entries [OF assms(1) s] place_safe [OF assms(6), of "[last (parts p)]"] Join_place(1) [of "[last (parts p)]" d] n assms(2)
    by (simp add: extractTar_def rootsOf_def extractEntry_def del: writeTar.simps)
qed (use parent_refused [where disk = disk] assms in blast)

text \<open>A directory with a file, a subdirectory and a link for examples.\<close>

definition exampleTree :: tree where
  "exampleTree = DirTree 493 [(''a'', FileTree [7] 420), (''b'', DirTree 493 [(''c'', FileTree [] 384)]), (''l'', SpecialTree)]"

definition exampleTarEnv :: tarEnv where
  "exampleTarEnv = \<lparr>tv_walk = \<lambda>_. None, tv_header = \<lambda>_. None, tv_put = \<lambda>_. None, tv_open = \<lambda>_. None,
     tv_copy = \<lambda>_. None, tv_close = None\<rparr>"

lemma vacant_example: "vacant ''/home/u'' [''x''] exampleFs"
proof -
  have "place ''/home/u'' (''x'' # ns) = ''/home/u/x'' @ (if ns = [] then [] else sep # joinSlash ns)" for ns
  proof -
    have p: "isRooted ''/home/u''" "parts ''/home/u'' = [''home'', ''u'']" by code_simp+
    show ?thesis by (cases ns) (simp_all add: place_def p mkPath_def)
  qed
  then show ?thesis by (simp add: vacant_def exampleFs_def)
qed

lemma dir_exists_example: "dir_exists exampleFs ''/home/u''"
  by (simp add: dir_exists_def exampleFs_def) code_simp

lemma tar_env_ok_example: "tar_env_ok exampleTarEnv"
  by (simp add: tar_env_ok_def exampleTarEnv_def)

theorem archive_roundtrip_witness:
  "\<exists>f'. extractTar (\<lambda>_. None) (fst (writeTar exampleTarEnv (\<lambda>_. Inr exampleTree) [''/srv/./x''])) IoEOF ''/home/u'' exampleFs = (f', None) \<and>
     f' (place ''/home/u'' [''x'', ''b'', ''c'']) = Some (FileNode [] 384) \<and> f' (place ''/home/u'' [''x'', ''l'']) = None"
proof -
  note tar_env_ok_example
  moreover have "list_all (sendable (\<lambda>_. Inr exampleTree)) [''/srv/./x'']" by code_simp
  moreover have last: "last (parts ''/srv/./x'') = ''x''" by code_simp
  moreover have "parts ''/home/u'' \<noteq> []" by code_simp
  moreover note dir_exists_example
  moreover note vacant_example
  ultimately obtain f' where f': "extractTar (\<lambda>_. None) (fst (writeTar exampleTarEnv (\<lambda>_. Inr exampleTree) [''/srv/./x''])) IoEOF ''/home/u'' exampleFs = (f', None)"
    and look: "\<forall>n ns. list_all proper (n # ns) \<longrightarrow> f' (place ''/home/u'' (n # ns)) =
       (case map_of (rootsOf (\<lambda>_. Inr exampleTree) [''/srv/./x'']) n of Some t \<Rightarrow> nodeAt t ns | None \<Rightarrow> exampleFs (place ''/home/u'' (n # ns)))"
    using archive_roundtrip [of exampleTarEnv "\<lambda>_. Inr exampleTree" "[''/srv/./x'']" "''/home/u''" exampleFs] by auto
  have "list_all proper [''x'', ''b'', ''c'']" "list_all proper [''x'', ''l'']" by code_simp+
  then have "f' (place ''/home/u'' [''x'', ''b'', ''c'']) = Some (FileNode [] 384)" "f' (place ''/home/u'' [''x'', ''l'']) = None"
    using look by (simp_all add: rootsOf_def last exampleTree_def)
  with f' show ?thesis by blast
qed

text \<open>A disk with that directory as the parent and a link everywhere else.\<close>

definition exampleDisk :: "string \<Rightarrow> tree result" where
  "exampleDisk p = (if p = ''..'' then Inr exampleTree else Inr SpecialTree)"

theorem archive_lost_paths_witness:
  "extractTar (\<lambda>_. None) (fst (writeTar exampleTarEnv exampleDisk [''l'']))
     IoEOF ''/home/u'' exampleFs = (exampleFs, None)"
proof -
  note tar_env_ok_example
  moreover have "exampleDisk (Clean ''l'') = Inr SpecialTree" by code_simp
  moreover have "parts ''l'' \<noteq> []" "last (parts ''l'') \<noteq> ''..''" "parts ''/home/u'' \<noteq> []" "last (parts ''/home/u'') \<noteq> ''..''"
    by code_simp+
  moreover have "exampleDisk ''..'' = Inr (DirTree 493 [(''a'', FileTree [7] 420), (''b'', DirTree 493 [(''c'', FileTree [] 384)]), (''l'', SpecialTree)])"
    by (simp add: exampleDisk_def exampleTree_def)
  ultimately show ?thesis
    using archive_lost_paths [of exampleTarEnv exampleDisk "''l''" 493 _ "''/home/u''" "\<lambda>_. None" exampleFs] by blast
qed

end
