(* ===== verification/File_Transfer.thy ===== *)
theory File_Transfer
  imports Archive "HOL-Library.Signed_Division"
begin

text \<open>
  Single-stream file transfer, \<^verbatim>\<open>pkg/transfer/transfer.go\<close>, \<^verbatim>\<open>send.go\<close> and \<^verbatim>\<open>receive.go\<close>. A JSON message is
  its document (keys and values, text syntax left out); SHA-256 is a function argument, and so is what
  the tar reader yields for given bytes. The inbound channel is the list of messages that arrive and
  what follows them.
\<close>

section \<open>Messages\<close>

datatype jval = JStr string | JNum int | JNums "int list"

type_synonym doc = "(string \<times> jval) list"

datatype Msg = BinaryMsg bytes | JsonMsg doc | OtherMsg

record Header =
  h_Kind :: string
  h_Name :: string
  h_Size :: int
  h_Mode :: nat
  h_SHA256 :: string
  h_Streams :: int

record Trailer =
  t_SHA256 :: string
  t_Total :: int

definition zero_Header :: Header where
  "zero_Header = \<lparr>h_Kind = [], h_Name = [], h_Size = 0, h_Mode = 0, h_SHA256 = [], h_Streams = 0\<rparr>"

definition ChunkSize :: nat where "ChunkSize = 512 * 1024"

definition marshalHeader :: "Header \<Rightarrow> Msg" where
  "marshalHeader h = JsonMsg
     ([(''t'', JStr ''header''), (''kind'', JStr (h_Kind h)), (''name'', JStr (h_Name h)),
       (''size'', JNum (h_Size h)), (''mode'', JNum (int (h_Mode h)))]
      @ (if h_SHA256 h = [] then [] else [(''sha256'', JStr (h_SHA256 h))])
      @ (if h_Streams h = 0 then [] else [(''streams'', JNum (h_Streams h))]))"

definition marshalTrailer :: "Trailer \<Rightarrow> Msg" where
  "marshalTrailer t = JsonMsg
     [(''t'', JStr ''trailer''), (''sha256'', JStr (t_SHA256 t)), (''total'', JNum (t_Total t))]"

definition marshalDone :: Msg where "marshalDone = JsonMsg [(''t'', JStr ''done'')]"

definition ChatHello :: Msg where "ChatHello = JsonMsg [(''t'', JStr ''chat'')]"

text \<open>Decoding a field into a Go string or integer: the last occurrence of the key counts.\<close>

definition strField :: "doc \<Rightarrow> string \<Rightarrow> string option" where
  "strField d k = (case map_of (rev d) k of
     None \<Rightarrow> Some [] | Some (JStr s) \<Rightarrow> Some s | Some _ \<Rightarrow> None)"

definition intField :: "int \<Rightarrow> int \<Rightarrow> doc \<Rightarrow> string \<Rightarrow> int option" where
  "intField lo hi d k = (case map_of (rev d) k of
     None \<Rightarrow> Some 0
   | Some (JNum n) \<Rightarrow> if lo \<le> n \<and> n \<le> hi then Some n else None
   | Some _ \<Rightarrow> None)"

abbreviation int64Field :: "doc \<Rightarrow> string \<Rightarrow> int option" where
  "int64Field \<equiv> intField (- (2 ^ 63)) (2 ^ 63 - 1)"

definition unmarshalHeader :: "doc \<Rightarrow> Header option" where
  "unmarshalHeader d =
     (case (strField d ''t'', strField d ''kind'', strField d ''name'', int64Field d ''size'') of
        (Some _, Some kind, Some name, Some sz) \<Rightarrow>
          (case (intField 0 (2 ^ 32 - 1) d ''mode'', strField d ''sha256'', int64Field d ''streams'') of
             (Some mode, Some sha, Some streams) \<Rightarrow>
               Some \<lparr>h_Kind = kind, h_Name = name, h_Size = sz, h_Mode = nat mode, h_SHA256 = sha, h_Streams = streams\<rparr>
           | _ \<Rightarrow> None)
      | _ \<Rightarrow> None)"

definition unmarshalTrailer :: "doc \<Rightarrow> Trailer option" where
  "unmarshalTrailer d =
     (case (strField d ''t'', strField d ''sha256'', int64Field d ''total'') of
        (Some _, Some sha, Some tot) \<Rightarrow> Some \<lparr>t_SHA256 = sha, t_Total = tot\<rparr>
      | _ \<Rightarrow> None)"

definition classify :: "Msg \<Rightarrow> string" where
  "classify m =
     (case m of
        BinaryMsg _ \<Rightarrow> ''data''
      | JsonMsg d \<Rightarrow> (case strField d ''t'' of Some t \<Rightarrow> if t \<noteq> [] then t else ''other'' | None \<Rightarrow> ''other'')
      | OtherMsg \<Rightarrow> ''other'')"

section \<open>Chunks\<close>

definition encodeChunk :: "int \<Rightarrow> bytes \<Rightarrow> bytes" where
  "encodeChunk offset data = PutUint64 (word_of_int offset) @ data"

definition decodeChunk :: "bytes \<Rightarrow> (int \<times> bytes) result" where
  "decodeChunk b =
     (if length b < 8 then Inl (Errorf ''transfer: chunk too short'')
      else Inr (sint (Uint64 (take 8 b)), drop 8 b))"

lemma decode_encodeChunk:
  "- (2 ^ 63) \<le> off \<Longrightarrow> off < 2 ^ 63 \<Longrightarrow> decodeChunk (encodeChunk off data) = Inr (off, data)"
  by (simp add: decodeChunk_def encodeChunk_def codec_simps signed_of_int signed_take_bit_int_eq_self_iff)

section \<open>Sending\<close>

record Stats = st_Bytes :: int

type_synonym 's sender = "'s \<Rightarrow> Msg \<Rightarrow> 's \<times> error option"

text \<open>
  The read loop: the results of the successive reads of the source, after which it is at its end; what
  went through the tee into the hash is accumulated.
\<close>

fun sendLoop ::
  "'s sender \<Rightarrow> (bytes \<times> error option) list \<Rightarrow> int \<Rightarrow> bytes \<Rightarrow> 's \<Rightarrow> 's \<times> (int \<times> bytes) result" where
  "sendLoop send [] offset hashed s = (s, Inr (offset, hashed))"
| "sendLoop send ((buf, rerr) # reads) offset hashed s =
     (let n = length buf;
          (s1, e) = (if n > 0 then send s (BinaryMsg (encodeChunk offset buf)) else (s, None));
          offset1 = offset + int n
      in case e of
           Some err \<Rightarrow> (s1, Inl err)
         | None \<Rightarrow>
             if rerr = Some IoEOF then (s1, Inr (offset1, hashed @ buf))
             else case rerr of
                    Some err \<Rightarrow> (s1, Inl err)
                  | None \<Rightarrow> sendLoop send reads offset1 (hashed @ buf) s1)"

datatype inEnd = InClosed | InTimeout

fun awaitDone :: "Msg list \<Rightarrow> inEnd \<Rightarrow> error option" where
  "awaitDone [] InClosed = Some (Errorf ''transfer: peer closed before acknowledging'')"
| "awaitDone [] InTimeout = Some (Errorf ''transfer: peer did not acknowledge'')"
| "awaitDone (m # ms) ie = (if classify m = ''done'' then None else awaitDone ms ie)"

record fileInfo =
  fi_Regular :: bool
  fi_Size :: int
  fi_Mode :: nat

text \<open>What the sender finds on disk: each path's status, whether the file opens, and the reads.\<close>

record source =
  src_stat :: "string \<Rightarrow> fileInfo result"
  src_open :: "error option"
  src_reads :: "(bytes \<times> error option) list"

text \<open>Choosing the header: a lone regular file is sent as it is, everything else as a tar archive.\<close>

definition sendHeader :: "source \<Rightarrow> string list \<Rightarrow> Header result" where
  "sendHeader src paths =
     (case paths of
        [] \<Rightarrow> Inl (Errorf ''transfer: no paths'')
      | [p] \<Rightarrow>
          (case src_stat src p of
             Inl err \<Rightarrow> Inl err
           | Inr fi \<Rightarrow>
               if fi_Regular fi
               then (case src_open src of
                       Some err \<Rightarrow> Inl err
                     | None \<Rightarrow> Inr (zero_Header\<lparr>h_Kind := ''file'', h_Name := Base p, h_Size := fi_Size fi,
                                            h_Mode := fi_Mode fi\<rparr>))
               else Inr (zero_Header\<lparr>h_Kind := ''archive'', h_Name := Base (Clean p) @ ''.tar''\<rparr>))
      | _ \<Rightarrow> Inr (zero_Header\<lparr>h_Kind := ''archive'', h_Name := ''bundle.tar''\<rparr>))"

definition Send ::
  "(bytes \<Rightarrow> string) \<Rightarrow> 's sender \<Rightarrow> Msg list \<Rightarrow> inEnd \<Rightarrow> source \<Rightarrow> string list \<Rightarrow> 's \<Rightarrow> 's \<times> Stats result" where
  "Send sha256hex send inbound ie src paths s =
     (case sendHeader src paths of
        Inl err \<Rightarrow> (s, Inl err)
      | Inr hdr \<Rightarrow>
          (case send s (marshalHeader hdr) of
             (s1, Some err) \<Rightarrow> (s1, Inl err)
           | (s1, None) \<Rightarrow>
               (case sendLoop send (src_reads src) 0 [] s1 of
                  (s2, Inl err) \<Rightarrow> (s2, Inl err)
                | (s2, Inr (offset, hashed)) \<Rightarrow>
                    (case send s2 (marshalTrailer \<lparr>t_SHA256 = sha256hex hashed, t_Total = offset\<rparr>) of
                       (s3, Some err) \<Rightarrow> (s3, Inl err)
                     | (s3, None) \<Rightarrow>
                         (case awaitDone inbound ie of
                            Some err \<Rightarrow> (s3, Inl err)
                          | None \<Rightarrow> (s3, Inr \<lparr>st_Bytes = offset\<rparr>))))))"

section \<open>Receiving\<close>

text \<open>\<^verbatim>\<open>File.WriteAt\<close>: a gap is filled with zeros, an empty write changes nothing.\<close>

definition writeAt :: "bytes \<Rightarrow> nat \<Rightarrow> bytes \<Rightarrow> bytes" where
  "writeAt data off f =
     (if data = [] then f
      else let g = f @ replicate (off - length f) 0 in
           take off g @ data @ drop (off + length data) g)"

text \<open>
  What the operating system answers: creating the temporary file, each write to it, syncing, hashing,
  opening it again, and the renaming; \<open>re_text\<close> is the text of a JSON message, looked at when its type
  field says \<^verbatim>\<open>data\<close>.
\<close>

record recvEnv =
  re_create :: "error option"
  re_write :: "int \<Rightarrow> bytes \<Rightarrow> error option"
  re_sync :: "error option"
  re_hash :: "error option"
  re_open :: "error option"
  re_rename :: "error option"
  re_deny :: refusal
  re_text :: "doc \<Rightarrow> bytes"

fun payloadOf :: "recvEnv \<Rightarrow> Msg \<Rightarrow> bytes" where
  "payloadOf env (BinaryMsg p) = p"
| "payloadOf env (JsonMsg d) = re_text env d"
| "payloadOf env OtherMsg = []"

definition WriteAt :: "recvEnv \<Rightarrow> bytes \<Rightarrow> int \<Rightarrow> bytes \<Rightarrow> bytes result" where
  "WriteAt env data off f =
     (if off < 0 then Inl (Errorf ''negative offset'')
      else case re_write env off data of
             Some err \<Rightarrow> Inl err
           | None \<Rightarrow> Inr (writeAt data (nat off) f))"

text \<open>The loop over the inbound messages: the contents of the temporary file and the trailer.\<close>

fun recvLoop :: "recvEnv \<Rightarrow> Msg list \<Rightarrow> bytes \<Rightarrow> (bytes \<times> Trailer) result" where
  "recvLoop env [] f = Inl (Errorf ''transfer: stream ended before trailer'')"
| "recvLoop env (m # ms) f =
     (if classify m = ''data'' then
        (case decodeChunk (payloadOf env m) of
           Inl err \<Rightarrow> Inl err
         | Inr (off, data) \<Rightarrow>
             (case WriteAt env data off f of Inl err \<Rightarrow> Inl err | Inr f' \<Rightarrow> recvLoop env ms f'))
      else if classify m = ''trailer'' then
        (case m of
           JsonMsg d \<Rightarrow> (case unmarshalTrailer d of None \<Rightarrow> Inl (Errorf ''json'') | Some tr \<Rightarrow> Inr (f, tr))
         | _ \<Rightarrow> Inl (Errorf ''json''))
      else recvLoop env ms f)"

text \<open>
  Placing the verified temporary file (in \<open>Receive\<close> written out at its end, in \<open>ReceiveParallel\<close> the
  function \<open>finalize\<close>): unpacking an archive, or renaming to the final name, with \<^verbatim>\<open>.part\<close> appended when
  the file exists and is not to be overwritten.
\<close>

definition finalize ::
  "recvEnv \<Rightarrow> (bytes \<Rightarrow> tarEntry list \<times> error) \<Rightarrow> (string \<Rightarrow> bool) option \<Rightarrow> string \<Rightarrow> Header \<Rightarrow> bytes \<Rightarrow> fs
     \<Rightarrow> fs \<times> string result" where
  "finalize env untar overwrite destDir hdr content f =
     (if h_Kind hdr = ''archive'' then
        (case re_open env of
           Some err \<Rightarrow> (f, Inl err)
         | None \<Rightarrow>
             (case untar content of
                (entries, endErr) \<Rightarrow>
                  (case extractTar (re_deny env) entries endErr destDir f of
                     (f', Some err) \<Rightarrow> (f', Inl err)
                   | (f', None) \<Rightarrow> (f', Inr destDir))))
      else
        (let final0 = Join destDir (Base (h_Name hdr));
             keep = (case overwrite of None \<Rightarrow> True | Some ask \<Rightarrow> \<not> ask (Base (h_Name hdr)));
             final = (if f final0 \<noteq> None \<and> keep then final0 @ ''.part'' else final0);
             mode = (if h_Mode hdr \<noteq> 0 then h_Mode hdr else 384)
         in case re_rename env of
              Some err \<Rightarrow> (f, Inl err)
            | None \<Rightarrow>
                if f final = Some DirNode then (f, Inl (Errorf ''file exists''))
                else (f(final \<mapsto> FileNode content mode), Inr final)))"

definition Receive ::
  "(bytes \<Rightarrow> string) \<Rightarrow> recvEnv \<Rightarrow> (bytes \<Rightarrow> tarEntry list \<times> error) \<Rightarrow> 's sender option \<Rightarrow> Msg list \<Rightarrow> string
     \<Rightarrow> (string \<Rightarrow> bool) option \<Rightarrow> fs \<Rightarrow> 's \<Rightarrow> fs \<times> 's \<times> (string \<times> Stats) result" where
  "Receive sha256hex env untar send inbound destDir overwrite f s =
     (case inbound of
        [] \<Rightarrow> (f, s, Inl (Errorf ''transfer: stream closed before header''))
      | first # rest \<Rightarrow>
          if classify first \<noteq> ''header'' then (f, s, Inl (Errorf ''transfer: expected header''))
          else (case (case first of JsonMsg d \<Rightarrow> unmarshalHeader d | _ \<Rightarrow> None) of
                  None \<Rightarrow> (f, s, Inl (Wrap ''transfer: bad header'' (Errorf ''json'')))
                | Some hdr \<Rightarrow>
                    (case re_create env of
                       Some err \<Rightarrow> (f, s, Inl err)
                     | None \<Rightarrow>
                         (case recvLoop env rest [] of
                            Inl err \<Rightarrow> (f, s, Inl err)
                          | Inr (content, trailer) \<Rightarrow>
                              (case (re_sync env, re_hash env) of
                                 (Some err, _) \<Rightarrow> (f, s, Inl err)
                               | (None, Some err) \<Rightarrow> (f, s, Inl err)
                               | (None, None) \<Rightarrow>
                                   if sha256hex content \<noteq> t_SHA256 trailer \<or> int (length content) \<noteq> t_Total trailer
                                   then (f, s, Inl (Errorf ''transfer: integrity check failed''))
                                   else (case finalize env untar overwrite destDir hdr content f of
                                           (f', Inl err) \<Rightarrow> (f', s, Inl err)
                                         | (f', Inr saved) \<Rightarrow>
                                             (f', case send of None \<Rightarrow> s | Some sd \<Rightarrow> fst (sd s marshalDone),
                                              Inr (saved, \<lparr>st_Bytes = t_Total trailer\<rparr>))))))))"

section \<open>Documents\<close>

lemma doc_fields [simp]:
  "strField [] k = Some []" "intField lo hi [] k = Some 0"
  by (simp_all add: strField_def intField_def)

lemma unmarshal_marshalHeader:
  assumes "marshalHeader h = JsonMsg d" "- (2 ^ 63) \<le> h_Size h" "h_Size h < 2 ^ 63" "h_Mode h < 2 ^ 32"
    and "- (2 ^ 63) \<le> h_Streams h" "h_Streams h < 2 ^ 63"
  shows "unmarshalHeader d = Some h"
proof -
  have "nat (int (h_Mode h)) = h_Mode h" by simp
  then show ?thesis
    using assms by (cases h) (auto simp: marshalHeader_def unmarshalHeader_def strField_def intField_def)
qed

lemma unmarshal_marshalTrailer:
  assumes "marshalTrailer t = JsonMsg d" "- (2 ^ 63) \<le> t_Total t" "t_Total t < 2 ^ 63"
  shows "unmarshalTrailer d = Some t"
  using assms by (cases t) (auto simp: marshalTrailer_def unmarshalTrailer_def strField_def intField_def)

lemma classify_simps [simp]:
  "classify (BinaryMsg p) = ''data''" "classify (marshalHeader h) = ''header''"
  "classify (marshalTrailer t) = ''trailer''" "classify marshalDone = ''done''"
  by (auto simp: classify_def marshalHeader_def marshalTrailer_def marshalDone_def strField_def)

section \<open>Writing a file in pieces\<close>

text \<open>
  A piece \<open>(off, data)\<close> of the contents \<open>c\<close>. Whatever the order and multiplicity of the pieces, a file
  in which a position has the right byte keeps it, and each piece puts its positions right.
\<close>

definition piece :: "bytes \<Rightarrow> nat \<times> bytes \<Rightarrow> bool" where
  "piece c w \<longleftrightarrow> fst w + length (snd w) \<le> length c \<and> take (length (snd w)) (drop (fst w) c) = snd w"

definition covers :: "nat \<times> bytes \<Rightarrow> nat \<Rightarrow> bool" where
  "covers w i \<longleftrightarrow> fst w \<le> i \<and> i < fst w + length (snd w)"

lemma length_writeAt [simp]:
  "data \<noteq> [] \<Longrightarrow> length (writeAt data off f) = max (length f) (off + length data)"
  by (simp add: writeAt_def Let_def)

lemma nth_writeAt:
  assumes "i < length (writeAt data off f)"
  shows "writeAt data off f ! i =
    (if off \<le> i \<and> i < off + length data then data ! (i - off) else if i < length f then f ! i else 0)"
  using assms by (auto simp: writeAt_def Let_def nth_append min_def)

definition right_at :: "bytes \<Rightarrow> bytes \<Rightarrow> nat \<Rightarrow> bool" where
  "right_at c f i \<longleftrightarrow> i < length f \<and> f ! i = c ! i"

lemma writeAt_right:
  assumes "piece c (off, data)" "right_at c f i \<or> covers (off, data) i"
  shows "right_at c (writeAt data off f) i"
proof (cases "data = []")
  case True
  then show ?thesis using assms by (auto simp: writeAt_def covers_def)
next
  case False
  have "data ! (i - off) = c ! i" if "off \<le> i" "i < off + length data"
  proof -
    have "take (length data) (drop off c) = data" using assms(1) by (simp add: piece_def)
    then have "data ! (i - off) = take (length data) (drop off c) ! (i - off)" by (rule arg_cong [OF sym])
    also have "\<dots> = c ! i" using that assms(1) unfolding piece_def by (subst nth_take) auto
    finally show ?thesis .
  qed
  then show ?thesis
    using assms(2) False nth_writeAt [of i data off f] by (auto simp: right_at_def covers_def)
qed

text \<open>The effect of a sequence of writes.\<close>

definition writes :: "(nat \<times> bytes) list \<Rightarrow> bytes \<Rightarrow> bytes" where
  "writes ws f = foldl (\<lambda>f (off, data). writeAt data off f) f ws"

lemma writes_simps [simp]:
  "writes [] f = f" "writes ((off, data) # ws) f = writes ws (writeAt data off f)"
  by (simp_all add: writes_def)

lemma writes_length: "\<forall>w\<in>set ws. piece c w \<Longrightarrow> length f \<le> length c \<Longrightarrow> length (writes ws f) \<le> length c"
proof (induction ws arbitrary: f)
  case Nil
  then show ?case by simp
next
  case (Cons w ws)
  obtain off data where w: "w = (off, data)" by force
  then have "length (writeAt data off f) \<le> length c"
    using Cons.prems by (cases "data = []") (auto simp: piece_def writeAt_def)
  then show ?case using Cons w by simp
qed

lemma writes_right:
  "\<forall>w\<in>set ws. piece c w \<Longrightarrow> right_at c f i \<or> (\<exists>w\<in>set ws. covers w i) \<Longrightarrow> right_at c (writes ws f) i"
proof (induction ws arbitrary: f)
  case Nil
  then show ?case by simp
next
  case (Cons w ws)
  obtain off data where w: "w = (off, data)" by force
  then have "right_at c (writeAt data off f) i \<or> (\<exists>w\<in>set ws. covers w i)"
    using Cons.prems writeAt_right [of c off data f i] by auto
  then show ?case using Cons.IH [of "writeAt data off f"] Cons.prems(1) w by simp
qed

text \<open>Pieces of the contents that cover them, in any order, write the contents.\<close>

lemma writes_complete:
  assumes "\<forall>w\<in>set ws. piece c w" "length f \<le> length c" "\<forall>i<length c. \<exists>w\<in>set ws. covers w i"
  shows "writes ws f = c"
proof (rule nth_equalityI)
  have r: "right_at c (writes ws f) i" if "i < length c" for i
    using writes_right [OF assms(1)] assms(3) that by blast
  show "length (writes ws f) = length c"
  proof (cases "c = []")
    case True
    then show ?thesis using writes_length [OF assms(1,2)] by simp
  next
    case False
    then show ?thesis
      using r [of "length c - 1"] writes_length [OF assms(1,2)] by (auto simp: right_at_def)
  qed
  then show "\<And>i. i < length (writes ws f) \<Longrightarrow> writes ws f ! i = c ! i"
    using r by (simp add: right_at_def)
qed

section \<open>What the sender emits\<close>

text \<open>A channel that takes every message.\<close>

definition collect :: "Msg list sender" where
  "collect s m = (s @ [m], None)"

definition chunkMsg :: "nat \<times> bytes \<Rightarrow> Msg" where
  "chunkMsg w = BinaryMsg (encodeChunk (int (fst w)) (snd w))"

fun chunksAt :: "nat \<Rightarrow> bytes list \<Rightarrow> (nat \<times> bytes) list" where
  "chunksAt off [] = []"
| "chunksAt off (b # bs) = (if b = [] then [] else [(off, b)]) @ chunksAt (off + length b) bs"

lemma sendLoop_collect:
  "sendLoop collect (map (\<lambda>b. (b, None)) bufs) (int off) hashed s =
     (s @ map chunkMsg (chunksAt off bufs), Inr (int (off + length (concat bufs)), hashed @ concat bufs))"
proof (induction bufs arbitrary: off hashed s)
  case Nil
  then show ?case by simp
next
  case (Cons b bs)
  then show ?case
    using Cons.IH [of "off + length b" "hashed @ b"] Cons.IH [of off hashed]
    by (cases "b = []") (simp_all add: collect_def chunkMsg_def Let_def add.assoc)
qed

lemma chunksAt_piece:
  "c = pre @ concat bufs \<Longrightarrow> length pre = off \<Longrightarrow> w \<in> set (chunksAt off bufs) \<Longrightarrow> piece c w"
proof (induction bufs arbitrary: pre off)
  case Nil
  then show ?case by simp
next
  case (Cons b bs)
  consider "w = (off, b)" | "w \<in> set (chunksAt (off + length b) bs)" using Cons.prems(3) by (auto split: if_splits)
  then show ?case
  proof cases
    case 1
    then show ?thesis using Cons.prems(1,2) by (simp add: piece_def)
  next
    case 2
    then show ?thesis using Cons.IH [of "pre @ b" "off + length b"] Cons.prems(1,2) by simp
  qed
qed

lemma chunksAt_covers:
  "off \<le> i \<Longrightarrow> i < off + length (concat bufs) \<Longrightarrow> \<exists>w\<in>set (chunksAt off bufs). covers w i"
proof (induction bufs arbitrary: off)
  case Nil
  then show ?case by simp
next
  case (Cons b bs)
  show ?case
  proof (cases "i < off + length b")
    case True
    then have "b \<noteq> []" using Cons.prems(1) by auto
    then show ?thesis using True Cons.prems(1) by (auto simp: covers_def)
  next
    case False
    then show ?thesis using Cons.IH [of "off + length b"] Cons.prems(2) by auto
  qed
qed

lemma piece_bound: "piece c w \<Longrightarrow> int (length c) < 2 ^ 63 \<Longrightarrow> int (fst w) < 2 ^ 63"
  by (auto simp: piece_def)

lemma chunkMsg_inject:
  assumes "int (fst w) < 2 ^ 63" "int (fst w') < 2 ^ 63" "chunkMsg w = chunkMsg w'"
  shows "w = w'"
proof -
  have "decodeChunk (encodeChunk (int (fst w)) (snd w)) = decodeChunk (encodeChunk (int (fst w')) (snd w'))"
    using assms(3) by (simp add: chunkMsg_def)
  then show ?thesis using assms(1,2) by (simp add: decode_encodeChunk prod_eq_iff)
qed

lemma list_of_image:
  assumes "inj_on g A" "set xs = g ` A"
  shows "\<exists>ys. xs = map g ys \<and> set ys = A"
proof (intro exI conjI)
  let ?ys = "map (the_inv_into A g) xs"
  have "map g ?ys = xs" using assms by (auto intro!: map_idI simp: f_the_inv_into_f)
  then show "xs = map g ?ys" ..
  show "set ?ys = A" using assms by (force simp: the_inv_into_f_f image_image)
qed

section \<open>What the receiver makes of it\<close>

text \<open>An operating system that refuses nothing.\<close>

definition env_ok :: "recvEnv \<Rightarrow> bool" where
  "env_ok env \<longleftrightarrow> re_create env = None \<and> (\<forall>off data. re_write env off data = None) \<and>
     re_sync env = None \<and> re_hash env = None \<and> re_open env = None \<and> re_rename env = None"

lemma recvLoop_chunks:
  assumes "env_ok env" "marshalTrailer tr = JsonMsg d" "unmarshalTrailer d = Some tr"
  shows "\<forall>w\<in>set ws. int (fst w) < 2 ^ 63 \<Longrightarrow>
    recvLoop env (map chunkMsg ws @ marshalTrailer tr # rest) f = Inr (writes ws f, tr)"
proof (induction ws arbitrary: f)
  case Nil
  then show ?case using assms classify_simps(3) [of tr] by simp
next
  case (Cons w ws)
  then show ?case
    using assms(1) by (cases w) (simp add: chunkMsg_def decode_encodeChunk WriteAt_def env_ok_def)
qed

text \<open>Chunks of the contents, in any order and with repetitions, followed by the trailer.\<close>

lemma recvLoop_content:
  assumes "env_ok env" "int (length c) < 2 ^ 63" "\<forall>w\<in>set ws. piece c w" "\<forall>i<length c. \<exists>w\<in>set ws. covers w i"
    and "tr = \<lparr>t_SHA256 = x, t_Total = int (length c)\<rparr>"
  shows "recvLoop env (map chunkMsg ws @ marshalTrailer tr # rest) [] = Inr (c, tr)"
proof -
  obtain d where d: "marshalTrailer tr = JsonMsg d" by (simp add: marshalTrailer_def)
  then have "unmarshalTrailer d = Some tr" using assms(2,5) by (intro unmarshal_marshalTrailer) simp_all
  moreover have "writes ws [] = c" using assms(3,4) by (intro writes_complete) simp_all
  moreover have "\<forall>w\<in>set ws. int (fst w) < 2 ^ 63" using assms(2,3) piece_bound by blast
  ultimately show ?thesis using recvLoop_chunks [OF assms(1) d] by simp
qed

section \<open>Properties\<close>

text \<open>The final name, and the name used instead when the file is there and is to be kept.\<close>

definition placed :: "(string \<Rightarrow> bool) option \<Rightarrow> string \<Rightarrow> string \<Rightarrow> fs \<Rightarrow> string" where
  "placed overwrite destDir name f =
     (let final = Join destDir (Base name) in
      if f final \<noteq> None \<and> (case overwrite of None \<Rightarrow> True | Some ask \<Rightarrow> \<not> ask (Base name))
      then final @ ''.part'' else final)"

lemma finalize_file:
  assumes "re_rename env = None" "h_Kind hdr = ''file''" "f (placed overwrite destDir (h_Name hdr) f) \<noteq> Some DirNode"
  shows "finalize env untar overwrite destDir hdr content f =
    (f(placed overwrite destDir (h_Name hdr) f \<mapsto> FileNode content (if h_Mode hdr \<noteq> 0 then h_Mode hdr else 384)),
     Inr (placed overwrite destDir (h_Name hdr) f))"
  using assms by (auto simp: finalize_def placed_def Let_def)

text \<open>
  The messages of a successful sending, for any header, and what the receiver does with them whatever
  the order and multiplicity in which the chunks arrive and whatever follows: it places the contents as
  the header says.
\<close>

definition trailerOf :: "(bytes \<Rightarrow> string) \<Rightarrow> bytes list \<Rightarrow> Trailer" where
  "trailerOf sha256hex bufs = \<lparr>t_SHA256 = sha256hex (concat bufs), t_Total = int (length (concat bufs))\<rparr>"

definition fileMsgs :: "(bytes \<Rightarrow> string) \<Rightarrow> Header \<Rightarrow> bytes list \<Rightarrow> Msg list" where
  "fileMsgs sha256hex hdr bufs =
     marshalHeader hdr # map chunkMsg (chunksAt 0 bufs) @ [marshalTrailer (trailerOf sha256hex bufs)]"

definition hdr_ok :: "Header \<Rightarrow> bool" where
  "hdr_ok hdr \<longleftrightarrow> - (2 ^ 63) \<le> h_Size hdr \<and> h_Size hdr < 2 ^ 63 \<and> h_Mode hdr < 2 ^ 32 \<and> h_Streams hdr = 0"

lemma Send_messages:
  assumes "sendHeader src paths = Inr hdr" "src_reads src = map (\<lambda>b. (b, None)) bufs" "awaitDone inbound ie = None"
  shows "Send sha256hex collect inbound ie src paths s = (s @ fileMsgs sha256hex hdr bufs, Inr \<lparr>st_Bytes = int (length (concat bufs))\<rparr>)"
  using assms sendLoop_collect [of bufs 0 "[]"] by (simp add: Send_def collect_def fileMsgs_def trailerOf_def)

lemma Receive_messages:
  assumes "int (length (concat bufs)) < 2 ^ 63" "env_ok env" "hdr_ok hdr" "set arrived = chunkMsg ` set (chunksAt 0 bufs)"
  shows "Receive sha256hex env untar (Some collect) (marshalHeader hdr # arrived @ marshalTrailer (trailerOf sha256hex bufs) # follow) destDir overwrite f s =
      (case finalize env untar overwrite destDir hdr (concat bufs) f of
         (f', Inl err) \<Rightarrow> (f', s, Inl err)
       | (f', Inr saved) \<Rightarrow> (f', s @ [marshalDone], Inr (saved, \<lparr>st_Bytes = int (length (concat bufs))\<rparr>)))"
proof -
  let ?c = "concat bufs"
  have pc: "\<forall>w\<in>set (chunksAt 0 bufs). piece ?c w" using chunksAt_piece [of ?c "[]" bufs 0] by simp
  have "inj_on chunkMsg (set (chunksAt 0 bufs))"
    using pc piece_bound assms(1) chunkMsg_inject by (meson inj_onI)
  then obtain ws where ws: "arrived = map chunkMsg ws" "set ws = set (chunksAt 0 bufs)"
    using list_of_image assms(4) by blast
  have "\<forall>i<length ?c. \<exists>w\<in>set ws. covers w i" using chunksAt_covers [of 0 _ bufs] ws(2) by simp
  then have rl: "recvLoop env (arrived @ marshalTrailer (trailerOf sha256hex bufs) # follow) [] = Inr (?c, trailerOf sha256hex bufs)"
    using recvLoop_content [OF assms(2,1) _ _ trailerOf_def] pc ws by simp
  obtain d where d: "marshalHeader hdr = JsonMsg d" by (simp add: marshalHeader_def)
  then have "unmarshalHeader d = Some hdr" using assms(3) by (intro unmarshal_marshalHeader) (simp_all add: hdr_ok_def)
  moreover have "classify (JsonMsg d) = ''header''" using d classify_simps(2) by metis
  ultimately show ?thesis
    using assms(2) d rl by (simp add: Receive_def env_ok_def collect_def trailerOf_def split: prod.splits sum.splits)
qed

lemma transfer_core:
  assumes "sendHeader src paths = Inr hdr" and "src_reads src = map (\<lambda>b. (b, None)) bufs"
    and "int (length (concat bufs)) < 2 ^ 63" and "env_ok env" and "hdr_ok hdr"
    and "Send sha256hex collect (marshalDone # others) ie src paths [] = (sent, r)"
    and "set arrived = set (tl (butlast sent))"
  shows "r = Inr \<lparr>st_Bytes = int (length (concat bufs))\<rparr>"
    "Receive sha256hex env untar (Some collect) (hd sent # arrived @ [last sent]) destDir overwrite f [] =
      (case finalize env untar overwrite destDir hdr (concat bufs) f of
         (f', Inl err) \<Rightarrow> (f', [], Inl err)
       | (f', Inr saved) \<Rightarrow> (f', [marshalDone], Inr (saved, \<lparr>st_Bytes = int (length (concat bufs))\<rparr>)))"
proof -
  have s: "sent = fileMsgs sha256hex hdr bufs" "r = Inr \<lparr>st_Bytes = int (length (concat bufs))\<rparr>"
    using Send_messages [OF assms(1,2), of "marshalDone # others" ie sha256hex "[]"] assms(6) by simp_all
  then have "set arrived = chunkMsg ` set (chunksAt 0 bufs)" using assms(7) by (simp add: fileMsgs_def butlast_append)
  then show "Receive sha256hex env untar (Some collect) (hd sent # arrived @ [last sent]) destDir overwrite f [] =
      (case finalize env untar overwrite destDir hdr (concat bufs) f of
         (f', Inl err) \<Rightarrow> (f', [], Inl err)
       | (f', Inr saved) \<Rightarrow> (f', [marshalDone], Inr (saved, \<lparr>st_Bytes = int (length (concat bufs))\<rparr>)))"
    using Receive_messages [OF assms(3-5), of arrived sha256hex untar "[]" destDir overwrite f "[]"] s(1)
    by (simp add: fileMsgs_def)
  show "r = Inr \<lparr>st_Bytes = int (length (concat bufs))\<rparr>" by (rule s(2))
qed

text \<open>
  C23: A file arrives unchanged. Sending one regular file, read in any portions, emits a header, data
  chunks and a trailer; if the receiver gets the header, then the chunks in any order and with any
  repetitions, then the trailer, it saves a file with exactly the contents under the sender's base
  name (or with \<^verbatim>\<open>.part\<close> appended when that file exists and may not be replaced), changes nothing
  else, acknowledges, and both sides report the number of bytes.
\<close>

theorem transfer_roundtrip:
  assumes "src_stat src p = Inr \<lparr>fi_Regular = True, fi_Size = int (length (concat bufs)), fi_Mode = mode\<rparr>"
    and "src_open src = None" and "src_reads src = map (\<lambda>b. (b, None)) bufs"
    and "int (length (concat bufs)) < 2 ^ 63" and "mode < 2 ^ 32" and "env_ok env"
    and "Send sha256hex collect (marshalDone # others) ie src [p] [] = (sent, r)"
    and "set arrived = set (tl (butlast sent))"
    and "f (placed overwrite destDir (Base p) f) \<noteq> Some DirNode"
    and "Receive sha256hex env untar (Some collect) (hd sent # arrived @ [last sent]) destDir overwrite f [] = (f', acks, r')"
  shows "r = Inr \<lparr>st_Bytes = int (length (concat bufs))\<rparr> \<and> acks = [marshalDone] \<and>
    r' = Inr (placed overwrite destDir (Base p) f, \<lparr>st_Bytes = int (length (concat bufs))\<rparr>) \<and>
    f' = f(placed overwrite destDir (Base p) f \<mapsto> FileNode (concat bufs) (if mode \<noteq> 0 then mode else 384))"
proof -
  let ?c = "concat bufs"
  let ?hdr = "zero_Header\<lparr>h_Kind := ''file'', h_Name := Base p, h_Size := int (length ?c), h_Mode := mode\<rparr>"
  have hdr: "sendHeader src [p] = Inr ?hdr" using assms(1,2) by (simp add: sendHeader_def)
  have ok: "hdr_ok ?hdr" using assms(4,5) by (simp add: hdr_ok_def zero_Header_def)
  have "finalize env untar overwrite destDir ?hdr ?c f =
      (f(placed overwrite destDir (Base p) f \<mapsto> FileNode ?c (if mode \<noteq> 0 then mode else 384)),
       Inr (placed overwrite destDir (Base p) f))"
    using finalize_file [of env ?hdr f overwrite destDir untar ?c] assms(6,9) by (simp add: env_ok_def)
  then show ?thesis
    using transfer_core [OF hdr assms(3,4,6) ok assms(7,8)] assms(10) by auto
qed

text \<open>A sender's disk with one file, and a receiver's operating system, for examples.\<close>

definition exampleSource :: "bytes list \<Rightarrow> source" where
  "exampleSource bufs = \<lparr>src_stat = (\<lambda>_. Inr \<lparr>fi_Regular = True, fi_Size = int (length (concat bufs)), fi_Mode = 420\<rparr>),
     src_open = None, src_reads = map (\<lambda>b. (b, None)) bufs\<rparr>"

definition exampleEnv :: recvEnv where
  "exampleEnv = \<lparr>re_create = None, re_write = (\<lambda>_ _. None), re_sync = None, re_hash = None, re_open = None,
     re_rename = None, re_deny = (\<lambda>_. None), re_text = (\<lambda>_. [])\<rparr>"

lemma env_ok_example: "env_ok exampleEnv"
  by (simp add: env_ok_def exampleEnv_def)

theorem transfer_roundtrip_witness:
  "\<exists>sent f'. Send (\<lambda>_. ''h'') collect [marshalDone] InClosed (exampleSource [[1, 2], [3]]) [''d/a.txt''] [] =
      (sent, Inr \<lparr>st_Bytes = 3\<rparr>) \<and>
    Receive (\<lambda>_. ''h'') exampleEnv (\<lambda>_. ([], IoEOF)) (Some collect) (hd sent # rev (tl (butlast sent)) @ [last sent])
      ''/t'' None Map.empty [] = (f', [marshalDone], Inr (''/t/a.txt'', \<lparr>st_Bytes = 3\<rparr>)) \<and>
    f' ''/t/a.txt'' = Some (FileNode [1, 2, 3] 420)"
proof -
  let ?src = "exampleSource [[1, 2], [3]]"
  obtain sent r where sent: "Send (\<lambda>_. ''h'') collect (marshalDone # []) InClosed ?src [''d/a.txt''] [] = (sent, r)" by force
  let ?arr = "rev (tl (butlast sent))"
  obtain f' acks r' where recv: "Receive (\<lambda>_. ''h'') exampleEnv (\<lambda>_. ([], IoEOF)) (Some collect)
      (hd sent # ?arr @ [last sent]) ''/t'' None Map.empty [] = (f', acks, r')" by (metis prod_cases3)
  have pl: "placed None ''/t'' (Base ''d/a.txt'') Map.empty = ''/t/a.txt''" by code_simp
  have "r = Inr \<lparr>st_Bytes = int (length (concat [[1, 2], [3 :: byte]]))\<rparr> \<and> acks = [marshalDone] \<and>
    r' = Inr (placed None ''/t'' (Base ''d/a.txt'') Map.empty, \<lparr>st_Bytes = int (length (concat [[1, 2], [3 :: byte]]))\<rparr>) \<and>
    f' = Map.empty(placed None ''/t'' (Base ''d/a.txt'') Map.empty \<mapsto> FileNode (concat [[1, 2], [3]]) (if (420 :: nat) \<noteq> 0 then 420 else 384))"
    by (rule transfer_roundtrip [OF _ _ _ _ _ env_ok_example sent _ _ recv]) (simp_all add: exampleSource_def)
  with sent recv show ?thesis unfolding pl by auto
qed

lemma recvLoop_trailer:
  "recvLoop env ms f = Inr (c, tr) \<Longrightarrow> \<exists>d. JsonMsg d \<in> set ms \<and> unmarshalTrailer d = Some tr"
proof (induction ms arbitrary: f)
  case Nil
  then show ?case by simp
next
  case (Cons m ms)
  then show ?case
    by (cases m) (auto split: if_splits sum.splits prod.splits option.splits)
qed

lemma finalize_not_archive:
  assumes "h_Kind hdr \<noteq> ''archive''" "finalize env untar overwrite destDir hdr c f = (f', r)"
  shows "(\<exists>e. r = Inl e \<and> f' = f) \<or> (\<exists>saved m. r = Inr saved \<and> f' = f(saved \<mapsto> FileNode c m))"
  using assms by (auto simp: finalize_def Let_def split: option.splits if_splits)

text \<open>
  C24: Nothing unverified is saved. Whatever messages arrive, if a transfer that is not an archive reports
  success then the one path that changed holds contents whose length and SHA-256 are those of a trailer
  that was received, and if it reports an error the file system is untouched.
\<close>

theorem receive_integrity:
  assumes "Receive sha256hex env untar send inbound destDir overwrite f s = (f', s', r)"
    and "\<And>d h. JsonMsg d \<in> set inbound \<Longrightarrow> unmarshalHeader d = Some h \<Longrightarrow> h_Kind h \<noteq> ''archive''"
  shows "case r of
      Inl err \<Rightarrow> f' = f \<and> s' = s
    | Inr (saved, st) \<Rightarrow>
        (\<exists>content mode d tr. f' = f(saved \<mapsto> FileNode content mode) \<and> JsonMsg d \<in> set inbound \<and>
           unmarshalTrailer d = Some tr \<and> t_SHA256 tr = sha256hex content \<and>
           t_Total tr = int (length content) \<and> st_Bytes st = int (length content))"
proof (cases "\<exists>err. r = Inl err \<and> f' = f \<and> s' = s")
  case True
  then show ?thesis by auto
next
  case False
  obtain first rest hdr where first: "inbound = first # rest"
    "(case first of JsonMsg d \<Rightarrow> unmarshalHeader d | _ \<Rightarrow> None) = Some hdr"
    using assms(1) False by (auto simp: Receive_def split: list.splits if_splits option.splits)
  then have kind: "h_Kind hdr \<noteq> ''archive''" using assms(2) by (cases first) auto
  obtain c tr where c: "recvLoop env rest [] = Inr (c, tr)"
    using assms(1) False first by (auto simp: Receive_def split: if_splits option.splits sum.splits)
  obtain f1 r1 where f1: "finalize env untar overwrite destDir hdr c f = (f1, r1)" by force
  have "sha256hex c = t_SHA256 tr \<and> int (length c) = t_Total tr \<and>
      (\<exists>saved. r1 = Inr saved \<and> f' = f1 \<and> r = Inr (saved, \<lparr>st_Bytes = t_Total tr\<rparr>))"
    using assms(1) False first c f1 finalize_not_archive [OF kind f1]
    by (auto simp: Receive_def split: if_splits option.splits sum.splits)
  with finalize_not_archive [OF kind f1] recvLoop_trailer [OF c] first(1) show ?thesis by fastforce
qed

theorem receive_integrity_witness:
  "\<exists>f' s' saved st content.
     Receive (\<lambda>_. ''h'') exampleEnv (\<lambda>_. ([], IoEOF)) (None :: unit sender option)
       [marshalHeader (zero_Header\<lparr>h_Kind := ''file'', h_Name := ''a''\<rparr>), BinaryMsg (encodeChunk 0 [7]),
        marshalTrailer \<lparr>t_SHA256 = ''h'', t_Total = 1\<rparr>] ''/t'' None Map.empty () = (f', s', Inr (saved, st)) \<and>
     (\<exists>mode. f' saved = Some (FileNode content mode)) \<and> st_Bytes st = int (length content)"
proof -
  let ?in = "[marshalHeader (zero_Header\<lparr>h_Kind := ''file'', h_Name := ''a''\<rparr>), BinaryMsg (encodeChunk 0 [7]),
    marshalTrailer \<lparr>t_SHA256 = ''h'', t_Total = 1\<rparr>]"
  let ?r = "Receive (\<lambda>_. ''h'') exampleEnv (\<lambda>_. ([], IoEOF)) (None :: unit sender option) ?in ''/t'' None Map.empty ()"
  obtain f' s' r where r: "?r = (f', s', r)" by (metis prod_cases3)
  have "snd (snd ?r) = Inr (''/t/a'', \<lparr>st_Bytes = 1\<rparr>)" by code_simp
  then have r': "r = Inr (''/t/a'', \<lparr>st_Bytes = 1\<rparr>)" using r by simp
  have k: "h_Kind h \<noteq> ''archive''" if "JsonMsg d \<in> set ?in" "unmarshalHeader d = Some h" for d h
    using that by (auto simp: marshalHeader_def marshalTrailer_def zero_Header_def unmarshalHeader_def strField_def intField_def)
  show ?thesis using receive_integrity [OF r k] r r' by fastforce
qed

text \<open>
  Where a received file is put. If the base name of the header is a proper file name, the file is saved
  strictly inside the destination, whether or not \<^verbatim>\<open>.part\<close> is appended; but a header named \<^verbatim>\<open>..\<close> makes
  the receiver, told not to overwrite, write \<^verbatim>\<open><parent>.part\<close>, a file outside the destination.
\<close>

theorem received_file_place:
  assumes "finalize env untar overwrite destDir hdr content f = (f', Inr saved)" and "h_Kind hdr \<noteq> ''archive''"
    and "destDir \<noteq> []" and "proper (Base (h_Name hdr))"
  shows "inside destDir saved \<and>
    finalize exampleEnv untar None ''/home/u'' (zero_Header\<lparr>h_Kind := ''file'', h_Name := ''..''\<rparr>) content exampleFs =
      (exampleFs(''/home.part'' \<mapsto> FileNode content 384), Inr ''/home.part'')"
proof
  let ?b = "Base (h_Name hdr)"
  have "proper (?b @ ''.part'')" using assms(4) by (auto simp: proper_def comp_def dot_def dotdot_def)
  moreover have "saved = mkPath (isRooted destDir) (parts destDir @ [?b]) \<or>
      saved = mkPath (isRooted destDir) (parts destDir @ [?b @ ''.part''])"
    using assms(1,2) Join_proper [OF assms(3,4)]
    by (auto simp: finalize_def Let_def mkPath_snoc_append split: option.splits if_splits)
  ultimately show "inside destDir saved" using assms(4) unfolding inside_def by (metis not_Cons_self2 list.set_intros(1) set_ConsD empty_iff list.set(1))
  have "Join ''/home/u'' (Base ''..'') = ''/home''" by code_simp
  then show "finalize exampleEnv untar None ''/home/u'' (zero_Header\<lparr>h_Kind := ''file'', h_Name := ''..''\<rparr>) content exampleFs =
      (exampleFs(''/home.part'' \<mapsto> FileNode content 384), Inr ''/home.part'')"
    by (simp add: finalize_def Let_def exampleEnv_def exampleFs_def zero_Header_def)
qed

theorem received_file_place_witness: "inside ''/t'' ''/t/a''"
proof -
  let ?h = "zero_Header\<lparr>h_Kind := ''file'', h_Name := ''x/a''\<rparr>"
  have "Join ''/t'' (Base ''x/a'') = ''/t/a''" by code_simp
  then have "finalize exampleEnv (\<lambda>_. ([], IoEOF)) None ''/t'' ?h [1] Map.empty = (Map.empty(''/t/a'' \<mapsto> FileNode [1] 384), Inr ''/t/a'')"
    by (simp add: finalize_def Let_def exampleEnv_def zero_Header_def)
  moreover have "proper (Base (h_Name ?h))" by code_simp
  ultimately show ?thesis using received_file_place [of exampleEnv "\<lambda>_. ([], IoEOF)" None "''/t''" ?h "[1]"] by (simp add: zero_Header_def)
qed

end
