(* ===== verification/Dir_Transfer.thy ===== *)
theory Dir_Transfer
  imports Tar_Write File_Transfer
begin

text \<open>
  Sending directories: the archive written by \<open>writeTar\<close> goes through a pipe into the read loop of \<open>Send\<close>
  (\<^verbatim>\<open>pkg/transfer/send.go\<close>), arrives as chunks and is unpacked by \<open>Receive\<close>. The byte format of the archive is
  a pair of functions, \<open>tarBytes\<close> for the writer and \<open>untar\<close> for the reader of \<^verbatim>\<open>archive/tar\<close>.
\<close>

section \<open>The pipe\<close>

text \<open>
  The reads of the pipe: the portions \<open>bufs\<close> of what was written, then the error the writer closed the
  pipe with, or its end.
\<close>

definition pipeReads :: "bytes list \<Rightarrow> error option \<Rightarrow> (bytes \<times> error option) list" where
  "pipeReads bufs e = map (\<lambda>b. (b, None)) bufs @ (case e of None \<Rightarrow> [] | Some err \<Rightarrow> [([], Some err)])"

text \<open>The paths are sent as an archive: several of them, or one that is not a regular file.\<close>

definition sentAsArchive :: "source \<Rightarrow> string list \<Rightarrow> bool" where
  "sentAsArchive src paths \<longleftrightarrow>
     (case paths of
        [] \<Rightarrow> False
      | [p] \<Rightarrow> (case src_stat src p of Inr fi \<Rightarrow> \<not> fi_Regular fi | Inl _ \<Rightarrow> False)
      | _ \<Rightarrow> True)"

lemma sendHeader_archive:
  assumes "sentAsArchive src paths"
  shows "\<exists>name. sendHeader src paths = Inr (zero_Header\<lparr>h_Kind := ''archive'', h_Name := name\<rparr>)"
  using assms by (auto simp: sentAsArchive_def sendHeader_def split: list.splits sum.splits)

lemma sendLoop_more:
  "sendLoop collect (map (\<lambda>b. (b, None)) bufs @ reads) (int off) hashed s =
   sendLoop collect reads (int (off + length (concat bufs))) (hashed @ concat bufs) (s @ map chunkMsg (chunksAt off bufs))"
proof (induction bufs arbitrary: off hashed s)
  case (Cons b bs)
  then show ?case
    using Cons.IH [of "off + length b"] by (cases "b = []") (simp_all add: collect_def chunkMsg_def Let_def add.assoc)
qed simp

lemma finalize_archive:
  assumes "h_Kind hdr = ''archive''" "re_open env = None" "untar content = (entries, IoEOF)"
    and "extractTar (re_deny env) entries IoEOF destDir f = (f', None)"
  shows "finalize env untar overwrite destDir hdr content f = (f', Inr destDir)"
  using assms by (simp add: finalize_def)

section \<open>Properties\<close>


text \<open>
  C27: A failed packing is not taken for a short archive. If \<open>writeTar\<close> fails, \<open>Send\<close> reports that error and
  sends no trailer; whatever part of the messages arrives after the header, in any order, the receiver
  reports that the stream ended early, changes no file and acknowledges nothing.
\<close>

theorem failed_archive_not_accepted:
  assumes "sentAsArchive src paths" and "writeTar env disk paths = (entries, Some err)" and "err \<noteq> IoEOF"
    and "src_reads src = pipeReads bufs (Some err)"
    and "int (length (concat bufs)) < 2 ^ 63" and "env_ok renv"
    and "Send sha256hex collect inbound ie src paths [] = (sent, r)" and "set arrived \<subseteq> set (tl sent)"
  shows "r = Inl err \<and>
    Receive sha256hex renv untar (Some collect) (hd sent # arrived) d overwrite f [] =
      (f, [], Inl (Errorf ''transfer: stream ended before trailer''))"
proof -
  obtain name where hdr: "sendHeader src paths = Inr (zero_Header\<lparr>h_Kind := ''archive'', h_Name := name\<rparr>)"
    using sendHeader_archive [OF assms(1)] by blast
  let ?hdr = "zero_Header\<lparr>h_Kind := ''archive'', h_Name := name\<rparr>"
  have sent: "sent = marshalHeader ?hdr # map chunkMsg (chunksAt 0 bufs)" "r = Inl err"
    using assms(3,4,7) hdr sendLoop_more [of bufs "[([], Some err)]" 0 "[]" "[marshalHeader ?hdr]"]
    by (auto simp: Send_def pipeReads_def collect_def)
  have ends: "set ms \<subseteq> chunkMsg ` set (chunksAt 0 bufs) \<Longrightarrow> recvLoop renv ms g = Inl (Errorf ''transfer: stream ended before trailer'')" for ms g
  proof (induction ms arbitrary: g)
    case (Cons m ms)
    then obtain w where w: "m = chunkMsg w" "w \<in> set (chunksAt 0 bufs)" by auto
    then have "int (fst w) < 2 ^ 63"
      using chunksAt_piece [of "concat bufs" "[]" bufs 0 w] piece_bound assms(5) by auto
    then show ?case using Cons w assms(6) by (cases w) (simp add: chunkMsg_def decode_encodeChunk WriteAt_def env_ok_def)
  qed simp
  obtain dd where dd: "marshalHeader ?hdr = JsonMsg dd" by (simp add: marshalHeader_def)
  then have "unmarshalHeader dd = Some ?hdr" by (intro unmarshal_marshalHeader) (simp_all add: zero_Header_def)
  moreover have "classify (JsonMsg dd) = ''header''" using dd classify_simps(2) by metis
  ultimately show ?thesis
    using assms(6,8) sent ends [of arrived "[]"] dd by (simp add: Receive_def env_ok_def)
qed

text \<open>A sender's disk with a directory, and one where a file cannot be opened, for examples.\<close>

definition archiveSource :: "bytes list \<Rightarrow> error option \<Rightarrow> source" where
  "archiveSource bufs e = \<lparr>src_stat = (\<lambda>_. Inr \<lparr>fi_Regular = False, fi_Size = 0, fi_Mode = 493\<rparr>),
     src_open = None, src_reads = pipeReads bufs e\<rparr>"

lemma archiveSource_simps [simp]: "sentAsArchive (archiveSource bufs e) [p]" "src_reads (archiveSource bufs e) = pipeReads bufs e"
  by (simp_all add: sentAsArchive_def archiveSource_def)


theorem failed_archive_not_accepted_witness:
  "\<exists>sent. Send (\<lambda>_. ''h'') collect [] InClosed (archiveSource [[1], [2]] (Some (Errorf ''open''))) [''x''] [] = (sent, Inl (Errorf ''open'')) \<and>
    Receive (\<lambda>_. ''h'') exampleEnv (\<lambda>_. ([], IoEOF)) (Some collect) (hd sent # tl sent) ''/home/u'' None exampleFs [] =
      (exampleFs, [], Inl (Errorf ''transfer: stream ended before trailer''))"
proof -
  let ?src = "archiveSource [[1], [2]] (Some (Errorf ''open''))"
  let ?env = "exampleTarEnv\<lparr>tv_open := \<lambda>_. Some (Errorf ''open'')\<rparr>" and ?disk = "\<lambda>_. Inr (FileTree [5] 420)"
  obtain sent r where sent: "Send (\<lambda>_. ''h'') collect [] InClosed ?src [''x''] [] = (sent, r)" by force
  have "Clean ''x'' = ''x''" "Dir ''x'' = ''.''" "Rel ''.'' ''x'' = Inr ''x''" by code_simp+
  then have w: "writeTar ?env ?disk [''x''] = (fst (writeTar ?env ?disk [''x'']), Some (Errorf ''open''))"
    by (simp add: visit_def exampleTarEnv_def)
  show ?thesis
    using failed_archive_not_accepted [where src = ?src, OF _ w _ _ _ env_ok_example sent subset_refl] sent by (auto simp: exampleEnv_def)
qed

end
