(* ===== verification/Line_Scanner.thy ===== *)
theory Line_Scanner
  imports Compress
begin

text \<open>
  The line scanner \<^verbatim>\<open>bufio.Scanner\<close> the commands read standard input with. A token is a slice of the
  scanner's buffer, so arrays are kept in a store and a slice is an array with an offset and a length;
  later reads may overwrite what an earlier token refers to.
\<close>

section \<open>Store and scanner\<close>

type_synonym store = "bytes list"
type_synonym slice = "nat \<times> nat \<times> nat"

definition deref :: "store \<Rightarrow> slice \<Rightarrow> bytes" where
  "deref st s = (case s of (a, off, n) \<Rightarrow> take n (drop off (st ! a)))"

text \<open>The input is the sequence of results the reads of the source have in store, then its end.\<close>

record scanner =
  sc_arr :: nat
  sc_start :: nat
  sc_end :: nat
  sc_err :: "error option"
  sc_in :: "(bytes \<times> error option) list"

definition startBufSize :: nat where "startBufSize = 4096"
definition maxTokenSize :: nat where "maxTokenSize = 64 * 1024"

definition newScanner :: "(bytes \<times> error option) list \<Rightarrow> scanner" where
  "newScanner reads = \<lparr>sc_arr = 0, sc_start = 0, sc_end = 0, sc_err = None, sc_in = reads\<rparr>"

abbreviation lf :: byte where "lf \<equiv> 10"
abbreviation crb :: byte where "crb \<equiv> 13"

section \<open>Lines\<close>

definition trimCR :: "bytes \<Rightarrow> bytes" where
  "trimCR bs = (if bs \<noteq> [] \<and> last bs = crb then butlast bs else bs)"

text \<open>\<^verbatim>\<open>bufio.ScanLines\<close>: how far to advance and the length of the token.\<close>

definition ScanLines :: "bytes \<Rightarrow> bool \<Rightarrow> nat \<times> nat option" where
  "ScanLines data atEOF =
     (let l = takeWhile (\<lambda>b. b \<noteq> lf) data in
      if atEOF \<and> data = [] then (0, None)
      else if lf \<in> set data then (length l + 1, Some (length (trimCR l)))
      else if atEOF then (length data, Some (length (trimCR data)))
      else (0, None))"

section \<open>Reading more\<close>

definition bufLen :: "store \<Rightarrow> scanner \<Rightarrow> nat" where "bufLen st sc = length (st ! sc_arr sc)"

definition buffered :: "store \<Rightarrow> scanner \<Rightarrow> bytes" where
  "buffered st sc = take (sc_end sc - sc_start sc) (drop (sc_start sc) (st ! sc_arr sc))"

text \<open>Bytes written into an array at an offset.\<close>

definition blit :: "bytes \<Rightarrow> nat \<Rightarrow> bytes \<Rightarrow> bytes" where
  "blit bs off arr = take off arr @ bs @ drop (off + length bs) arr"

definition shift :: "store \<Rightarrow> scanner \<Rightarrow> store \<times> scanner" where
  "shift st sc =
     (if sc_start sc > 0 \<and> (sc_end sc = bufLen st sc \<or> sc_start sc > bufLen st sc div 2)
      then (st[sc_arr sc := blit (buffered st sc) 0 (st ! sc_arr sc)],
            sc\<lparr>sc_start := 0, sc_end := sc_end sc - sc_start sc\<rparr>)
      else (st, sc))"

text \<open>A full buffer is replaced by a larger one, up to the limit.\<close>

definition grow :: "store \<Rightarrow> scanner \<Rightarrow> (store \<times> scanner) option" where
  "grow st sc =
     (if sc_end sc = bufLen st sc then
        (if bufLen st sc \<ge> maxTokenSize then None
         else let newSize = min (if bufLen st sc * 2 = 0 then startBufSize else bufLen st sc * 2) maxTokenSize
              in Some (st @ [blit (buffered st sc) 0 (replicate newSize 0)],
                       sc\<lparr>sc_arr := length st, sc_start := 0, sc_end := sc_end sc - sc_start sc\<rparr>))
      else Some (st, sc))"

text \<open>One read into the free end of the buffer.\<close>

definition readMore :: "store \<Rightarrow> scanner \<Rightarrow> store \<times> scanner" where
  "readMore st sc =
     (let space = bufLen st sc - sc_end sc in
      case sc_in sc of
        [] \<Rightarrow> (st, sc\<lparr>sc_err := Some IoEOF\<rparr>)
      | (d, e) # rest \<Rightarrow>
          if length d \<le> space
          then (st[sc_arr sc := blit d (sc_end sc) (st ! sc_arr sc)],
                sc\<lparr>sc_end := sc_end sc + length d, sc_err := e, sc_in := rest\<rparr>)
          else (st[sc_arr sc := blit (take space d) (sc_end sc) (st ! sc_arr sc)],
                sc\<lparr>sc_end := sc_end sc + space, sc_in := (drop space d, e) # rest\<rparr>))"

definition refill :: "store \<Rightarrow> scanner \<Rightarrow> (store \<times> scanner) option" where
  "refill st sc =
     (case shift st sc of (st1, sc1) \<Rightarrow>
        (case grow st1 sc1 of None \<Rightarrow> None | Some (st2, sc2) \<Rightarrow> Some (readMore st2 sc2)))"

section \<open>Scanning\<close>

text \<open>
  The loop of \<^verbatim>\<open>Scan\<close> with a bound on its turns: the token, or \<open>None\<close> at the end of the input or for a line that
  is too long. The bound \<open>unread\<close> is enough: every turn without a token reads.
\<close>

definition unread :: "scanner \<Rightarrow> nat" where
  "unread sc = length (concat (map fst (sc_in sc))) + length (sc_in sc) + (if sc_err sc = None then 1 else 0)"

definition token :: "store \<Rightarrow> scanner \<Rightarrow> nat \<times> nat option" where
  "token st sc =
     (if sc_end sc > sc_start sc \<or> sc_err sc \<noteq> None then ScanLines (buffered st sc) (sc_err sc \<noteq> None) else (0, None))"

fun scanLoop :: "nat \<Rightarrow> store \<Rightarrow> scanner \<Rightarrow> (store \<times> scanner \<times> slice option) option" where
  "scanLoop 0 st sc = None"
| "scanLoop (Suc k) st sc =
     (case token st sc of
        (adv, Some n) \<Rightarrow> Some (st, sc\<lparr>sc_start := sc_start sc + adv\<rparr>, Some (sc_arr sc, sc_start sc, n))
      | (adv, None) \<Rightarrow>
          if sc_err sc \<noteq> None then Some (st, sc\<lparr>sc_start := 0, sc_end := 0\<rparr>, None)
          else case refill st sc of
                 None \<Rightarrow> Some (st, sc, None)
               | Some (st', sc') \<Rightarrow> scanLoop k st' sc')"

definition Scan :: "store \<Rightarrow> scanner \<Rightarrow> (store \<times> scanner \<times> slice option) option" where
  "Scan st sc = scanLoop (unread sc + 1) st sc"

section \<open>Invariant\<close>

text \<open>The scanner's indices lie in its buffer.\<close>

definition scanner_ok :: "store \<Rightarrow> scanner \<Rightarrow> bool" where
  "scanner_ok st sc \<longleftrightarrow> sc_arr sc < length st \<and> sc_start sc \<le> sc_end sc \<and> sc_end sc \<le> bufLen st sc"

text \<open>What the scanner still has to deliver: the rest of the buffer and the input.\<close>

definition pendingInput :: "store \<Rightarrow> scanner \<Rightarrow> bytes" where
  "pendingInput st sc = buffered st sc @ concat (map fst (sc_in sc))"

lemma length_blit: "off + length bs \<le> length arr \<Longrightarrow> length (blit bs off arr) = length arr"
  by (simp add: blit_def)

lemma blit_window:
  assumes "i \<le> j" "j + length d \<le> length arr"
  shows "take (j + length d - i) (drop i (blit d j arr)) = take (j - i) (drop i arr) @ d"
proof -
  have "drop i (blit d j arr) = take (j - i) (drop i arr) @ d @ drop (j + length d) arr"
    using assms by (simp add: blit_def drop_take)
  moreover have "length (take (j - i) (drop i arr)) = j - i" using assms by simp
  moreover have "j + length d - i = (j - i) + length d" using assms by simp
  ultimately show ?thesis by simp
qed

lemma length_buffered: "scanner_ok st sc \<Longrightarrow> length (buffered st sc) = sc_end sc - sc_start sc"
  by (auto simp: buffered_def scanner_ok_def bufLen_def min_def)

lemma shift_ok:
  assumes "scanner_ok st sc" "shift st sc = (st', sc')"
  shows "scanner_ok st' sc' \<and> buffered st' sc' = buffered st sc \<and> sc_in sc' = sc_in sc \<and> sc_err sc' = sc_err sc \<and>
    (sc_start sc' = 0 \<or> sc_end sc' < bufLen st' sc') \<and> bufLen st' sc' = bufLen st sc"
proof (cases "sc_start sc > 0 \<and> (sc_end sc = bufLen st sc \<or> sc_start sc > bufLen st sc div 2)")
  case True
  then have s: "st' = st[sc_arr sc := blit (buffered st sc) 0 (st ! sc_arr sc)]"
      "sc' = sc\<lparr>sc_start := 0, sc_end := sc_end sc - sc_start sc\<rparr>"
    using assms(2) by (auto simp: shift_def)
  have "length (blit (buffered st sc) 0 (st ! sc_arr sc)) = bufLen st sc"
    using assms(1) length_buffered [OF assms(1)] by (subst length_blit) (auto simp: scanner_ok_def bufLen_def)
  then show ?thesis
    using s assms(1) length_buffered [OF assms(1)]
    by (auto simp: scanner_ok_def bufLen_def buffered_def [of "_[_ := _]"] blit_def)
next
  case False
  then have "st' = st" "sc' = sc" using assms(2) by (auto simp: shift_def split: if_splits)
  then show ?thesis using False assms(1) by (auto simp: scanner_ok_def)
qed

lemma grow_ok:
  assumes "scanner_ok st sc" "grow st sc = Some (st', sc')" "sc_start sc = 0 \<or> sc_end sc < bufLen st sc"
  shows "scanner_ok st' sc' \<and> buffered st' sc' = buffered st sc \<and> sc_in sc' = sc_in sc \<and> sc_err sc' = sc_err sc \<and>
    sc_end sc' < bufLen st' sc'"
proof (cases "sc_end sc = bufLen st sc")
  case True
  define newSize where "newSize = min (if bufLen st sc * 2 = 0 then startBufSize else bufLen st sc * 2) maxTokenSize"
  have s: "st' = st @ [blit (buffered st sc) 0 (replicate newSize 0)]" "bufLen st sc < maxTokenSize"
      "sc' = sc\<lparr>sc_arr := length st, sc_start := 0, sc_end := sc_end sc - sc_start sc\<rparr>"
    using assms(2) True by (auto simp: grow_def Let_def newSize_def split: if_splits)
  have big: "bufLen st sc < newSize" using s(2) by (auto simp: newSize_def startBufSize_def maxTokenSize_def)
  have "length (blit (buffered st sc) 0 (replicate newSize 0)) = newSize"
    using big True length_buffered [OF assms(1)] by (subst length_blit) auto
  then show ?thesis
    using s big True length_buffered [OF assms(1)]
    by (auto simp: scanner_ok_def bufLen_def buffered_def [of "_ @ _"] nth_append blit_def)
next
  case False
  then have "st' = st" "sc' = sc" using assms(2) by (auto simp: grow_def)
  then show ?thesis using False assms(1) by (auto simp: scanner_ok_def)
qed

lemma readMore_ok:
  assumes "scanner_ok st sc" "readMore st sc = (st', sc')" "sc_end sc < bufLen st sc" "sc_err sc = None"
  shows "scanner_ok st' sc' \<and> pendingInput st' sc' = pendingInput st sc \<and> unread sc' < unread sc \<and>
    (sc_err sc' = Some IoEOF \<and> sc_in sc' = [] \<or> (\<exists>d e rest. sc_in sc = (d, e) # rest \<and>
       (sc_err sc' = e \<and> sc_in sc' = rest \<or> sc_err sc' = None \<and> (\<exists>d'. sc_in sc' = (d', e) # rest))))"
proof -
  have buf: "buffered (st[sc_arr sc := blit d (sc_end sc) (st ! sc_arr sc)]) (sc\<lparr>sc_end := sc_end sc + length d, sc_err := e, sc_in := r\<rparr>) =
      buffered st sc @ d" if "length d \<le> bufLen st sc - sc_end sc" for d e r
  proof -
    have "sc_end sc + length d \<le> length (st ! sc_arr sc)" using assms(1) that by (auto simp: scanner_ok_def bufLen_def)
    then show ?thesis using blit_window [of "sc_start sc" "sc_end sc" d "st ! sc_arr sc"] assms(1) by (simp add: scanner_ok_def buffered_def)
  qed
  show ?thesis
  proof (cases "sc_in sc")
    case Nil
    then show ?thesis using assms by (auto simp: readMore_def scanner_ok_def bufLen_def pendingInput_def buffered_def unread_def)
  next
    case (Cons x rest)
    obtain d e where x: "x = (d, e)" by force
    let ?space = "bufLen st sc - sc_end sc"
    show ?thesis
    proof (cases "length d \<le> ?space")
      case True
      then have "st' = st[sc_arr sc := blit d (sc_end sc) (st ! sc_arr sc)]"
          "sc' = sc\<lparr>sc_end := sc_end sc + length d, sc_err := e, sc_in := rest\<rparr>"
        using assms(2) Cons x by (auto simp: readMore_def Let_def)
      then show ?thesis
        using buf [OF True, of rest e] True assms(1,4) Cons x length_blit [of "sc_end sc" d "st ! sc_arr sc"]
        by (auto simp: scanner_ok_def bufLen_def pendingInput_def unread_def)
    next
      case False
      then have s: "st' = st[sc_arr sc := blit (take ?space d) (sc_end sc) (st ! sc_arr sc)]"
          "sc' = sc\<lparr>sc_end := sc_end sc + length (take ?space d), sc_err := None, sc_in := (drop ?space d, e) # rest\<rparr>"
        using assms(2,4) Cons x by (auto simp: readMore_def Let_def min_def)
      have "unread sc' < unread sc" using s(2) False assms(3,4) Cons x by (simp add: unread_def)
      then show ?thesis
        using buf [of "take ?space d" "(drop ?space d, e) # rest" None] s False assms(1) Cons x
          length_blit [of "sc_end sc" "take ?space d" "st ! sc_arr sc"]
        by (auto simp: scanner_ok_def bufLen_def pendingInput_def)
    qed
  qed
qed

lemma refill_ok:
  assumes "scanner_ok st sc" "refill st sc = Some (st', sc')" "sc_err sc = None"
  shows "scanner_ok st' sc'" "pendingInput st' sc' = pendingInput st sc" "unread sc' < unread sc"
    "sc_err sc' = Some IoEOF \<and> sc_in sc' = [] \<or> (\<exists>d e rest. sc_in sc = (d, e) # rest \<and>
       (sc_err sc' = e \<and> sc_in sc' = rest \<or> sc_err sc' = None \<and> (\<exists>d'. sc_in sc' = (d', e) # rest)))"
proof -
  obtain st1 sc1 st2 sc2 where s: "shift st sc = (st1, sc1)" "grow st1 sc1 = Some (st2, sc2)" "readMore st2 sc2 = (st', sc')"
    using assms(2) by (auto simp: refill_def split: prod.splits option.splits)
  note a = shift_ok [OF assms(1) s(1)]
  then have b: "scanner_ok st2 sc2 \<and> buffered st2 sc2 = buffered st1 sc1 \<and> sc_in sc2 = sc_in sc1 \<and> sc_err sc2 = sc_err sc1 \<and> sc_end sc2 < bufLen st2 sc2"
    using grow_ok [OF _ s(2)] by blast
  then have "scanner_ok st' sc' \<and> pendingInput st' sc' = pendingInput st2 sc2 \<and> unread sc' < unread sc2 \<and>
    (sc_err sc' = Some IoEOF \<and> sc_in sc' = [] \<or> (\<exists>d e rest. sc_in sc2 = (d, e) # rest \<and>
       (sc_err sc' = e \<and> sc_in sc' = rest \<or> sc_err sc' = None \<and> (\<exists>d'. sc_in sc' = (d', e) # rest))))"
    using readMore_ok [OF _ s(3)] a assms(3) by simp
  then show "scanner_ok st' sc'" "pendingInput st' sc' = pendingInput st sc" "unread sc' < unread sc"
    "sc_err sc' = Some IoEOF \<and> sc_in sc' = [] \<or> (\<exists>d e rest. sc_in sc = (d, e) # rest \<and>
       (sc_err sc' = e \<and> sc_in sc' = rest \<or> sc_err sc' = None \<and> (\<exists>d'. sc_in sc' = (d', e) # rest)))"
    using a b by (simp_all add: pendingInput_def unread_def)
qed

section \<open>Tokens are lines\<close>

definition firstLine :: "bytes \<Rightarrow> bytes" where "firstLine bs = takeWhile (\<lambda>b. b \<noteq> lf) bs"
definition afterLine :: "bytes \<Rightarrow> bytes" where "afterLine bs = tl (dropWhile (\<lambda>b. b \<noteq> lf) bs)"

lemma firstLine_append:
  "lf \<in> set xs \<Longrightarrow> firstLine (xs @ ys) = firstLine xs" "lf \<notin> set xs \<Longrightarrow> firstLine (xs @ ys) = xs @ firstLine ys"
  "lf \<in> set xs \<Longrightarrow> afterLine (xs @ ys) = afterLine xs @ ys"
proof -
  show "lf \<in> set xs \<Longrightarrow> firstLine (xs @ ys) = firstLine xs" by (auto simp: firstLine_def intro: takeWhile_append1)
  show "lf \<notin> set xs \<Longrightarrow> firstLine (xs @ ys) = xs @ firstLine ys" by (auto simp: firstLine_def intro!: takeWhile_append2)
  assume lf: "lf \<in> set xs"
  then have "dropWhile (\<lambda>b. b \<noteq> lf) (xs @ ys) = dropWhile (\<lambda>b. b \<noteq> lf) xs @ ys" by (intro dropWhile_append1) auto
  moreover have "dropWhile (\<lambda>b. b \<noteq> lf) xs \<noteq> []" using lf dropWhile_eq_Nil_conv [of "\<lambda>b. b \<noteq> lf" xs] by auto
  ultimately show "afterLine (xs @ ys) = afterLine xs @ ys" by (simp add: afterLine_def)
qed

lemma firstLine_id: "lf \<notin> set bs \<Longrightarrow> firstLine bs = bs \<and> afterLine bs = []"
proof -
  assume "lf \<notin> set bs"
  then have "\<forall>b\<in>set bs. b \<noteq> lf" by metis
  then show ?thesis unfolding firstLine_def afterLine_def by (simp add: dropWhile_eq_Nil_conv [THEN iffD2])
qed

lemma take_firstLine: "take (length (firstLine bs)) bs = firstLine bs" "lf \<in> set bs \<Longrightarrow> drop (length (firstLine bs) + 1) bs = afterLine bs"
  "length (firstLine bs) \<le> length bs" "lf \<in> set bs \<Longrightarrow> length (firstLine bs) < length bs"
proof -
  have bs: "bs = firstLine bs @ dropWhile (\<lambda>b. b \<noteq> lf) bs" by (simp add: firstLine_def)
  then show "take (length (firstLine bs)) bs = firstLine bs" by (metis append_eq_conv_conj)
  show "length (firstLine bs) \<le> length bs" by (simp add: firstLine_def length_takeWhile_le)
  have "drop (length (firstLine bs)) bs = dropWhile (\<lambda>b. b \<noteq> lf) bs" using bs by (metis append_eq_conv_conj)
  then show "drop (length (firstLine bs) + 1) bs = afterLine bs"
    by (simp add: afterLine_def flip: drop_Suc tl_drop) (metis drop_Suc tl_drop)
  assume "lf \<in> set bs"
  then have "dropWhile (\<lambda>b. b \<noteq> lf) bs \<noteq> []" using dropWhile_eq_Nil_conv [of "\<lambda>b. b \<noteq> lf" bs] by auto
  then show "length (firstLine bs) < length bs" using bs by (metis length_append length_greater_0_conv less_add_same_cancel1)
qed

lemma take_trimCR: "take (length (trimCR l)) l = trimCR l" "length (trimCR l) \<le> length l"
  by (auto simp: trimCR_def butlast_conv_take)

text \<open>No read fails before the end.\<close>

definition inputClean :: "scanner \<Rightarrow> bool" where
  "inputClean sc \<longleftrightarrow> (\<forall>x\<in>set (sc_in sc). snd x = None) \<and> (sc_err sc = None \<or> sc_err sc = Some IoEOF \<and> sc_in sc = [])"

lemma refill_clean:
  assumes "scanner_ok st sc" "refill st sc = Some (st', sc')" "inputClean sc" "sc_err sc = None"
  shows "inputClean sc'"
  using refill_ok(4) [OF assms(1,2,4)] assms(3) by (fastforce simp: inputClean_def)

lemma refill_none:
  assumes "scanner_ok st sc" "refill st sc = None"
  shows "maxTokenSize \<le> length (buffered st sc)"
proof -
  obtain st1 sc1 where s: "shift st sc = (st1, sc1)" "grow st1 sc1 = None"
    using assms(2) by (auto simp: refill_def split: prod.splits option.splits)
  note a = shift_ok [OF assms(1) s(1)]
  then show ?thesis using s(2) length_buffered [of st1 sc1] by (auto simp: grow_def Let_def split: if_splits)
qed

text \<open>What a token stands for.\<close>

lemma token_line:
  assumes "scanner_ok st sc" "inputClean sc" "token st sc = (adv, Some n)"
  shows "deref st (sc_arr sc, sc_start sc, n) = trimCR (firstLine (pendingInput st sc))"
    "scanner_ok st (sc\<lparr>sc_start := sc_start sc + adv\<rparr>)"
    "pendingInput st (sc\<lparr>sc_start := sc_start sc + adv\<rparr>) = afterLine (pendingInput st sc)"
    "pendingInput st sc \<noteq> []"
proof -
  let ?b = "buffered st sc"
  have len: "length ?b = sc_end sc - sc_start sc" by (rule length_buffered [OF assms(1)])
  have d: "deref st (sc_arr sc, sc_start sc, m) = take m ?b" if "m \<le> length ?b" for m
    using that len by (simp add: deref_def buffered_def min_def)
  have adv: "buffered st (sc\<lparr>sc_start := sc_start sc + adv\<rparr>) = drop adv ?b"
    by (simp add: buffered_def drop_take add.commute)
  consider (line) "lf \<in> set ?b" "adv = length (firstLine ?b) + 1" "n = length (trimCR (firstLine ?b))"
    | (rest) "lf \<notin> set ?b" "?b \<noteq> []" "sc_in sc = []" "adv = length ?b" "n = length (trimCR ?b)"
    using assms(2,3) by (auto simp: token_def ScanLines_def Let_def firstLine_def inputClean_def split: if_splits)
  then have "take n ?b = trimCR (firstLine (pendingInput st sc)) \<and> n \<le> length ?b \<and> adv \<le> length ?b \<and> drop adv ?b @ concat (map fst (sc_in sc)) = afterLine (pendingInput st sc) \<and> pendingInput st sc \<noteq> []"
  proof cases
    case line
    have "take n ?b = take n (firstLine ?b)" using line(3) take_trimCR(2) [of "firstLine ?b"] take_firstLine(1) [of ?b]
      by (metis min.absorb1 take_take)
    then show ?thesis
      using line take_trimCR [of "firstLine ?b"] take_firstLine(2-4) [of ?b] firstLine_append [of ?b "concat (map fst (sc_in sc))"]
      by (auto simp: pendingInput_def)
  next
    case rest
    then show ?thesis using take_trimCR [of ?b] firstLine_id [of ?b] by (simp add: pendingInput_def)
  qed
  then show "deref st (sc_arr sc, sc_start sc, n) = trimCR (firstLine (pendingInput st sc))"
    "scanner_ok st (sc\<lparr>sc_start := sc_start sc + adv\<rparr>)"
    "pendingInput st (sc\<lparr>sc_start := sc_start sc + adv\<rparr>) = afterLine (pendingInput st sc)"
    "pendingInput st sc \<noteq> []"
    using d [of n] adv assms(1) len by (auto simp: pendingInput_def scanner_ok_def bufLen_def)
qed

lemma scanLoop_spec:
  assumes "unread sc < k" "scanner_ok st sc" "inputClean sc" "length (firstLine (pendingInput st sc)) < maxTokenSize"
  shows "if pendingInput st sc = [] then \<exists>st' sc'. scanLoop k st sc = Some (st', sc', None)
    else \<exists>st' sc' t. scanLoop k st sc = Some (st', sc', Some t) \<and> deref st' t = trimCR (firstLine (pendingInput st sc)) \<and>
      scanner_ok st' sc' \<and> inputClean sc' \<and> pendingInput st' sc' = afterLine (pendingInput st sc)"
  using assms
proof (induction k arbitrary: st sc)
  case (Suc k)
  obtain adv r where t: "token st sc = (adv, r)" by force
  show ?case
  proof (cases r)
    case (Some n)
    then show ?thesis
      using token_line [OF Suc.prems(2,3)] t Suc.prems(3) by (auto simp: inputClean_def)
  next
    case None
    show ?thesis
    proof (cases "sc_err sc = None")
      case False
      then have "buffered st sc = []" "sc_in sc = []"
        using t None Suc.prems(3) by (auto simp: token_def ScanLines_def Let_def inputClean_def split: if_splits)
      then show ?thesis using t None False by (simp add: pendingInput_def)
    next
      case True
      have no: "lf \<notin> set (buffered st sc)"
        using t None True length_buffered [OF Suc.prems(2)] by (auto simp: token_def ScanLines_def Let_def split: if_splits)
      then have "length (buffered st sc) < maxTokenSize"
        using Suc.prems(4) firstLine_append(2) [of "buffered st sc" "concat (map fst (sc_in sc))"] by (simp add: pendingInput_def)
      then obtain st' sc' where r: "refill st sc = Some (st', sc')" using refill_none [OF Suc.prems(2)] by fastforce
      note ok = refill_ok [OF Suc.prems(2) r True] refill_clean [OF Suc.prems(2) r Suc.prems(3) True]
      then have lt: "unread sc' < k" using Suc.prems(1) by simp
      have fit: "length (firstLine (pendingInput st' sc')) < maxTokenSize" using ok(2) Suc.prems(4) by simp
      note Suc.IH [OF lt ok(1,5) fit, unfolded ok(2)]
      moreover have "scanLoop (Suc k) st sc = scanLoop k st' sc'" using t None True r by simp
      ultimately show ?thesis by (metis (no_types))
    qed
  qed
qed simp

text \<open>The lines of a text; a last line need not be terminated.\<close>

function linesOf :: "bytes \<Rightarrow> bytes list" where
  "linesOf bs = (if bs = [] then [] else trimCR (firstLine bs) # linesOf (afterLine bs))"
  by auto

lemma length_afterLine: "bs \<noteq> [] \<Longrightarrow> length (afterLine bs) < length bs"
proof -
  assume "bs \<noteq> []"
  then have "0 < length bs" by simp
  with length_dropWhile_le [of "\<lambda>b. b \<noteq> lf" bs] show ?thesis unfolding afterLine_def length_tl by linarith
qed

termination linesOf by (relation "measure length") (auto intro: length_afterLine)

declare linesOf.simps [simp del]

text \<open>Every line is shorter than the limit.\<close>

function linesFit :: "bytes \<Rightarrow> bool" where
  "linesFit bs = (if bs = [] then True else length (firstLine bs) < maxTokenSize \<and> linesFit (afterLine bs))"
  by auto
termination linesFit by (relation "measure length") (auto intro: length_afterLine)

declare linesFit.simps [simp del]

lemma Scan_spec:
  assumes "scanner_ok st sc" "inputClean sc" "linesFit (pendingInput st sc)"
  shows "pendingInput st sc = [] \<Longrightarrow> \<exists>st' sc'. Scan st sc = Some (st', sc', None)"
    "pendingInput st sc \<noteq> [] \<Longrightarrow> \<exists>st' sc' t. Scan st sc = Some (st', sc', Some t) \<and>
       deref st' t = trimCR (firstLine (pendingInput st sc)) \<and> scanner_ok st' sc' \<and> inputClean sc' \<and>
       pendingInput st' sc' = afterLine (pendingInput st sc)"
proof -
  have "length (firstLine (pendingInput st sc)) < maxTokenSize"
    using assms(3) linesFit.simps [of "pendingInput st sc"]
    by (cases "pendingInput st sc = []") (simp_all add: firstLine_def maxTokenSize_def)
  then show "pendingInput st sc = [] \<Longrightarrow> \<exists>st' sc'. Scan st sc = Some (st', sc', None)"
    "pendingInput st sc \<noteq> [] \<Longrightarrow> \<exists>st' sc' t. Scan st sc = Some (st', sc', Some t) \<and>
       deref st' t = trimCR (firstLine (pendingInput st sc)) \<and> scanner_ok st' sc' \<and> inputClean sc' \<and>
       pendingInput st' sc' = afterLine (pendingInput st sc)"
    using scanLoop_spec [OF _ assms(1,2), of "unread sc + 1"] by (simp_all add: Scan_def)
qed

text \<open>The scanner over an empty first buffer.\<close>

lemma newScanner_ok: "scanner_ok [[]] (newScanner reads)" "pendingInput [[]] (newScanner reads) = concat (map fst reads)"
  "inputClean (newScanner reads) \<longleftrightarrow> (\<forall>x\<in>set reads. snd x = None)"
  by (simp_all add: scanner_ok_def newScanner_def bufLen_def pendingInput_def buffered_def inputClean_def)

section \<open>A token is overwritten later\<close>

text \<open>One line per read, into a buffer with nothing left over in it.\<close>

definition idle :: "store \<Rightarrow> scanner \<Rightarrow> nat \<Rightarrow> bool" where
  "idle st sc n \<longleftrightarrow> sc_arr sc < length st \<and> sc_start sc = n \<and> sc_end sc = n \<and> n < bufLen st sc \<and> bufLen st sc = startBufSize \<and> sc_err sc = None"

definition plainLine :: "bytes \<Rightarrow> bool" where
  "plainLine l \<longleftrightarrow> lf \<notin> set l \<and> (l = [] \<or> last l \<noteq> crb)"

lemma ScanLines_plain: "plainLine l \<Longrightarrow> ScanLines (l @ [lf]) b = (length l + 1, Some (length l))"
  using firstLine_append(2) [of l "[lf]"] by (auto simp: ScanLines_def plainLine_def trimCR_def firstLine_def Let_def)

text \<open>
  The next line goes behind the last one, or to the front once more than half of the buffer is used.
\<close>

definition nextPos :: "nat \<Rightarrow> nat" where
  "nextPos n = (if n > startBufSize div 2 then 0 else n)"

lemma shift_idle:
  assumes "idle st sc n"
  shows "shift st sc = (st, sc\<lparr>sc_start := nextPos n, sc_end := nextPos n\<rparr>)"
proof (cases "n > startBufSize div 2")
  case True
  then have "shift st sc = (st[sc_arr sc := st ! sc_arr sc], sc\<lparr>sc_start := 0, sc_end := 0\<rparr>)"
    using assms by (auto simp: shift_def idle_def buffered_def blit_def bufLen_def)
  then show ?thesis using True by (simp add: nextPos_def)
next
  case False
  then show ?thesis using assms by (cases sc) (auto simp: shift_def idle_def nextPos_def startBufSize_def)
qed

lemma scanLoop_line:
  assumes "idle st sc n" "sc_in sc = (l @ [lf], None) # rest" "plainLine l" "nextPos n + length l + 1 < startBufSize"
  shows "Scan st sc = Some (st[sc_arr sc := blit (l @ [lf]) (nextPos n) (st ! sc_arr sc)],
    sc\<lparr>sc_start := nextPos n + length l + 1, sc_end := nextPos n + length l + 1, sc_in := rest\<rparr>, Some (sc_arr sc, nextPos n, length l))"
proof -
  let ?st = "st[sc_arr sc := blit (l @ [lf]) (nextPos n) (st ! sc_arr sc)]"
  let ?sc = "sc\<lparr>sc_start := nextPos n, sc_end := nextPos n + (length l + 1), sc_err := None, sc_in := rest\<rparr>"
  have a: "sc_arr sc < length st" "bufLen st sc = startBufSize" "sc_err sc = None" using assms(1) by (auto simp: idle_def)
  have t0: "token st sc = (0, None)" using assms(1) by (simp add: token_def idle_def)
  have "Suc (length l) \<le> startBufSize - nextPos n" using assms(4) by linarith
  then have r: "refill st sc = Some (?st, ?sc)"
    using assms(2,4) a by (simp add: refill_def shift_idle [OF assms(1)] grow_def readMore_def bufLen_def Let_def)
  have "buffered ?st ?sc = l @ [lf]"
    using blit_window [of "nextPos n" "nextPos n" "l @ [lf]" "st ! sc_arr sc"] assms(4) a by (simp add: buffered_def bufLen_def)
  then have t1: "token ?st ?sc = (length l + 1, Some (length l))" using ScanLines_plain [OF assms(3)] by (simp add: token_def)
  have k: "unread sc + 1 = Suc (Suc (unread sc - 1))" using a(3) by (simp add: unread_def)
  show ?thesis using t0 r t1 a(3) unfolding Scan_def k by simp
qed

lemma blit_before: "off \<le> length arr \<Longrightarrow> take off (blit bs off arr) = take off arr"
  by (simp add: blit_def)

end
