(* ===== verification/Text_Lines.thy ===== *)
theory Text_Lines
  imports P2P_Prelude
begin

text \<open>
  Text over a byte stream, as the relay protocol and the identity files use it: reading up to a line feed
  through a buffered reader, and trimming line ends. A character is a byte.
\<close>

definition nl :: char where "nl = CHR 0x0A"
definition cr :: char where "cr = CHR 0x0D"

lemma nl_cr [simp]: "nl \<noteq> cr" "cr \<noteq> nl"
  by (simp_all add: nl_def cr_def)

text \<open>
  \<^verbatim>\<open>bufio.Reader.ReadString('\n')\<close>: the line with its end and what is left, or the error \<open>e\<close> that follows
  the available bytes; these are then consumed.
\<close>

definition ReadString :: "string \<Rightarrow> error \<Rightarrow> string result \<times> string" where
  "ReadString s e =
     (case dropWhile (\<lambda>c. c \<noteq> nl) s of
        [] \<Rightarrow> (Inl e, [])
      | _ # rest \<Rightarrow> (Inr (takeWhile (\<lambda>c. c \<noteq> nl) s @ [nl]), rest))"

definition TrimRight :: "string \<Rightarrow> string" where
  "TrimRight s = rev (dropWhile (\<lambda>c. c = cr \<or> c = nl) (rev s))"

text \<open>Blanks around a text.\<close>

definition isSpace :: "char \<Rightarrow> bool" where
  "isSpace c \<longleftrightarrow> c \<in> {CHR 0x09, CHR 0x0A, CHR 0x0B, CHR 0x0C, CHR 0x0D, CHR 0x20}"

lemma isSpace_ends [simp]: "isSpace nl" "isSpace cr" "isSpace CHR 0x20"
  by (simp_all add: isSpace_def nl_def cr_def)

definition TrimSpace :: "string \<Rightarrow> string" where
  "TrimSpace s = rev (dropWhile isSpace (rev (dropWhile isSpace s)))"

text \<open>A number in decimal digits.\<close>

fun decimal :: "nat \<Rightarrow> string" where
  "decimal n = (if n < 10 then [char_of (48 + n)] else decimal (n div 10) @ [char_of (48 + n mod 10)])"

declare decimal.simps [simp del]

lemma decimal_digit: "c \<in> set (decimal n) \<Longrightarrow> (48 :: nat) \<le> of_char c \<and> of_char c \<le> (57 :: nat)"
proof (induction n rule: decimal.induct)
  case (1 n)
  then show ?case using decimal.simps [of n] by (auto split: if_splits)
qed

lemma decimal_nonempty: "decimal n \<noteq> []"
  by (subst decimal.simps) simp

lemma decimal_hd: "hd (decimal n) \<noteq> CHR ''-''" "hd (decimal n) \<noteq> CHR ''+''"
proof -
  have d: "(48 :: nat) \<le> of_char (hd (decimal n))" using decimal_digit [OF hd_in_set [OF decimal_nonempty]] by blast
  show "hd (decimal n) \<noteq> CHR ''-''"
  proof
    assume "hd (decimal n) = CHR ''-''"
    with d show False by simp
  qed
  show "hd (decimal n) \<noteq> CHR ''+''"
  proof
    assume "hd (decimal n) = CHR ''+''"
    with d show False by simp
  qed
qed

text \<open>A line that survives being written with a line feed and trimmed again.\<close>

definition isLine :: "string \<Rightarrow> bool" where
  "isLine s \<longleftrightarrow> nl \<notin> set s \<and> (s = [] \<or> last s \<noteq> cr)"

lemma ReadString_line [simp]: "nl \<notin> set l \<Longrightarrow> ReadString (l @ nl # rest) e = (Inr (l @ [nl]), rest)"
proof -
  assume l: "nl \<notin> set l"
  then have "\<forall>c\<in>set l. c \<noteq> nl" by metis
  then show ?thesis by (simp add: ReadString_def dropWhile_append2 takeWhile_append2)
qed

lemma ReadString_line_end [simp]: "nl \<notin> set l \<Longrightarrow> ReadString (l @ [nl]) e = (Inr (l @ [nl]), [])"
  using ReadString_line [of l "[]"] by simp

lemma ReadString_none: "nl \<notin> set s \<Longrightarrow> ReadString s e = (Inl e, [])"
proof -
  assume "nl \<notin> set s"
  then have "dropWhile (\<lambda>c. c \<noteq> nl) s = []" unfolding dropWhile_eq_Nil_conv by blast
  then show ?thesis unfolding ReadString_def by (simp del: dropWhile_eq_Nil_conv)
qed

lemma ReadString_Inr:
  assumes "ReadString s e = (Inr line, rest)"
  shows "s = line @ rest \<and> (\<exists>l. line = l @ [nl] \<and> nl \<notin> set l)"
proof -
  from assms obtain c where c: "dropWhile (\<lambda>c. c \<noteq> nl) s = c # rest"
    and l: "line = takeWhile (\<lambda>c. c \<noteq> nl) s @ [nl]"
    by (auto simp: ReadString_def split: list.splits)
  have "c = nl" using hd_dropWhile [of "\<lambda>c. c \<noteq> nl" s] c by simp
  then have "s = line @ rest" using takeWhile_dropWhile_id [of "\<lambda>c. c \<noteq> nl" s] c l by simp
  then show ?thesis using l by (auto dest: set_takeWhileD)
qed

lemma TrimRight_snoc_nl [simp]: "TrimRight (s @ [nl]) = TrimRight s"
  by (simp add: TrimRight_def)

lemma TrimRight_line [simp]: "isLine l \<Longrightarrow> TrimRight l = l"
proof (cases l rule: rev_cases)
  case (snoc l' c)
  assume "isLine l"
  then have "c \<noteq> nl" "c \<noteq> cr" using snoc by (auto simp: isLine_def)
  then show ?thesis using snoc by (simp add: TrimRight_def)
qed (simp add: TrimRight_def)

text \<open>A line cut short of its line feed is never read.\<close>

lemma ReadString_take_short: "nl \<notin> set l \<Longrightarrow> n \<le> length l \<Longrightarrow> ReadString (take n (l @ nl # rest)) e = (Inl e, [])"
  by (intro ReadString_none) (auto dest: in_set_takeD)

section \<open>Texts as bytes\<close>

definition asBytes :: "string \<Rightarrow> bytes" where "asBytes s = map (\<lambda>c. of_nat (of_char c)) s"
definition asText :: "bytes \<Rightarrow> string" where "asText b = map (\<lambda>x. char_of (unat x)) b"

lemma asText_asBytes [simp]: "asText (asBytes s) = s"
proof -
  have "char_of (unat (of_nat (of_char c) :: byte)) = c" for c
    by (simp add: unat_of_nat of_char_mod_256)
  then show ?thesis by (simp add: asText_def asBytes_def o_def)
qed

end
