(* ===== verification/Base64_Text.thy ===== *)
theory Base64_Text
  imports Text_Lines
begin

text \<open>
  What the identity files use of Go's library: \<^verbatim>\<open>base64.StdEncoding\<close>, \<^verbatim>\<open>bufio.Scanner\<close> over lines and
  \<^verbatim>\<open>strings.Fields\<close>. Text is ASCII.
\<close>

section \<open>Base64\<close>

definition alphabet :: string where
  "alphabet = ''ABCDEFGHIJKLMNOPQRSTUVWXYZabcdefghijklmnopqrstuvwxyz0123456789+/''"

definition sym :: "nat \<Rightarrow> char" where "sym n = alphabet ! n"

fun position :: "char \<Rightarrow> string \<Rightarrow> nat option" where
  "position c [] = None"
| "position c (d # ds) = (if c = d then Some 0 else map_option Suc (position c ds))"

definition val64 :: "char \<Rightarrow> nat option" where "val64 c = position c alphabet"

definition pad :: char where "pad = CHR ''=''"

fun EncodeToString :: "bytes \<Rightarrow> string" where
  "EncodeToString [] = []"
| "EncodeToString [a] = [sym (unat a div 4), sym (unat a mod 4 * 16), pad, pad]"
| "EncodeToString [a, b] =
     [sym (unat a div 4), sym (unat a mod 4 * 16 + unat b div 16), sym (unat b mod 16 * 4), pad]"
| "EncodeToString (a # b # c # bs) =
     [sym (unat a div 4), sym (unat a mod 4 * 16 + unat b div 16), sym (unat b mod 16 * 4 + unat c div 64),
      sym (unat c mod 64)] @ EncodeToString bs"

definition quantum :: "nat \<Rightarrow> nat \<Rightarrow> nat \<Rightarrow> nat \<Rightarrow> bytes" where
  "quantum w x y z = map word_of_nat [w * 4 + x div 16, x mod 16 * 16 + y div 4, y mod 4 * 64 + z]"

text \<open>Decoding groups of four; padding is allowed in the last group only.\<close>

fun decode64 :: "string \<Rightarrow> bytes option" where
  "decode64 [] = Some []"
| "decode64 (a # b # c # d # cs) =
     (case (val64 a, val64 b) of
        (Some w, Some x) \<Rightarrow>
          (case val64 c of
             None \<Rightarrow> if c = pad \<and> d = pad \<and> cs = [] then Some (take 1 (quantum w x 0 0)) else None
           | Some y \<Rightarrow>
               (case val64 d of
                  None \<Rightarrow> if d = pad \<and> cs = [] then Some (take 2 (quantum w x y 0)) else None
                | Some z \<Rightarrow> map_option (\<lambda>bs. quantum w x y z @ bs) (decode64 cs)))
      | _ \<Rightarrow> None)"
| "decode64 _ = None"

definition DecodeString :: "string \<Rightarrow> bytes option" where
  "DecodeString s = decode64 (filter (\<lambda>c. c \<noteq> nl \<and> c \<noteq> cr) s)"

lemma position_nth: "distinct xs \<Longrightarrow> n < length xs \<Longrightarrow> position (xs ! n) xs = Some n"
proof (induction xs arbitrary: n)
  case (Cons x xs)
  then show ?case by (cases n) (auto simp: nth_mem)
qed simp

lemma alphabet_facts: "distinct alphabet" "length alphabet = 64" "pad \<notin> set alphabet" "nl \<notin> set alphabet" "cr \<notin> set alphabet"
  by (simp_all add: alphabet_def pad_def nl_def cr_def)

lemma val64_sym [simp]: "n < 64 \<Longrightarrow> val64 (sym n) = Some n"
  by (simp add: val64_def sym_def position_nth alphabet_facts)

lemma position_None: "position c xs = None \<longleftrightarrow> c \<notin> set xs"
  by (induction xs) auto

lemma val64_pad [simp]: "val64 pad = None"
  by (simp add: val64_def position_None alphabet_facts)

lemma sym_in: "n < 64 \<Longrightarrow> sym n \<in> set alphabet"
  by (simp add: sym_def alphabet_facts)

lemma unat_byte: "unat (a :: byte) < 256"
  using unsigned_less [of a, where 'a = nat] by simp

lemma byte_div: "unat (a :: byte) div 4 < 64" "unat a div 16 < 16" "unat a div 64 < 4"
  using unat_byte [of a] by (simp_all add: less_mult_imp_div_less)

lemma byte_parts:
  "unat (a :: byte) div 4 < 64" "unat a mod 4 * 16 < 64" "unat a mod 4 * 16 + unat (b :: byte) div 16 < 64"
  "unat a mod 16 * 4 < 64" "unat a mod 16 * 4 + unat b div 64 < 64" "unat a mod 64 < 64"
proof -
  have "unat a mod 4 < 4" "unat a mod 16 < 16" by simp_all
  then show "unat a div 4 < 64" "unat a mod 4 * 16 < 64" "unat a mod 4 * 16 + unat b div 16 < 64"
    "unat a mod 16 * 4 < 64" "unat a mod 16 * 4 + unat b div 64 < 64" "unat a mod 64 < 64"
    using byte_div [of a] byte_div [of b] by linarith+
qed

lemma digits: "r < k \<Longrightarrow> (m * k + r) div k = m" "r < k \<Longrightarrow> (m * k + r) mod k = r" for r k m :: nat
  by simp_all

lemma quantum_bytes:
  "quantum (unat a div 4) (unat a mod 4 * 16 + unat b div 16) (unat b mod 16 * 4 + unat c div 64) (unat c mod 64) = [a, b, c]"
  "take 2 (quantum (unat a div 4) (unat a mod 4 * 16 + unat b div 16) (unat b mod 16 * 4) 0) = [a, b]"
  "take (Suc 0) (quantum (unat a div 4) (unat a mod 4 * 16) 0 0) = [a]"
  for a b c :: byte
proof -
  note d = digits [OF byte_div(2) [of b]] digits [OF byte_div(3) [of c]]
  show "quantum (unat a div 4) (unat a mod 4 * 16 + unat b div 16) (unat b mod 16 * 4 + unat c div 64) (unat c mod 64) = [a, b, c]"
    unfolding quantum_def d by simp
  show "take 2 (quantum (unat a div 4) (unat a mod 4 * 16 + unat b div 16) (unat b mod 16 * 4) 0) = [a, b]"
    unfolding quantum_def d by (simp add: numeral_2_eq_2)
  show "take (Suc 0) (quantum (unat a div 4) (unat a mod 4 * 16) 0 0) = [a]"
    unfolding quantum_def by simp
qed

lemma decode_encode64: "decode64 (EncodeToString bs) = Some bs"
  by (induction bs rule: EncodeToString.induct) (simp_all add: byte_parts quantum_bytes)

lemma set_EncodeToString: "set (EncodeToString bs) \<subseteq> insert pad (set alphabet)"
  by (induction bs rule: EncodeToString.induct) (auto simp: byte_parts sym_in)

lemma DecodeString_EncodeToString [simp]: "DecodeString (EncodeToString bs) = Some bs"
proof -
  have "filter (\<lambda>c. c \<noteq> nl \<and> c \<noteq> cr) (EncodeToString bs) = EncodeToString bs"
    using set_EncodeToString [of bs] alphabet_facts(4,5) by (intro filter_True) (auto simp: pad_def nl_def cr_def)
  then show ?thesis by (simp add: DecodeString_def decode_encode64)
qed

section \<open>Lines and fields\<close>

function Fields :: "string \<Rightarrow> string list" where
  "Fields s = (case dropWhile isSpace s of
     [] \<Rightarrow> []
   | c # t \<Rightarrow> (c # takeWhile (\<lambda>x. \<not> isSpace x) t) # Fields (dropWhile (\<lambda>x. \<not> isSpace x) t))"
  by pat_completeness auto
termination
proof (relation "measure length")
  fix s :: string and c t
  assume "dropWhile isSpace s = c # t"
  then have "length (c # t) \<le> length s" by (metis length_dropWhile_le)
  then show "(dropWhile (\<lambda>x. \<not> isSpace x) t, s) \<in> measure length"
    using length_dropWhile_le [of "\<lambda>x. \<not> isSpace x" t] by simp
qed simp

declare Fields.simps [simp del]

text \<open>
  \<^verbatim>\<open>bufio.Scanner\<close> with its default split function: lines without their ends, and scanning stops at a line
  that does not fit the buffer of 64 KB.
\<close>

definition maxToken :: nat where "maxToken = 64 * 1024"

definition dropCR :: "string \<Rightarrow> string" where
  "dropCR l = (if l \<noteq> [] \<and> last l = cr then butlast l else l)"

function scanLines :: "string \<Rightarrow> string list" where
  "scanLines s =
     (if s = [] then []
      else let l = takeWhile (\<lambda>c. c \<noteq> nl) s in
           if length l \<ge> maxToken then []
           else dropCR l # (case dropWhile (\<lambda>c. c \<noteq> nl) s of [] \<Rightarrow> [] | _ # r \<Rightarrow> scanLines r))"
  by pat_completeness auto
termination
proof (relation "measure length")
  fix s :: string and l y and r :: string
  assume "dropWhile (\<lambda>c. c \<noteq> nl) s = y # r"
  then have "length (y # r) \<le> length s" by (metis length_dropWhile_le)
  then show "(r, s) \<in> measure length" by simp
qed simp

declare scanLines.simps [simp del]

lemma scanLines_Nil [simp]: "scanLines [] = []"
  by (simp add: scanLines.simps)

lemma scanLines_line:
  assumes "isLine l" "length l < maxToken"
  shows "scanLines (l @ nl # rest) = l # scanLines rest"
proof -
  have n: "\<forall>c\<in>set l. c \<noteq> nl" using assms(1) unfolding isLine_def by metis
  have "dropCR l = l" using assms(1) by (auto simp: isLine_def dropCR_def)
  then show ?thesis
    using n assms(2) by (subst scanLines.simps) (simp add: dropWhile_append2 takeWhile_append2 Let_def)
qed

lemma scanLines_lines:
  assumes "\<forall>l\<in>set ls. isLine l \<and> length l < maxToken"
  shows "scanLines (concat (map (\<lambda>l. l @ [nl]) ls)) = ls"
  using assms by (induction ls) (simp_all add: scanLines_line)

text \<open>A word: not empty and without white space. Words joined by single spaces are a line with these fields.\<close>

definition word_ok :: "string \<Rightarrow> bool" where
  "word_ok w \<longleftrightarrow> w \<noteq> [] \<and> (\<forall>c\<in>set w. \<not> isSpace c)"

fun unwords :: "string list \<Rightarrow> string" where
  "unwords [] = []"
| "unwords [w] = w"
| "unwords (w # ws) = w @ CHR 0x20 # unwords ws"

lemma word_ok_step:
  assumes "word_ok w"
  shows "dropWhile isSpace (w @ r) = w @ r"
  using assms by (cases w) (auto simp: word_ok_def)

lemma Fields_word:
  assumes "word_ok w" "r = [] \<or> isSpace (hd r)"
  shows "Fields (w @ r) = w # Fields r"
proof -
  obtain c t where w: "w = c # t" using assms(1) by (cases w) (auto simp: word_ok_def)
  have t: "\<forall>x\<in>set t. \<not> isSpace x" using assms(1) w by (simp add: word_ok_def)
  have r: "takeWhile (\<lambda>x. \<not> isSpace x) r = []" "dropWhile (\<lambda>x. \<not> isSpace x) r = r"
    using assms(2) by (cases r; simp)+
  have "takeWhile (\<lambda>x. \<not> isSpace x) (t @ r) = t" "dropWhile (\<lambda>x. \<not> isSpace x) (t @ r) = r"
    using t r by (simp_all add: takeWhile_append2 dropWhile_append2)
  then show ?thesis
    using word_ok_step [OF assms(1), of r] w by (subst Fields.simps) simp
qed

lemma Fields_Nil [simp]: "Fields [] = []"
  by (simp add: Fields.simps)

lemma Fields_space [simp]: "isSpace c \<Longrightarrow> Fields (c # s) = Fields s"
  by (subst (1 2) Fields.simps) simp

lemma Fields_unwords: "\<forall>w\<in>set ws. word_ok w \<Longrightarrow> Fields (unwords ws) = ws"
proof (induction ws rule: unwords.induct)
  case (2 w)
  then show ?case using Fields_word [of w "[]"] by simp
next
  case (3 w v vs)
  then show ?case using Fields_word [of w "CHR 0x20 # unwords (v # vs)"] by simp
qed simp

lemma unwords_ends:
  "ws \<noteq> [] \<Longrightarrow> \<forall>w\<in>set ws. word_ok w \<Longrightarrow>
   unwords ws \<noteq> [] \<and> hd (unwords ws) = hd (hd ws) \<and> \<not> isSpace (last (unwords ws)) \<and> \<not> isSpace (hd (unwords ws))"
proof (induction ws rule: unwords.induct)
  case (2 w)
  then show ?case by (cases w) (auto simp: word_ok_def)
next
  case (3 w v vs)
  then have "unwords (v # vs) \<noteq> [] \<and> \<not> isSpace (last (unwords (v # vs)))" by simp
  moreover have "w \<noteq> []" "\<not> isSpace (hd w)" using "3.prems"(2) by (auto simp: word_ok_def)
  ultimately show ?case by simp
qed simp

lemma TrimSpace_id: "s \<noteq> [] \<Longrightarrow> \<not> isSpace (hd s) \<Longrightarrow> \<not> isSpace (last s) \<Longrightarrow> TrimSpace s = s"
proof -
  assume a: "s \<noteq> []" "\<not> isSpace (hd s)" "\<not> isSpace (last s)"
  then have "dropWhile isSpace s = s" by (cases s) auto
  moreover have "dropWhile isSpace (rev s) = rev s" using a(1,3) by (cases s rule: rev_cases) auto
  ultimately show ?thesis by (simp add: TrimSpace_def)
qed

lemma nl_unwords: "\<forall>w\<in>set ws. word_ok w \<Longrightarrow> nl \<notin> set (unwords ws)"
proof (induction ws rule: unwords.induct)
  case (2 w)
  then show ?case using isSpace_ends(1) by (auto simp: word_ok_def)
next
  case (3 w v vs)
  moreover have "nl \<notin> set w" using "3.prems" isSpace_ends(1) by (auto simp: word_ok_def)
  ultimately show ?case by (simp add: nl_def)
qed simp

lemma isLine_unwords: "ws \<noteq> [] \<Longrightarrow> \<forall>w\<in>set ws. word_ok w \<Longrightarrow> isLine (unwords ws)"
  using unwords_ends [of ws] nl_unwords [of ws] isSpace_ends(2) unfolding isLine_def by metis

lemma word_ok_base64: "bs \<noteq> [] \<Longrightarrow> word_ok (EncodeToString bs)"
proof -
  assume "bs \<noteq> []"
  then have "EncodeToString bs \<noteq> []" by (cases bs rule: EncodeToString.cases) simp_all
  moreover have "\<forall>c\<in>insert pad (set alphabet). \<not> isSpace c"
    by (simp add: alphabet_def pad_def isSpace_def)
  ultimately show ?thesis using set_EncodeToString [of bs] by (auto simp: word_ok_def)
qed

end
