(* ===== verification/Identity.thy ===== *)
theory Identity
  imports Base64_Text Paths
begin

text \<open>
  Key files, \<^verbatim>\<open>pkg/crypto/identity.go\<close>: the identity file and the store of pinned peers. A file system is
  a map from paths to text; key generation and what the operating system refuses are arguments.
\<close>

section \<open>Files\<close>

type_synonym files = "string \<rightharpoonup> string"

record idEnv =
  ie_home :: "string result"
  ie_read :: "string \<Rightarrow> error option"
  ie_mkdir :: "string \<Rightarrow> error option"
  ie_write :: write_fault
  ie_ed25519 :: "(bytes \<times> bytes) result"
  ie_noise :: "(bytes \<times> bytes) result"

text \<open>\<^verbatim>\<open>os.ReadFile\<close>, where \<open>Inr None\<close> is \<^verbatim>\<open>os.ErrNotExist\<close>, and \<^verbatim>\<open>os.WriteFile\<close>, which truncates first.\<close>

definition ReadFile :: "idEnv \<Rightarrow> files \<Rightarrow> string \<Rightarrow> string option result" where
  "ReadFile env fs p = (case ie_read env p of Some e \<Rightarrow> Inl e | None \<Rightarrow> Inr (fs p))"

definition WriteFile :: "idEnv \<Rightarrow> files \<Rightarrow> string \<Rightarrow> string \<Rightarrow> files \<times> error option" where
  "WriteFile env fs p s =
     (case ie_write env of None \<Rightarrow> (fs(p \<mapsto> s), None) | Some (k, e) \<Rightarrow> (fs(p \<mapsto> take k s), Some e))"

definition expandPath :: "idEnv \<Rightarrow> string \<Rightarrow> string result" where
  "expandPath env path =
     (if path = [] \<or> hd path \<noteq> CHR ''~'' then Inr path
      else case ie_home env of Inl e \<Rightarrow> Inl e | Inr home \<Rightarrow> Inr (Join home (tl path)))"

section \<open>The identity file\<close>

record Identity =
  PrivKey :: bytes
  PubKey :: bytes
  NoisePrivate :: bytes
  NoisePublic :: bytes

definition edPrivate :: string where "edPrivate = ''ed25519-private''"
definition edPublic :: string where "edPublic = ''ed25519-public''"
definition noisePrivate :: string where "noisePrivate = ''noise-private''"
definition noisePublic :: string where "noisePublic = ''noise-public''"

definition identityLine :: "string \<Rightarrow> bytes \<Rightarrow> string" where
  "identityLine k bs = k @ CHR 0x20 # EncodeToString bs"

definition formatIdentityFile :: "Identity \<Rightarrow> string" where
  "formatIdentityFile d =
     identityLine edPrivate (PrivKey d) @ [nl] @ identityLine edPublic (PubKey d) @ [nl] @
     identityLine noisePrivate (NoisePrivate d) @ [nl] @ identityLine noisePublic (NoisePublic d) @ [nl]"

definition skipLine :: "string \<Rightarrow> bool" where
  "skipLine line \<longleftrightarrow> line = [] \<or> hd line = CHR ''#''"

fun parseFields :: "string list \<Rightarrow> (string \<rightharpoonup> bytes) \<Rightarrow> (string \<rightharpoonup> bytes) result" where
  "parseFields [] m = Inr m"
| "parseFields (text # ls) m =
     (let line = TrimSpace text in
      if skipLine line then parseFields ls m
      else case Fields line of
             [k, v] \<Rightarrow>
               (case DecodeString v of
                  None \<Rightarrow> Inl (Wrap ''decode'' (Errorf ''illegal base64 data''))
                | Some bs \<Rightarrow> parseFields ls (m(k \<mapsto> bs)))
           | _ \<Rightarrow> Inl (Errorf ''invalid identity line''))"

definition parseIdentityFile :: "string \<Rightarrow> Identity result" where
  "parseIdentityFile data =
     (case parseFields (scanLines data) Map.empty of
        Inl e \<Rightarrow> Inl e
      | Inr m \<Rightarrow>
          (case (m edPrivate, m edPublic, m noisePrivate, m noisePublic) of
             (Some priv, Some pub, Some npriv, Some npub) \<Rightarrow>
               Inr \<lparr>PrivKey = priv, PubKey = pub, NoisePrivate = npriv, NoisePublic = npub\<rparr>
           | _ \<Rightarrow> Inl (Errorf ''incomplete identity file'')))"

definition generateAndSave :: "idEnv \<Rightarrow> string \<Rightarrow> files \<Rightarrow> files \<times> Identity result" where
  "generateAndSave env path fs =
     (case ie_ed25519 env of
        Inl e \<Rightarrow> (fs, Inl (Wrap ''generate ed25519 key'' e))
      | Inr (pub, priv) \<Rightarrow>
          (case ie_noise env of
             Inl e \<Rightarrow> (fs, Inl (Wrap ''generate noise keypair'' e))
           | Inr (npriv, npub) \<Rightarrow>
               (case ie_mkdir env (Dir path) of
                  Some e \<Rightarrow> (fs, Inl (Wrap ''mkdir'' e))
                | None \<Rightarrow>
                    let d = \<lparr>PrivKey = priv, PubKey = pub, NoisePrivate = npriv, NoisePublic = npub\<rparr> in
                    (case WriteFile env fs path (formatIdentityFile d) of
                       (fs', Some e) \<Rightarrow> (fs', Inl (Wrap ''write identity'' e))
                     | (fs', None) \<Rightarrow> (fs', Inr d)))))"

definition LoadOrGenerateIdentity :: "idEnv \<Rightarrow> string \<Rightarrow> files \<Rightarrow> files \<times> Identity result" where
  "LoadOrGenerateIdentity env path fs =
     (case expandPath env path of
        Inl e \<Rightarrow> (fs, Inl (Wrap ''expand path'' e))
      | Inr p \<Rightarrow>
          (case ReadFile env fs p of
             Inr (Some data) \<Rightarrow> (fs, parseIdentityFile data)
           | Inl e \<Rightarrow> (fs, Inl (Wrap ''read identity'' e))
           | Inr None \<Rightarrow> generateAndSave env p fs))"

section \<open>Pinned peers\<close>

record KnownPeers =
  kp_path :: string
  kp_peers :: "string \<rightharpoonup> bytes"

fun parsePeers :: "string list \<Rightarrow> (string \<rightharpoonup> bytes) \<Rightarrow> (string \<rightharpoonup> bytes) \<times> error option" where
  "parsePeers [] m = (m, None)"
| "parsePeers (text # ls) m =
     (let line = TrimSpace text in
      if skipLine line then parsePeers ls m
      else case Fields line of
             [name, alg, key] \<Rightarrow>
               if alg \<noteq> ''ed25519'' then (m, Some (Errorf ''invalid known_peers line''))
               else (case DecodeString key of
                       None \<Rightarrow> (m, Some (Wrap ''decode pubkey'' (Errorf ''illegal base64 data'')))
                     | Some pub \<Rightarrow> parsePeers ls (m(name \<mapsto> pub)))
           | _ \<Rightarrow> (m, Some (Errorf ''invalid known_peers line'')))"

text \<open>Loading returns the store also when parsing fails; \<open>None\<close> is the nil store.\<close>

definition LoadKnownPeers :: "idEnv \<Rightarrow> string \<Rightarrow> files \<Rightarrow> KnownPeers option \<times> error option" where
  "LoadKnownPeers env path fs =
     (case expandPath env path of
        Inl e \<Rightarrow> (None, Some (Wrap ''expand path'' e))
      | Inr p \<Rightarrow>
          (case ReadFile env fs p of
             Inr None \<Rightarrow> (Some \<lparr>kp_path = p, kp_peers = Map.empty\<rparr>, None)
           | Inl e \<Rightarrow> (None, Some (Wrap ''read known_peers'' e))
           | Inr (Some data) \<Rightarrow>
               (case parsePeers (scanLines data) Map.empty of
                  (m, e) \<Rightarrow> (Some \<lparr>kp_path = p, kp_peers = m\<rparr>, e))))"

definition GetPeer :: "KnownPeers \<Rightarrow> string \<Rightarrow> bytes option" where
  "GetPeer k name = kp_peers k name"

definition peerLine :: "string \<Rightarrow> bytes \<Rightarrow> string" where
  "peerLine name pub = name @ '' ed25519 '' @ EncodeToString pub"

text \<open>Saving writes the peers in the order \<open>names\<close> in which the map happens to be iterated.\<close>

definition SavePeers :: "idEnv \<Rightarrow> string list \<Rightarrow> KnownPeers \<Rightarrow> files \<Rightarrow> files \<times> error option" where
  "SavePeers env names k fs =
     (case ie_mkdir env (Dir (kp_path k)) of
        Some e \<Rightarrow> (fs, Some (Wrap ''mkdir'' e))
      | None \<Rightarrow> WriteFile env fs (kp_path k)
          (concat (map (\<lambda>n. peerLine n (the (kp_peers k n)) @ [nl]) names)))"

definition AddPeer :: "idEnv \<Rightarrow> string list \<Rightarrow> string \<Rightarrow> bytes \<Rightarrow> KnownPeers \<Rightarrow> files \<Rightarrow> KnownPeers \<times> files \<times> error option" where
  "AddPeer env names name pub k fs =
     (let k' = k\<lparr>kp_peers := (kp_peers k)(name \<mapsto> pub)\<rparr> in (k', SavePeers env names k' fs))"

section \<open>Lines of words\<close>

lemma parse_line:
  assumes "ws \<noteq> []" "\<forall>w\<in>set ws. word_ok w" "hd (hd ws) \<noteq> CHR ''#''"
  shows "TrimSpace (unwords ws) = unwords ws" "\<not> skipLine (unwords ws)" "Fields (unwords ws) = ws" "isLine (unwords ws)"
proof -
  note e = unwords_ends [OF assms(1,2)]
  then show "TrimSpace (unwords ws) = unwords ws" by (intro TrimSpace_id) blast+
  show "\<not> skipLine (unwords ws)" using e assms(3) by (simp add: skipLine_def)
  show "Fields (unwords ws) = ws" using assms(2) by (rule Fields_unwords)
  show "isLine (unwords ws)" using assms(1,2) by (rule isLine_unwords)
qed

lemma parseFields_line:
  assumes "word_ok k" "hd k \<noteq> CHR ''#''" "bs \<noteq> []"
  shows "parseFields (identityLine k bs # ls) m = parseFields ls (m(k \<mapsto> bs))" "isLine (identityLine k bs)"
proof -
  have w: "identityLine k bs = unwords [k, EncodeToString bs]" by (simp add: identityLine_def)
  have ok: "\<forall>w\<in>set [k, EncodeToString bs]. word_ok w" using assms by (simp add: word_ok_base64)
  note l = parse_line [of "[k, EncodeToString bs]", OF _ ok]
  show "parseFields (identityLine k bs # ls) m = parseFields ls (m(k \<mapsto> bs))"
    unfolding w using l assms(2) by (simp add: Let_def del: unwords.simps)
  show "isLine (identityLine k bs)" unfolding w using l assms(2) by simp
qed

lemma length_EncodeToString: "length (EncodeToString bs) \<le> 4 * length bs"
  by (induction bs rule: EncodeToString.induct) simp_all

lemma key_names: "word_ok edPrivate" "word_ok edPublic" "word_ok noisePrivate" "word_ok noisePublic"
  "hd edPrivate \<noteq> CHR ''#''" "hd edPublic \<noteq> CHR ''#''" "hd noisePrivate \<noteq> CHR ''#''" "hd noisePublic \<noteq> CHR ''#''"
  "length edPrivate \<le> 20" "length edPublic \<le> 20" "length noisePrivate \<le> 20" "length noisePublic \<le> 20"
  "distinct [edPrivate, edPublic, noisePrivate, noisePublic]"
  by (simp_all add: edPrivate_def edPublic_def noisePrivate_def noisePublic_def word_ok_def isSpace_def)

text \<open>A key as the libraries generate them: not empty and at most 64 bytes.\<close>

definition key_ok :: "bytes \<Rightarrow> bool" where
  "key_ok bs \<longleftrightarrow> bs \<noteq> [] \<and> length bs \<le> 64"

lemma identityLine_length: "key_ok bs \<Longrightarrow> length k \<le> 20 \<Longrightarrow> length (identityLine k bs) < maxToken"
  using length_EncodeToString [of bs] by (simp add: identityLine_def key_ok_def maxToken_def)

lemma parse_formatIdentity:
  assumes "key_ok (PrivKey d)" "key_ok (PubKey d)" "key_ok (NoisePrivate d)" "key_ok (NoisePublic d)"
  shows "parseIdentityFile (formatIdentityFile d) = Inr d"
proof -
  let ?ls = "[identityLine edPrivate (PrivKey d), identityLine edPublic (PubKey d),
    identityLine noisePrivate (NoisePrivate d), identityLine noisePublic (NoisePublic d)]"
  have ne: "PrivKey d \<noteq> []" "PubKey d \<noteq> []" "NoisePrivate d \<noteq> []" "NoisePublic d \<noteq> []"
    using assms by (simp_all add: key_ok_def)
  note one = parseFields_line [OF key_names(1,5) ne(1)] parseFields_line [OF key_names(2,6) ne(2)]
    parseFields_line [OF key_names(3,7) ne(3)] parseFields_line [OF key_names(4,8) ne(4)]
  have "formatIdentityFile d = concat (map (\<lambda>l. l @ [nl]) ?ls)" by (simp add: formatIdentityFile_def)
  moreover have "\<forall>l\<in>set ?ls. isLine l \<and> length l < maxToken"
    using one assms key_names(9-12) identityLine_length by simp
  ultimately have "scanLines (formatIdentityFile d) = ?ls" by (simp only: scanLines_lines)
  then have "parseFields (scanLines (formatIdentityFile d)) Map.empty =
      Inr ([edPrivate \<mapsto> PrivKey d, edPublic \<mapsto> PubKey d, noisePrivate \<mapsto> NoisePrivate d, noisePublic \<mapsto> NoisePublic d])"
    by (simp only: one parseFields.simps(1))
  then show ?thesis using key_names(13) by (simp add: parseIdentityFile_def)
qed

text \<open>
  C33: An identity is generated once. If no identity file exists and generating one succeeds, every later
  call returns the same identity from the file and changes nothing.
\<close>

theorem identity_persists:
  assumes "LoadOrGenerateIdentity env path fs = (fs', Inr d)" "expandPath env path = Inr p" "fs p = None"
    and "key_ok (PrivKey d)" "key_ok (PubKey d)" "key_ok (NoisePrivate d)" "key_ok (NoisePublic d)"
    and "expandPath env' path = Inr p" "ie_read env' p = None"
  shows "LoadOrGenerateIdentity env' path fs' = (fs', Inr d) \<and> fs' = fs(p \<mapsto> formatIdentityFile d)"
proof -
  have "ie_read env p = None" using assms(1,2) by (auto simp: LoadOrGenerateIdentity_def ReadFile_def split: option.splits)
  then have g: "generateAndSave env p fs = (fs', Inr d)"
    using assms(1-3) by (simp add: LoadOrGenerateIdentity_def ReadFile_def)
  then have fs': "fs' = fs(p \<mapsto> formatIdentityFile d)"
    by (auto simp: generateAndSave_def WriteFile_def Let_def split: sum.splits prod.splits option.splits)
  then show ?thesis
    using assms(8,9) parse_formatIdentity [OF assms(4-7)] by (simp add: LoadOrGenerateIdentity_def ReadFile_def)
qed

definition exampleIdEnv :: idEnv where
  "exampleIdEnv = \<lparr>ie_home = Inr ''/home/u'', ie_read = (\<lambda>_. None), ie_mkdir = (\<lambda>_. None), ie_write = None,
     ie_ed25519 = Inr ([1], [2]), ie_noise = Inr ([3], [4])\<rparr>"

theorem identity_persists_witness:
  "\<exists>fs. LoadOrGenerateIdentity exampleIdEnv ''/k'' Map.empty = (fs, Inr \<lparr>PrivKey = [2], PubKey = [1], NoisePrivate = [3], NoisePublic = [4]\<rparr>) \<and>
     LoadOrGenerateIdentity exampleIdEnv ''/k'' fs = (fs, Inr \<lparr>PrivKey = [2], PubKey = [1], NoisePrivate = [3], NoisePublic = [4]\<rparr>)"
proof -
  let ?d = "\<lparr>PrivKey = [2], PubKey = [1], NoisePrivate = [3], NoisePublic = [4]\<rparr>"
  have p: "expandPath exampleIdEnv ''/k'' = Inr ''/k''" by (simp add: expandPath_def)
  have g: "LoadOrGenerateIdentity exampleIdEnv ''/k'' Map.empty = (Map.empty(''/k'' \<mapsto> formatIdentityFile ?d), Inr ?d)"
    using p by (simp add: LoadOrGenerateIdentity_def ReadFile_def generateAndSave_def WriteFile_def exampleIdEnv_def Let_def)
  show ?thesis
    using identity_persists [OF g p _ _ _ _ _ p] g by (auto simp: key_ok_def exampleIdEnv_def)
qed

section \<open>The store of peers\<close>

text \<open>A name that survives the file: one word that is not a comment, and not too long for the scanner.\<close>

definition name_ok :: "string \<Rightarrow> bool" where
  "name_ok n \<longleftrightarrow> word_ok n \<and> hd n \<noteq> CHR ''#'' \<and> length n \<le> 60000"

lemma word_ok_alg: "word_ok ''ed25519''"
  by (simp add: word_ok_def isSpace_def)

lemma peerLine_words: "peerLine n bs = unwords [n, ''ed25519'', EncodeToString bs]"
  by (simp add: peerLine_def)

lemma parsePeers_line:
  assumes "name_ok n" "key_ok bs"
  shows "parsePeers (peerLine n bs # ls) m = parsePeers ls (m(n \<mapsto> bs))" "isLine (peerLine n bs)"
    "length (peerLine n bs) < maxToken"
proof -
  have ok: "\<forall>w\<in>set [n, ''ed25519'', EncodeToString bs]. word_ok w"
    using assms word_ok_alg by (simp add: name_ok_def key_ok_def word_ok_base64)
  note l = parse_line [of "[n, ''ed25519'', EncodeToString bs]", OF _ ok]
  show "parsePeers (peerLine n bs # ls) m = parsePeers ls (m(n \<mapsto> bs))"
    unfolding peerLine_words using l assms(1) by (simp add: Let_def name_ok_def del: unwords.simps)
  show "isLine (peerLine n bs)" unfolding peerLine_words using l assms(1) by (simp add: name_ok_def)
  show "length (peerLine n bs) < maxToken"
    using assms length_EncodeToString [of bs] by (simp add: peerLine_def name_ok_def key_ok_def maxToken_def)
qed

lemma parsePeers_lines:
  assumes "\<forall>n\<in>set names. name_ok n \<and> (\<exists>bs. peers n = Some bs \<and> key_ok bs)"
  shows "parsePeers (map (\<lambda>n. peerLine n (the (peers n))) names) m =
    ((\<lambda>n. if n \<in> set names then peers n else m n), None)"
  using assms
proof (induction names arbitrary: m)
  case (Cons n names)
  then obtain bs where bs: "peers n = Some bs" "key_ok bs" "name_ok n" by auto
  have "(\<lambda>x. if x \<in> set names then peers x else (m(n \<mapsto> bs)) x) = (\<lambda>x. if x \<in> set (n # names) then peers x else m x)"
    using bs(1) by auto
  then show ?case using Cons bs parsePeers_line(1) [OF bs(3,2)] by simp
qed simp

lemma load_saved:
  assumes "SavePeers env names k fs = (fs', None)" "set names = dom (kp_peers k)"
    and "\<And>n bs. kp_peers k n = Some bs \<Longrightarrow> name_ok n \<and> key_ok bs"
    and "expandPath env' path = Inr (kp_path k)" "ie_read env' (kp_path k) = None"
  shows "LoadKnownPeers env' path fs' = (Some k, None)"
proof -
  let ?ls = "map (\<lambda>n. peerLine n (the (kp_peers k n))) names"
  have ok: "\<forall>n\<in>set names. name_ok n \<and> (\<exists>bs. kp_peers k n = Some bs \<and> key_ok bs)" using assms(2,3) by auto
  have "fs' = fs(kp_path k \<mapsto> concat (map (\<lambda>l. l @ [nl]) ?ls))"
    using assms(1) by (auto simp: SavePeers_def WriteFile_def o_def split: option.splits)
  moreover have "scanLines (concat (map (\<lambda>l. l @ [nl]) ?ls)) = ?ls"
    using ok parsePeers_line(2,3) by (intro scanLines_lines) fastforce
  moreover have "(\<lambda>n. if n \<in> set names then kp_peers k n else None) = kp_peers k"
    using assms(2) by (auto simp: dom_def)
  ultimately show ?thesis
    using parsePeers_lines [OF ok, of Map.empty] assms(4,5) by (simp add: LoadKnownPeers_def ReadFile_def)
qed

text \<open>
  C32: A pinned key is found again. After pinning a peer's key, whatever order the store is written in,
  loading the store without an error gives exactly the pinned keys, the new one included, provided all
  names are single words and no comments.
\<close>

theorem known_peers_roundtrip:
  assumes "AddPeer env names name pub k fs = (k', fs', None)" "set names = insert name (dom (kp_peers k))"
    and "\<And>n bs. kp_peers k n = Some bs \<Longrightarrow> name_ok n \<and> key_ok bs" "name_ok name" "key_ok pub"
    and "expandPath env' path = Inr (kp_path k)" "ie_read env' (kp_path k) = None"
  shows "LoadKnownPeers env' path fs' = (Some k', None) \<and> GetPeer k' name = Some pub \<and>
    (\<forall>other. other \<noteq> name \<longrightarrow> GetPeer k' other = GetPeer k other)"
proof -
  have k': "k' = k\<lparr>kp_peers := (kp_peers k)(name \<mapsto> pub)\<rparr>" and s: "SavePeers env names k' fs = (fs', None)"
    using assms(1) by (auto simp: AddPeer_def Let_def)
  have "LoadKnownPeers env' path fs' = (Some k', None)"
    by (rule load_saved [OF s]) (use assms k' in \<open>auto split: if_splits\<close>)
  then show ?thesis using k' by (simp add: GetPeer_def)
qed

theorem known_peers_roundtrip_witness:
  "\<exists>k fs. AddPeer exampleIdEnv [''bob''] ''bob'' [7, 8] \<lparr>kp_path = ''/p'', kp_peers = Map.empty\<rparr> Map.empty = (k, fs, None) \<and>
     LoadKnownPeers exampleIdEnv ''/p'' fs = (Some k, None) \<and> GetPeer k ''bob'' = Some [7, 8]"
proof -
  let ?k = "\<lparr>kp_path = ''/p'', kp_peers = Map.empty\<rparr>"
  obtain k fs e where a: "AddPeer exampleIdEnv [''bob''] ''bob'' [7, 8] ?k Map.empty = (k, fs, e)" by (metis prod_cases3)
  have "e = None" using a by (auto simp: AddPeer_def SavePeers_def WriteFile_def exampleIdEnv_def Let_def)
  with a have a': "AddPeer exampleIdEnv [''bob''] ''bob'' [7, 8] ?k Map.empty = (k, fs, None)" by simp
  have n: "name_ok ''bob''" by (simp add: name_ok_def word_ok_def isSpace_def)
  have p: "expandPath exampleIdEnv ''/p'' = Inr (kp_path ?k)" by (simp add: expandPath_def)
  show ?thesis
    using known_peers_roundtrip [OF a' _ _ n _ p] a' by (auto simp: key_ok_def exampleIdEnv_def)
qed

text \<open>
  What breaks the store. A name of two words is pinned without an error, but from then on loading the
  store reports an invalid line; and a write that fails at once leaves an empty file, which loads
  without an error as a store with no peers, because saving is not atomic.
\<close>

theorem known_peers_hazards:
  assumes "word_ok a" "word_ok b" "hd a \<noteq> CHR ''#''" "key_ok pub" "length a + length b \<le> 60000"
  shows "\<exists>k fs. AddPeer exampleIdEnv [a @ CHR 0x20 # b] (a @ CHR 0x20 # b) pub \<lparr>kp_path = ''/p'', kp_peers = Map.empty\<rparr> Map.empty = (k, fs, None) \<and>
      LoadKnownPeers exampleIdEnv ''/p'' fs =
        (Some \<lparr>kp_path = ''/p'', kp_peers = Map.empty\<rparr>, Some (Errorf ''invalid known_peers line'')) \<and>
      (\<exists>fs''. SavePeers (exampleIdEnv\<lparr>ie_write := Some (0, Errorf ''no space'')\<rparr>) names k fs = (fs'', Some (Errorf ''no space'')) \<and>
        LoadKnownPeers exampleIdEnv ''/p'' fs'' = (Some \<lparr>kp_path = ''/p'', kp_peers = Map.empty\<rparr>, None))"
proof -
  let ?n = "a @ CHR 0x20 # b"
  let ?ws = "[a, b, ''ed25519'', EncodeToString pub]"
  let ?k = "\<lparr>kp_path = ''/p'', kp_peers = [?n \<mapsto> pub]\<rparr>"
  have ok: "\<forall>w\<in>set ?ws. word_ok w" using assms word_ok_alg by (simp add: key_ok_def word_ok_base64)
  have line: "peerLine ?n pub = unwords ?ws" by (simp add: peerLine_def)
  note l = parse_line [of ?ws, OF _ ok]
  have "length (unwords ?ws) < maxToken"
    using assms(4,5) length_EncodeToString [of pub] by (simp add: key_ok_def maxToken_def)
  then have scan: "scanLines (unwords ?ws @ [nl]) = [unwords ?ws]"
    using scanLines_line [of "unwords ?ws" "[]"] l assms(3) by simp
  have bad: "parsePeers [unwords ?ws] Map.empty = (Map.empty, Some (Errorf ''invalid known_peers line''))"
    using l assms(3) by (simp add: Let_def del: unwords.simps)
  have add: "AddPeer exampleIdEnv [?n] ?n pub \<lparr>kp_path = ''/p'', kp_peers = Map.empty\<rparr> Map.empty =
      (?k, [''/p'' \<mapsto> unwords ?ws @ [nl]], None)"
    using line by (simp add: AddPeer_def SavePeers_def WriteFile_def exampleIdEnv_def Let_def del: unwords.simps)
  have "LoadKnownPeers exampleIdEnv ''/p'' [''/p'' \<mapsto> unwords ?ws @ [nl]] =
      (Some \<lparr>kp_path = ''/p'', kp_peers = Map.empty\<rparr>, Some (Errorf ''invalid known_peers line''))"
    using scan bad by (simp add: LoadKnownPeers_def expandPath_def ReadFile_def exampleIdEnv_def del: unwords.simps)
  moreover have "SavePeers (exampleIdEnv\<lparr>ie_write := Some (0, Errorf ''no space'')\<rparr>) names ?k fs =
      (fs(''/p'' \<mapsto> []), Some (Errorf ''no space''))" for fs
    by (simp add: SavePeers_def WriteFile_def exampleIdEnv_def)
  moreover have "LoadKnownPeers exampleIdEnv ''/p'' (fs(''/p'' \<mapsto> [])) = (Some \<lparr>kp_path = ''/p'', kp_peers = Map.empty\<rparr>, None)" for fs
    by (simp add: LoadKnownPeers_def expandPath_def ReadFile_def exampleIdEnv_def)
  ultimately show ?thesis using add by blast
qed

theorem known_peers_hazards_witness:
  "\<exists>fs. snd (LoadKnownPeers exampleIdEnv ''/p'' fs) = Some (Errorf ''invalid known_peers line'')"
proof -
  have "word_ok ''my''" "word_ok ''pc''" "hd ''my'' \<noteq> CHR ''#''" "key_ok [1]" "length ''my'' + length ''pc'' \<le> 60000"
    by (simp_all add: word_ok_def isSpace_def key_ok_def)
  from known_peers_hazards [OF this] obtain fs where
    "LoadKnownPeers exampleIdEnv ''/p'' fs =
      (Some \<lparr>kp_path = ''/p'', kp_peers = Map.empty\<rparr>, Some (Errorf ''invalid known_peers line''))" by blast
  then have "snd (LoadKnownPeers exampleIdEnv ''/p'' fs) = Some (Errorf ''invalid known_peers line'')" by (simp only: prod.sel)
  then show ?thesis by (intro exI [of _ fs])
qed

end
