(* ===== verification/Handshake.thy ===== *)
theory Handshake
  imports Crypto_Session Identity
begin

text \<open>
  The Noise handshake, \<^verbatim>\<open>pkg/crypto/handshake.go\<close>: the choice of pattern, pinning the remote key on first
  contact, and the message exchange. The Noise library is an argument: a record of the functions the
  code calls. A handshake that never completes is the value \<open>None\<close>.
\<close>

section \<open>Definitions\<close>

datatype pattern = HandshakeXX | HandshakeKK

record noiseConfig =
  nc_Pattern :: pattern
  nc_Initiator :: bool
  nc_Static :: "bytes \<times> bytes"
  nc_PSK :: bytes
  nc_PeerStatic :: bytes

record ('h, 'cs) noise =
  nz_New :: "noiseConfig \<Rightarrow> 'h result"
  nz_Index :: "'h \<Rightarrow> nat"
  nz_Write :: "'h \<Rightarrow> 'h \<times> (bytes \<times> ('cs \<times> 'cs) option) result"
  nz_Read :: "'h \<Rightarrow> bytes \<Rightarrow> 'h \<times> ('cs \<times> 'cs) option result"
  nz_Peer :: "'h \<Rightarrow> bytes"

record HandshakeConfig =
  hc_Identity :: Identity
  hc_PeerName :: string
  hc_PAKECode :: string
  hc_Initiator :: bool

definition derivePSK :: "(string \<Rightarrow> bytes) \<Rightarrow> string \<Rightarrow> bytes" where
  "derivePSK sha256 code = sha256 (''p2p-psk:'' @ code)"

definition readFrameFrom :: "link \<Rightarrow> link \<times> bytes result" where
  "readFrameFrom conn =
     (if l_closed conn then (conn, Inl (Wrap ''read frame header'' NetErrClosed))
      else case readFrame (l_rx conn) (l_rerr conn) of (r, rest) \<Rightarrow> (conn\<lparr>l_rx := rest\<rparr>, r))"

definition ourTurn :: "nat \<Rightarrow> bool \<Rightarrow> bool" where
  "ourTurn i initiator \<longleftrightarrow> (i mod 2 = 0 \<and> initiator) \<or> (i mod 2 = 1 \<and> \<not> initiator)"

partial_function (option) runHandshake ::
  "('h, 'cs) noise \<Rightarrow> bool \<Rightarrow> 'h \<Rightarrow> link \<Rightarrow> ('h \<times> link \<times> ('cs \<times> 'cs) result) option" where
  "runHandshake nz initiator hs conn =
     (if ourTurn (nz_Index nz hs) initiator
      then (case nz_Write nz hs of
              (hs', Inl e) \<Rightarrow> Some (hs', conn, Inl (Wrap ''write handshake msg'' e))
            | (hs', Inr (msg, cs)) \<Rightarrow>
                (case writeFrame msg conn of
                   (conn', Some e) \<Rightarrow> Some (hs', conn', Inl e)
                 | (conn', None) \<Rightarrow>
                     (case cs of
                        Some p \<Rightarrow> Some (hs', conn', Inr p)
                      | None \<Rightarrow> runHandshake nz initiator hs' conn')))
      else (case readFrameFrom conn of
              (conn', Inl e) \<Rightarrow> Some (hs, conn', Inl e)
            | (conn', Inr frame) \<Rightarrow>
                (case nz_Read nz hs frame of
                   (hs', Inl e) \<Rightarrow> Some (hs', conn', Inl (Wrap ''read handshake msg'' e))
                 | (hs', Inr cs) \<Rightarrow>
                     (case cs of
                        Some p \<Rightarrow> Some (hs', conn', Inr p)
                      | None \<Rightarrow> runHandshake nz initiator hs' conn'))))"

text \<open>
  The two patterns. The state is the connection, the store of peers if there is one, and the files; the
  store is written in the order \<open>order\<close> enumerates it.
\<close>

type_synonym order = "(string \<rightharpoonup> bytes) \<Rightarrow> string list"

definition configXX :: "(string \<Rightarrow> bytes) \<Rightarrow> HandshakeConfig \<Rightarrow> noiseConfig" where
  "configXX sha256 cfg =
     \<lparr>nc_Pattern = HandshakeXX, nc_Initiator = hc_Initiator cfg,
      nc_Static = (NoisePrivate (hc_Identity cfg), NoisePublic (hc_Identity cfg)),
      nc_PSK = derivePSK sha256 (hc_PAKECode cfg), nc_PeerStatic = []\<rparr>"

definition handshakeXX ::
  "('h, 'cs) noise \<Rightarrow> (string \<Rightarrow> bytes) \<Rightarrow> idEnv \<Rightarrow> order \<Rightarrow> HandshakeConfig \<Rightarrow> KnownPeers option \<Rightarrow> files \<Rightarrow> link
     \<Rightarrow> (KnownPeers option \<times> files \<times> 'cs Session result) option" where
  "handshakeXX nz sha256 env order cfg kp fs conn =
     (case nz_New nz (configXX sha256 cfg) of
        Inl e \<Rightarrow> Some (kp, fs, Inl (Wrap ''new handshake state'' e))
      | Inr hs \<Rightarrow>
          (case runHandshake nz (hc_Initiator cfg) hs conn of
             None \<Rightarrow> None
           | Some (hs', conn', Inl e) \<Rightarrow> Some (kp, fs, Inl e)
           | Some (hs', conn', Inr (cs0, cs1)) \<Rightarrow>
               let remotePub = nz_Peer nz hs';
                   s = newSession conn' cs0 cs1 (hc_Initiator cfg) remotePub in
               if hc_PeerName cfg \<noteq> [] \<and> kp \<noteq> None
               then let k = the kp in
                    (case AddPeer env (order ((kp_peers k)(hc_PeerName cfg \<mapsto> remotePub))) (hc_PeerName cfg) remotePub k fs of
                       (k', fs', Some e) \<Rightarrow> Some (Some k', fs', Inl (Wrap ''pin peer key'' e))
                     | (k', fs', None) \<Rightarrow> Some (Some k', fs', Inr s))
               else Some (kp, fs, Inr s)))"

definition handshakeKK ::
  "('h, 'cs) noise \<Rightarrow> HandshakeConfig \<Rightarrow> KnownPeers option \<Rightarrow> files \<Rightarrow> link
     \<Rightarrow> (KnownPeers option \<times> files \<times> 'cs Session result) option" where
  "handshakeKK nz cfg kp fs conn =
     (case kp of
        None \<Rightarrow> Some (kp, fs, Inl (Errorf ''handshake: KnownPeers required for KK pattern''))
      | Some k \<Rightarrow>
          if hc_PeerName cfg = [] then Some (kp, fs, Inl (Errorf ''handshake: PeerName required for KK pattern''))
          else (case GetPeer k (hc_PeerName cfg) of
                  None \<Rightarrow> Some (kp, fs, Inl (Errorf ''handshake: peer not in known_peers, use PSK for first connect''))
                | Some peerPub \<Rightarrow>
                    (case nz_New nz \<lparr>nc_Pattern = HandshakeKK, nc_Initiator = hc_Initiator cfg,
                                     nc_Static = (NoisePrivate (hc_Identity cfg), NoisePublic (hc_Identity cfg)),
                                     nc_PSK = [], nc_PeerStatic = peerPub\<rparr> of
                       Inl e \<Rightarrow> Some (kp, fs, Inl (Wrap ''new handshake state'' e))
                     | Inr hs \<Rightarrow>
                         (case runHandshake nz (hc_Initiator cfg) hs conn of
                            None \<Rightarrow> None
                          | Some (hs', conn', Inl e) \<Rightarrow> Some (kp, fs, Inl (Wrap ''KK handshake'' e))
                          | Some (hs', conn', Inr (cs0, cs1)) \<Rightarrow>
                              Some (kp, fs, Inr (newSession conn' cs0 cs1 (hc_Initiator cfg) (nz_Peer nz hs')))))))"

definition Handshake ::
  "('h, 'cs) noise \<Rightarrow> (string \<Rightarrow> bytes) \<Rightarrow> idEnv \<Rightarrow> order \<Rightarrow> HandshakeConfig \<Rightarrow> KnownPeers option \<Rightarrow> files \<Rightarrow> link
     \<Rightarrow> (KnownPeers option \<times> files \<times> 'cs Session result) option" where
  "Handshake nz sha256 env order cfg kp fs conn =
     (if hc_PAKECode cfg \<noteq> [] then handshakeXX nz sha256 env order cfg kp fs conn else handshakeKK nz cfg kp fs conn)"

section \<open>Two parties\<close>

text \<open>
  What the code relies on of the Noise library: two states in step after \<open>k\<close> of \<open>n\<close> messages agree on
  the index, the party whose turn it is writes a message that the other party accepts, and both obtain
  cipher states with the last message and not before, in step in either direction.
\<close>

definition noise_in_step ::
  "('h, 'cs) noise \<Rightarrow> ('cs \<Rightarrow> 'cs \<Rightarrow> bool) \<Rightarrow> nat \<Rightarrow> (nat \<Rightarrow> 'h \<Rightarrow> 'h \<Rightarrow> bool) \<Rightarrow> bool" where
  "noise_in_step nz S n R \<longleftrightarrow>
     (\<forall>k hi hr. k < n \<longrightarrow> R k hi hr \<longrightarrow>
        nz_Index nz hi = k \<and> nz_Index nz hr = k \<and>
        (\<exists>hi' hr' msg ci cr.
           length msg \<le> maxFrame \<and> R (Suc k) hi' hr' \<and>
           (if even k then nz_Write nz hi = (hi', Inr (msg, ci)) \<and> nz_Read nz hr msg = (hr', Inr cr)
            else nz_Write nz hr = (hr', Inr (msg, cr)) \<and> nz_Read nz hi msg = (hi', Inr ci)) \<and>
           (if Suc k < n then ci = None \<and> cr = None
            else \<exists>i0 i1 r0 r1. ci = Some (i0, i1) \<and> cr = Some (r0, r1) \<and> S i0 r0 \<and> S r1 i1)))"

text \<open>One party's run: with \<open>inp\<close> at the front of its input it writes \<open>out\<close> and ends with \<open>r\<close>.\<close>

definition runs ::
  "('h, 'cs) noise \<Rightarrow> bool \<Rightarrow> 'h \<Rightarrow> bytes \<Rightarrow> bytes \<Rightarrow> 'h \<Rightarrow> 'cs \<times> 'cs \<Rightarrow> bool" where
  "runs nz initiator hs inp out hs' cs \<longleftrightarrow>
     (\<forall>conn rest. link_up conn \<longrightarrow> l_rx conn = inp @ rest \<longrightarrow>
        runHandshake nz initiator hs conn = Some (hs', conn\<lparr>l_rx := rest, l_tx := l_tx conn @ out\<rparr>, Inr cs))"

lemma runs_write:
  assumes "ourTurn (nz_Index nz hs) ini" "nz_Write nz hs = (h1, Inr (msg, c))"
  shows "c = Some cs \<Longrightarrow> runs nz ini hs [] (frameBytes msg) h1 cs"
    and "c = None \<Longrightarrow> runs nz ini h1 inp out h2 cs \<Longrightarrow> runs nz ini hs inp (frameBytes msg @ out) h2 cs"
  using assms by (auto simp: runs_def runHandshake.simps [of nz ini hs])

lemma readFrameFrom_frame:
  assumes "link_up conn" "l_rx conn = frameBytes msg @ rest" "length msg \<le> maxFrame"
  shows "readFrameFrom conn = (conn\<lparr>l_rx := rest\<rparr>, Inr msg)"
  using assms by (simp add: readFrameFrom_def link_up_def frame_stream.rd_wr)

lemma runs_read:
  assumes "\<not> ourTurn (nz_Index nz hs) ini" "nz_Read nz hs msg = (h1, Inr c)" "length msg \<le> maxFrame"
  shows "c = Some cs \<Longrightarrow> runs nz ini hs (frameBytes msg) [] h1 cs"
    and "c = None \<Longrightarrow> runs nz ini h1 inp out h2 cs \<Longrightarrow> runs nz ini hs (frameBytes msg @ inp) out h2 cs"
  using assms by (auto simp: runs_def runHandshake.simps [of nz ini hs] readFrameFrom_frame)

lemma noise_in_stepE:
  assumes "noise_in_step nz S n R" "k < n" "R k hi hr"
  obtains hi' hr' msg ci cr where "nz_Index nz hi = k" "nz_Index nz hr = k" "length msg \<le> maxFrame" "R (Suc k) hi' hr'"
    "if even k then nz_Write nz hi = (hi', Inr (msg, ci)) \<and> nz_Read nz hr msg = (hr', Inr cr)
     else nz_Write nz hr = (hr', Inr (msg, cr)) \<and> nz_Read nz hi msg = (hi', Inr ci)"
    "if Suc k < n then ci = None \<and> cr = None
     else \<exists>i0 i1 r0 r1. ci = Some (i0, i1) \<and> cr = Some (r0, r1) \<and> S i0 r0 \<and> S r1 i1"
proof -
  have step: "\<And>k hi hr. k < n \<Longrightarrow> R k hi hr \<Longrightarrow> nz_Index nz hi = k \<and> nz_Index nz hr = k \<and>
      (\<exists>hi' hr' msg ci cr. length msg \<le> maxFrame \<and> R (Suc k) hi' hr' \<and>
         (if even k then nz_Write nz hi = (hi', Inr (msg, ci)) \<and> nz_Read nz hr msg = (hr', Inr cr)
          else nz_Write nz hr = (hr', Inr (msg, cr)) \<and> nz_Read nz hi msg = (hi', Inr ci)) \<and>
         (if Suc k < n then ci = None \<and> cr = None
          else \<exists>i0 i1 r0 r1. ci = Some (i0, i1) \<and> cr = Some (r0, r1) \<and> S i0 r0 \<and> S r1 i1))"
    using assms(1) unfolding noise_in_step_def by (elim allE impE)
  show thesis using step [OF assms(2,3)] by (elim conjE exE) (rule that)
qed

lemma run_pair:
  assumes "noise_in_step nz S n R"
  shows "k < n \<Longrightarrow> R k hi hr \<Longrightarrow>
    \<exists>txI txR hi' hr' i0 i1 r0 r1. runs nz True hi txR txI hi' (i0, i1) \<and> runs nz False hr txI txR hr' (r0, r1) \<and>
      S i0 r0 \<and> S r1 i1"
proof (induction "n - k" arbitrary: k hi hr)
  case 0
  then show ?case by simp
next
  case (Suc d)
  obtain hi' hr' msg ci cr where st: "nz_Index nz hi = k" "nz_Index nz hr = k" "length msg \<le> maxFrame" "R (Suc k) hi' hr'"
    and io: "if even k then nz_Write nz hi = (hi', Inr (msg, ci)) \<and> nz_Read nz hr msg = (hr', Inr cr)
      else nz_Write nz hr = (hr', Inr (msg, cr)) \<and> nz_Read nz hi msg = (hi', Inr ci)"
    and cs: "if Suc k < n then ci = None \<and> cr = None
      else \<exists>i0 i1 r0 r1. ci = Some (i0, i1) \<and> cr = Some (r0, r1) \<and> S i0 r0 \<and> S r1 i1"
    using noise_in_stepE [OF assms Suc.prems] .
  have turn: "ourTurn k True = even k" "ourTurn k False = odd k" by (auto simp: ourTurn_def even_iff_mod_2_eq_zero odd_iff_mod_2_eq_one)
  note wI = runs_write [of nz hi True hi' msg ci] and rI = runs_read [of nz hi True msg hi' ci]
  note wR = runs_write [of nz hr False hr' msg cr] and rR = runs_read [of nz hr False msg hr' cr]
  show ?case
  proof (cases "Suc k < n")
    case True
    then have none: "ci = None" "cr = None" using cs by simp_all
    have "d = n - Suc k" using Suc.hyps(2) by simp
    from Suc.hyps(1) [OF this True st(4)] obtain txI txR hi'' hr'' i0 i1 r0 r1 where
      "runs nz True hi' txR txI hi'' (i0, i1)" "runs nz False hr' txI txR hr'' (r0, r1)" "S i0 r0" "S r1 i1" by blast
    then show ?thesis
      using wI(2) rI(2) wR(2) rR(2) none st(1-3) io turn by (cases "even k") (simp; blast)+
  next
    case False
    then obtain i0 i1 r0 r1 where "ci = Some (i0, i1)" "cr = Some (r0, r1)" "S i0 r0" "S r1 i1" using cs by auto
    then show ?thesis
      using wI(1) rI(1) wR(1) rR(1) st(1-3) io turn by (cases "even k") (simp; blast)+
  qed
qed

text \<open>The store after a first contact.\<close>

definition pinned :: "HandshakeConfig \<Rightarrow> bytes \<Rightarrow> KnownPeers option \<Rightarrow> KnownPeers option" where
  "pinned cfg pub kp =
     (if hc_PeerName cfg \<noteq> [] then map_option (\<lambda>k. k\<lparr>kp_peers := (kp_peers k)(hc_PeerName cfg \<mapsto> pub)\<rparr>) kp else kp)"

lemma handshakeXX_runs:
  assumes "nz_New nz (configXX sha256 cfg) = Inr hs" "runs nz (hc_Initiator cfg) hs inp out hs' (c0, c1)"
    and "\<And>p. ie_mkdir env p = None" "ie_write env = None" "link_up conn" "l_rx conn = inp @ rest"
  shows "\<exists>fs'. handshakeXX nz sha256 env order cfg kp fs conn =
    Some (pinned cfg (nz_Peer nz hs') kp, fs',
      Inr (newSession (conn\<lparr>l_rx := rest, l_tx := l_tx conn @ out\<rparr>) c0 c1 (hc_Initiator cfg) (nz_Peer nz hs')))"
proof -
  have "runHandshake nz (hc_Initiator cfg) hs conn = Some (hs', conn\<lparr>l_rx := rest, l_tx := l_tx conn @ out\<rparr>, Inr (c0, c1))"
    using assms(2,5,6) by (simp add: runs_def)
  then show ?thesis
    using assms(1,3,4)
    by (cases kp) (auto simp: handshakeXX_def pinned_def AddPeer_def SavePeers_def WriteFile_def Let_def)
qed


text \<open>A library with three messages, as the XX pattern has, to show that the hypotheses can hold.\<close>

definition toyNoise :: "(nat, nat) noise" where
  "toyNoise = \<lparr>nz_New = (\<lambda>_. Inr 0), nz_Index = (\<lambda>h. h),
     nz_Write = (\<lambda>h. (Suc h, Inr ([word_of_nat h], if h = 2 then Some (0, 0) else None))),
     nz_Read = (\<lambda>h m. if m = [word_of_nat h] then (Suc h, Inr (if h = 2 then Some (0, 0) else None)) else (h, Inl (Errorf ''bad message''))),
     nz_Peer = (\<lambda>_. [9])\<rparr>"

lemma toyNoise_in_step: "noise_in_step toyNoise (=) 3 (\<lambda>k hi hr. hi = k \<and> hr = k)"
  unfolding noise_in_step_def
proof (intro allI impI)
  fix k hi hr :: nat
  assume "k < 3" "hi = k \<and> hr = k"
  then show "nz_Index toyNoise hi = k \<and> nz_Index toyNoise hr = k \<and>
      (\<exists>hi' hr' msg ci cr. length msg \<le> maxFrame \<and> (hi' = Suc k \<and> hr' = Suc k) \<and>
         (if even k then nz_Write toyNoise hi = (hi', Inr (msg, ci)) \<and> nz_Read toyNoise hr msg = (hr', Inr cr)
          else nz_Write toyNoise hr = (hr', Inr (msg, cr)) \<and> nz_Read toyNoise hi msg = (hi', Inr ci)) \<and>
         (if Suc k < 3 then ci = None \<and> cr = None
          else \<exists>i0 i1 r0 r1. ci = Some (i0, i1) \<and> cr = Some (r0, r1) \<and> i0 = r0 \<and> r1 = i1))"
    by (auto simp: toyNoise_def maxFrame_def)
qed

definition exampleConfig :: "bool \<Rightarrow> HandshakeConfig" where
  "exampleConfig initiator = \<lparr>hc_Identity = \<lparr>PrivKey = [2], PubKey = [1], NoisePrivate = [3], NoisePublic = [4]\<rparr>,
     hc_PeerName = ''bob'', hc_PAKECode = ''1-apple'', hc_Initiator = initiator\<rparr>"


end
