(* ===== verification/Peer.thy ===== *)
theory Peer
  imports Line_Scanner Delivery Handshake
begin

text \<open>
  The demo peer, \<^verbatim>\<open>cmd/peer/main.go\<close>: start-up from the flags, and the two loops that send standard input. The
  loops hand slices to \<open>Send\<close>, and the retry ring keeps them, so they are modelled over a store of arrays.
\<close>

section \<open>Start-up\<close>

record peerFlags =
  pf_addr :: string
  pf_listen :: string
  pf_mode :: string
  pf_timeout :: int
  pf_id :: string
  pf_known :: string
  pf_peerName :: string
  pf_pake :: string
  pf_noCrypto :: bool
  pf_wal :: string

text \<open>
  What the start meets: the files, what opening the log finds, listening, accepting and dialling, the
  clock, the handshake on a connection, and whether the connection is plain TCP.
\<close>

record 'cs peerEnv =
  pe_id :: idEnv
  pe_files :: files
  pe_walOpen :: "string \<Rightarrow> error option"
  pe_walFile :: "string \<Rightarrow> bytes"
  pe_listen :: "string \<Rightarrow> error option"
  pe_accept :: "link result"
  pe_dial :: "string \<Rightarrow> link result"
  pe_now :: int
  pe_shake :: "HandshakeConfig \<Rightarrow> KnownPeers option \<Rightarrow> files \<Rightarrow> link \<Rightarrow> 'cs Session result"

definition peerExpandPath :: "idEnv \<Rightarrow> string \<Rightarrow> string result" where
  "peerExpandPath env path =
     (if path = [] \<or> hd path \<noteq> CHR ''~'' then Inr path
      else case ie_home env of Inl e \<Rightarrow> Inl e | Inr home \<Rightarrow> Inr (home @ tl path))"

definition peerDial :: "'cs peerEnv \<Rightarrow> string \<Rightarrow> string \<Rightarrow> link result" where
  "peerDial env listenAddr remoteAddr =
     (if listenAddr \<noteq> [] then
        (case pe_listen env listenAddr of Some e \<Rightarrow> Inl e | None \<Rightarrow> pe_accept env)
      else pe_dial env remoteAddr)"

text \<open>The handshake configuration with the pinned peers and the files after loading them.\<close>

definition peerCrypto :: "'cs peerEnv \<Rightarrow> peerFlags \<Rightarrow> (HandshakeConfig \<times> KnownPeers option \<times> files) option result" where
  "peerCrypto env fl =
     (if pf_noCrypto fl then Inr None
      else case LoadOrGenerateIdentity (pe_id env) (pf_id fl) (pe_files env) of
             (fs, Inl e) \<Rightarrow> Inl (Wrap ''identity'' e)
           | (fs, Inr ident) \<Rightarrow>
               (case LoadKnownPeers (pe_id env) (pf_known fl) fs of
                  (_, Some e) \<Rightarrow> Inl (Wrap ''known_peers'' e)
                | (kp, None) \<Rightarrow>
                    Inr (Some (\<lparr>hc_Identity = ident, hc_PeerName = pf_peerName fl, hc_PAKECode = pf_pake fl,
                                hc_Initiator = (pf_addr fl \<noteq> [])\<rparr>, kp, fs))))"

definition peerWal :: "'cs peerEnv \<Rightarrow> bool \<Rightarrow> string \<Rightarrow> WAL option result" where
  "peerWal env fsync path =
     (if path = [] then Inr None
      else case peerExpandPath (pe_id env) path of
             Inl e \<Rightarrow> Inl (Wrap ''wal path'' e)
           | Inr expanded \<Rightarrow>
               (case Open (pe_walOpen env expanded) (pe_walFile env expanded) fsync of
                  Inl e \<Rightarrow> Inl (Wrap ''wal'' e)
                | Inr w \<Rightarrow> Inr (Some w)))"

datatype 'cs peerStart = PeerExit error | PeerBlocks | PeerRuns "'cs Broker"

text \<open>\<open>main\<close> up to the running broker; \<open>PeerBlocks\<close> is a recovery that never returns.\<close>

definition peerMain :: "'cs libs \<Rightarrow> 'cs peerEnv \<Rightarrow> peerFlags \<Rightarrow> 'cs peerStart" where
  "peerMain L env fl =
     (if pf_addr fl = [] \<and> pf_listen fl = [] then PeerExit (Errorf ''must set -addr or -listen'')
      else case peerCrypto env fl of
             Inl e \<Rightarrow> PeerExit e
           | Inr hsCfg \<Rightarrow>
               (case peerWal env True (pf_wal fl) of
                  Inl e \<Rightarrow> PeerExit e
                | Inr w \<Rightarrow>
                    (case peerDial env (pf_listen fl) (pf_addr fl) of
                       Inl e \<Rightarrow> PeerExit (Wrap ''connect'' e)
                     | Inr netConn \<Rightarrow>
                         (case New (Inr netConn) (map_option (\<lambda>(cfg, kp, fs). pe_shake env cfg kp fs) hsCfg) True 0 of
                            Inl e \<Rightarrow> PeerExit (Wrap ''conn.New'' e)
                          | Inr c \<Rightarrow>
                              (case NewBroker L (pe_now env) None IoEOF (Some c) w
                                      \<lparr>RetryBuffer = 0, ACKTimeout = pf_timeout fl, MaxRetries = 0\<rparr> of
                                 None \<Rightarrow> PeerBlocks
                               | Some (Inl e) \<Rightarrow> PeerExit (Wrap ''broker.New'' e)
                               | Some (Inr b) \<Rightarrow> PeerRuns b)))))"

section \<open>Sending standard input\<close>

text \<open>
  Each call of \<open>Send\<close> gets a slice. It is recorded with the bytes it shows at that moment, which is what the
  first transmission carries. The ring keeps the fragments: a payload up to the compression threshold is
  not copied, so a retransmission reads the slice again.
\<close>

type_synonym sentSlice = "slice \<times> bytes"

definition resent :: "store \<Rightarrow> sentSlice \<Rightarrow> bytes" where
  "resent st x = (if length (snd x) \<le> ThresholdBytes then deref st (fst x) else snd x)"

fun readTextLoop :: "nat \<Rightarrow> store \<Rightarrow> scanner \<Rightarrow> sentSlice list \<times> store" where
  "readTextLoop 0 st sc = ([], st)"
| "readTextLoop (Suc k) st sc =
     (case Scan st sc of
        Some (st', sc', Some line) \<Rightarrow>
          (case readTextLoop k st' sc' of (q, st'') \<Rightarrow> ((line, deref st' line) # q, st''))
      | Some (st', sc', None) \<Rightarrow> ([], st')
      | None \<Rightarrow> ([], st))"

definition readText :: "(bytes \<times> error option) list \<Rightarrow> sentSlice list \<times> store" where
  "readText reads = readTextLoop (length (concat (map fst reads)) + 1) [[]] (newScanner reads)"

text \<open>Binary input: array 0 is the buffer, every chunk is copied into an array of its own.\<close>

definition binaryBuf :: nat where "binaryBuf = 4096"

fun readBinaryLoop :: "(bytes \<times> error option) list \<Rightarrow> store \<Rightarrow> sentSlice list \<times> store" where
  "readBinaryLoop [] st = ([], st)"
| "readBinaryLoop ((d, e) # reads) st =
     (let buf = take binaryBuf d;
          st1 = st[0 := blit buf 0 (st ! 0)];
          st2 = (if buf = [] then st1 else st1 @ [take (length buf) (st1 ! 0)]);
          chunk = (length st1, 0, length buf);
          here = (if buf = [] then [] else [(chunk, deref st2 chunk)])
      in if e \<noteq> None then (here, st2)
         else case readBinaryLoop reads st2 of (q, st') \<Rightarrow> (here @ q, st'))"

definition readBinary :: "(bytes \<times> error option) list \<Rightarrow> sentSlice list \<times> store" where
  "readBinary reads = readBinaryLoop reads [replicate binaryBuf 0]"

definition readStdin :: "string \<Rightarrow> (bytes \<times> error option) list \<Rightarrow> sentSlice list \<times> store" where
  "readStdin mode reads = (if mode = ''binary'' then readBinary reads else readText reads)"

section \<open>Text lines\<close>

lemma readTextLoop_lines:
  assumes "length (pendingInput st sc) < k" "scanner_ok st sc" "inputClean sc" "linesFit (pendingInput st sc)"
  shows "map snd (fst (readTextLoop k st sc)) = linesOf (pendingInput st sc)"
  using assms
proof (induction k arbitrary: st sc)
  case (Suc k)
  show ?case
  proof (cases "pendingInput st sc = []")
    case True
    then show ?thesis using Scan_spec(1) [OF Suc.prems(2-4)] by (auto simp: linesOf.simps)
  next
    case False
    obtain st' sc' t where s: "Scan st sc = Some (st', sc', Some t)" "deref st' t = trimCR (firstLine (pendingInput st sc))"
        "scanner_ok st' sc'" "inputClean sc'" "pendingInput st' sc' = afterLine (pendingInput st sc)"
      using Scan_spec(2) [OF Suc.prems(2-4) False] by blast
    have fit: "linesFit (pendingInput st' sc')" using Suc.prems(4) False s(5) linesFit.simps [of "pendingInput st sc"] by simp
    have "length (pendingInput st' sc') < k" using s(5) length_afterLine [OF False] Suc.prems(1) by simp
    from Suc.IH [OF this s(3,4) fit] show ?thesis
      using s False linesOf.simps [of "pendingInput st sc"] by (cases "readTextLoop k st' sc'") simp
  qed
qed simp

text \<open>One line per read: where each goes.\<close>

definition lineReads :: "bytes list \<Rightarrow> (bytes \<times> error option) list" where
  "lineReads ls = map (\<lambda>l. (l @ [lf], None)) ls"

definition extent :: "bytes list \<Rightarrow> nat" where
  "extent ls = sum_list (map (\<lambda>l. length l + 1) ls)"

lemma extent_simps [simp]: "extent [] = 0" "extent (l # ls) = length l + 1 + extent ls"
  by (simp_all add: extent_def)

lemma readTextLoop_idle:
  assumes "idle st sc n" "sc_in sc = lineReads ls @ tail" "list_all plainLine ls"
    and "ls \<noteq> [] \<longrightarrow> n + extent (butlast ls) \<le> startBufSize div 2" "n + extent ls < startBufSize"
  shows "\<exists>st' sc' q. (\<forall>k. readTextLoop (length ls + k) st sc = (case readTextLoop k st' sc' of (q', f) \<Rightarrow> (q @ q', f))) \<and>
    idle st' sc' (n + extent ls) \<and> sc_in sc' = tail \<and> sc_arr sc' = sc_arr sc"
  using assms
proof (induction ls arbitrary: n st sc)
  case Nil
  then show ?case by (intro exI [of _ st] exI [of _ sc] exI [of _ "[]"]) (simp add: lineReads_def)
next
  case (Cons l ls)
  have pos: "nextPos n = n" using Cons.prems(4) by (cases ls) (auto simp: nextPos_def)
  let ?st = "st[sc_arr sc := blit (l @ [lf]) n (st ! sc_arr sc)]"
  let ?sc = "sc\<lparr>sc_start := n + length l + 1, sc_end := n + length l + 1, sc_in := lineReads ls @ tail\<rparr>"
  have scan: "Scan st sc = Some (?st, ?sc, Some (sc_arr sc, n, length l))"
    using scanLoop_line [OF Cons.prems(1), of l "lineReads ls @ tail"] Cons.prems(2,3,5) pos by (simp add: lineReads_def)
  have "length (blit (l @ [lf]) n (st ! sc_arr sc)) = length (st ! sc_arr sc)"
    using Cons.prems(1,5) by (intro length_blit) (simp add: idle_def bufLen_def)
  then have idle: "idle ?st ?sc (n + (length l + 1))"
    using Cons.prems(1,5) by (simp add: idle_def bufLen_def)
  have "ls \<noteq> [] \<longrightarrow> n + (length l + 1) + extent (butlast ls) \<le> startBufSize div 2"
    using Cons.prems(4) by (cases ls) auto
  then obtain st' sc' q where IH: "\<forall>k. readTextLoop (length ls + k) ?st ?sc = (case readTextLoop k st' sc' of (q', f) \<Rightarrow> (q @ q', f))"
      "idle st' sc' (n + (length l + 1) + extent ls)" "sc_in sc' = tail" "sc_arr sc' = sc_arr ?sc"
    using Cons.IH [OF idle] Cons.prems(3,5) by auto
  have "\<forall>k. readTextLoop (length (l # ls) + k) st sc =
      (case readTextLoop k st' sc' of (q', f) \<Rightarrow> ((((sc_arr sc, n, length l), deref ?st (sc_arr sc, n, length l)) # q) @ q', f))"
    using scan IH(1) by (simp split: prod.splits)
  moreover have "sc_arr sc' = sc_arr sc" using IH(4) by simp
  ultimately show ?case using IH(2,3)
    by (intro exI [of _ st'] exI [of _ sc'] exI [of _ "((sc_arr sc, n, length l), deref ?st (sc_arr sc, n, length l)) # q"])
      (simp only: extent_simps add.assoc scanner.simps simp_thms)
qed

lemma Scan_first:
  assumes "plainLine l" "length l + 1 < startBufSize"
  shows "\<exists>sc. Scan [[]] (newScanner ((l @ [lf], None) # rest)) =
      Some ([[], blit (l @ [lf]) 0 (replicate startBufSize 0)], sc, Some (1, 0, length l)) \<and>
    idle [[], blit (l @ [lf]) 0 (replicate startBufSize 0)] sc (length l + 1) \<and> sc_in sc = rest \<and> sc_arr sc = 1"
proof -
  let ?new = "newScanner ((l @ [lf], None) # rest)" and ?b = "blit (l @ [lf]) 0 (replicate startBufSize 0)"
  let ?sc = "\<lparr>sc_arr = 1, sc_start = 0, sc_end = length l + 1, sc_err = None, sc_in = rest\<rparr>"
  have size: "length ?b = startBufSize" using assms(2) by (intro trans [OF length_blit]) simp_all
  have t0: "token [[]] ?new = (0, None)" by (simp add: token_def newScanner_def)
  have r: "refill [[]] ?new = Some ([[], ?b], ?sc)"
    using assms(2) by (simp add: refill_def shift_def grow_def readMore_def bufLen_def newScanner_def buffered_def blit_def maxTokenSize_def startBufSize_def Let_def)
  have "buffered [[], ?b] ?sc = l @ [lf]" by (simp add: buffered_def blit_def)
  then have t1: "token [[], ?b] ?sc = (length l + 1, Some (length l))" using ScanLines_plain [OF assms(1)] by (simp add: token_def)
  have k: "unread ?new + 1 = Suc (Suc (unread ?new - 1))" by (simp add: unread_def newScanner_def)
  have "Scan [[]] ?new = Some ([[], ?b], ?sc\<lparr>sc_start := length l + 1\<rparr>, Some (1, 0, length l))"
    unfolding Scan_def k using t0 r t1 by (simp add: newScanner_def)
  then show ?thesis using assms(2) size by (auto simp: idle_def bufLen_def)
qed

lemma Scan_end:
  assumes "idle st sc n" "sc_in sc = []"
  shows "\<exists>sc'. Scan st sc = Some (st, sc', None)"
proof -
  let ?sc = "sc\<lparr>sc_start := nextPos n, sc_end := nextPos n, sc_err := Some IoEOF\<rparr>"
  have t0: "token st sc = (0, None)" using assms(1) by (simp add: token_def idle_def)
  have r: "refill st sc = Some (st, ?sc)"
    using assms by (auto simp: refill_def shift_idle [OF assms(1)] grow_def readMore_def idle_def bufLen_def nextPos_def startBufSize_def)
  have t1: "token st ?sc = (0, None)" by (simp add: token_def ScanLines_def buffered_def)
  have k: "unread sc + 1 = Suc (Suc 0)" using assms by (simp add: unread_def idle_def)
  show ?thesis using t0 r t1 assms(1) unfolding Scan_def k by (simp add: idle_def)
qed

section \<open>Binary chunks\<close>

lemma readBinaryLoop_keeps:
  assumes "\<forall>x\<in>set reads. length (fst x) \<le> binaryBuf \<and> snd x = None" "st \<noteq> []" "length (st ! 0) = binaryBuf" "readBinaryLoop reads st = (q, st')"
  shows "length st \<le> length st' \<and> (\<forall>i. 0 < i \<and> i < length st \<longrightarrow> st' ! i = st ! i) \<and>
    map (\<lambda>x. deref st' (fst x)) q = filter (\<lambda>d. d \<noteq> []) (map fst reads) \<and> map snd q = filter (\<lambda>d. d \<noteq> []) (map fst reads)"
  using assms
proof (induction reads arbitrary: st q)
  case (Cons x reads)
  obtain d where x: "x = (d, None)" "length d \<le> binaryBuf" using Cons.prems(1) by (cases x) auto
  define st1 where "st1 = st[0 := blit d 0 (st ! 0)]"
  have st1: "st1 \<noteq> []" "length (st1 ! 0) = binaryBuf" "length st1 = length st" "\<forall>i. 0 < i \<longrightarrow> st1 ! i = st ! i" "take (length d) (st1 ! 0) = d"
    using Cons.prems(2,3) x(2) length_blit [of 0 d "st ! 0"] by (auto simp: st1_def blit_def)
  let ?st2 = "if d = [] then st1 else st1 @ [d]" and ?here = "if d = [] then [] else [((length st1, 0, length d), d)] :: sentSlice list"
  have step: "readBinaryLoop (x # reads) st = (case readBinaryLoop reads ?st2 of (q', f) \<Rightarrow> (?here @ q', f))"
    using x st1(5) unfolding x(1) readBinaryLoop.simps Let_def take_all [OF x(2)] st1_def [symmetric]
    by (cases "d = []") (simp_all add: deref_def)
  then obtain q' where q': "readBinaryLoop reads ?st2 = (q', st')" "q = ?here @ q'"
    using Cons.prems(4) by (cases "readBinaryLoop reads ?st2") simp
  have IH: "length ?st2 \<le> length st' \<and> (\<forall>i. 0 < i \<and> i < length ?st2 \<longrightarrow> st' ! i = ?st2 ! i) \<and>
      map (\<lambda>x. deref st' (fst x)) q' = filter (\<lambda>d. d \<noteq> []) (map fst reads) \<and> map snd q' = filter (\<lambda>d. d \<noteq> []) (map fst reads)"
    using Cons.IH [OF _ _ _ q'(1)] Cons.prems(1) st1(1,2) by (auto simp: nth_append)
  have "st' ! length st1 = d" if "d \<noteq> []"
  proof -
    have "0 < length st1" using st1(1) by simp
    then show ?thesis using IH that by (simp add: nth_append)
  qed
  then show ?case using IH q'(2) st1(3,4) x by (auto simp: deref_def nth_append split: if_splits)
qed simp

section \<open>Reconnecting\<close>

text \<open>
  The dial function always returns the one connection, and \<open>Reconnect\<close> closes the transport it replaces,
  which is that same connection: what a reconnect finds is the connection closed.
\<close>

definition peerRedial :: "link \<Rightarrow> link result" where
  "peerRedial l = Inr (l\<lparr>l_closed := True\<rparr>)"

definition deadConn :: "'cs Conn \<Rightarrow> bool" where
  "deadConn c \<longleftrightarrow> (\<exists>l. c_transport c = Plain l \<and> l_closed l)"

lemma WriteMsg_dead:
  assumes "deadConn c" "c_bw c = None"
  shows "fst (WriteMsg E m c) = c"
  using assms by (cases c) (auto simp: WriteMsg_def deadConn_def net_write_def Let_def)

lemma writeAll_dead:
  assumes "deadConn (b_conn b)" "c_bw (b_conn b) = None"
  shows "writeAll L ms b = b"
proof -
  have "foldl (\<lambda>c m. fst (WriteMsg (cipherEncrypt L) m c)) (b_conn b) ms = b_conn b"
    using WriteMsg_dead [OF assms] by (induction ms) simp_all
  then show ?thesis by (simp add: writeAll_def)
qed

lemma ReadMsg_dead: "deadConn c \<Longrightarrow> ReadMsg D c = (c, Inl NetErrClosed)"
  by (cases c) (auto simp: ReadMsg_def deadConn_def net_read_full_def HeaderSize_def)

text \<open>The connection of the peer with nothing more to read on it.\<close>

definition lostConn :: "link \<Rightarrow> 'cs Conn \<Rightarrow> bool" where
  "lostConn l c \<longleftrightarrow> c_bw c = None \<and> c_transport c \<in> {Plain l, Plain (l\<lparr>l_closed := True\<rparr>)}"

lemma ReadMsg_lost:
  assumes "lostConn l c" "l_rx l = []" "isConnError (l_rerr l)"
  shows "\<exists>err. ReadMsg D c = (c, Inl err) \<and> isConnError err"
proof (cases "deadConn c")
  case True
  then show ?thesis using ReadMsg_dead [OF True, of D] by (intro exI [of _ NetErrClosed]) (simp add: isConnError_def)
next
  case False
  then have "c_transport c = Plain l" "\<not> l_closed l" using assms(1) by (auto simp: lostConn_def deadConn_def)
  then show ?thesis using assms(2,3) by (cases c) (auto simp: ReadMsg_def net_read_full_def ReadFull_def HeaderSize_def)
qed

lemma turn_lost:
  assumes "lostConn l (b_conn b)" "l_rx l = []" "isConnError (l_rerr l)" "\<not> b_stop b"
    and "\<not> t_stopped t" "t_attempts t = Dials (peerRedial l) # later"
  shows "\<exists>b'. readLoopTurn L None t b = Continue b' \<and> lostConn l (b_conn b') \<and> deadConn (b_conn b') \<and> \<not> b_stop b' \<and>
    b_calls b' = b_calls b @ [OnDisconnected, OnReconnected]"
proof -
  obtain err where err: "ReadMsg (cipherDecrypt L) (b_conn b) = (b_conn b, Inl err)" "isConnError err"
    using ReadMsg_lost [OF assms(1-3)] by blast
  let ?c = "(b_conn b)\<lparr>c_transport := Plain (l\<lparr>l_closed := True\<rparr>)\<rparr>"
  have bw: "c_bw (b_conn b) = None" using assms(1) by (simp add: lostConn_def)
  then have rc: "Reconnect (peerRedial l) None (b_conn b) = (?c, None)"
    by (cases "b_conn b") (simp add: Reconnect_def peerRedial_def buildTransport_def)
  have dead: "deadConn ?c" "c_bw ?c = None" "lostConn l ?c" using bw by (simp_all add: deadConn_def lostConn_def)
  have rp: "replayUnacked L now (b'\<lparr>b_conn := ?c\<rparr>) = b'\<lparr>b_conn := ?c, b_ring := fst (replayScan now (b_ring b'))\<rparr>" for now and b' :: "'a Broker"
    using writeAll_dead [of "b'\<lparr>b_conn := ?c, b_ring := fst (replayScan now (b_ring b'))\<rparr>" L] dead
    by (cases "replayScan now (b_ring b')") (simp add: replayUnacked_def)
  show ?thesis
    using err assms(4-6) rc dead by (simp add: readLoopTurn_def Let_def rp)
qed

section \<open>Properties\<close>

text \<open>
  The text peer sends the lines of its input. If no line reaches 64 KB, the calls of \<open>Send\<close> carry, in
  order, exactly the lines of standard input without their line ends, however the input is cut into reads.
\<close>

theorem read_text_sends_lines:
  assumes "\<forall>x\<in>set reads. snd x = None" and "linesFit (concat (map fst reads))"
  shows "map snd (fst (readText reads)) = linesOf (concat (map fst reads))"
  using readTextLoop_lines [of "[[]]" "newScanner reads" "length (concat (map fst reads)) + 1"] assms newScanner_ok [of reads]
  unfolding readText_def by simp

text \<open>
  C36: A retransmitted line may be another line. \<open>readText\<close> passes the scanner's own buffer to \<open>Send\<close>. When
  short lines arrive one by one and have filled more than half of the buffer, the next line is read over
  the first one: if that one is still unacknowledged, its retransmission carries different bytes than its first
  transmission did. (\<open>readBinary\<close> copies its input and has no such fault.)
\<close>

theorem retransmitted_line_corrupted:
  assumes "list_all plainLine (first # ls @ [next])" and "length next < length first" and "length first \<le> ThresholdBytes"
    and "extent (butlast (first # ls)) \<le> startBufSize div 2" and "startBufSize div 2 < extent (first # ls)"
    and "extent (first # ls) < startBufSize"
  shows "\<exists>x q st. readText (lineReads (first # ls @ [next])) = (x # q, st) \<and> snd x = first \<and> resent st x \<noteq> first"
proof -
  let ?b = "blit (first @ [lf]) 0 (replicate startBufSize 0)"
  have plain: "plainLine first" "list_all plainLine ls" "plainLine next" using assms(1) by auto
  obtain sc where sc: "Scan [[]] (newScanner (lineReads (first # ls @ [next]))) = Some ([[], ?b], sc, Some (1, 0, length first))"
      "idle [[], ?b] sc (length first + 1)" "sc_in sc = lineReads ls @ lineReads [next]" "sc_arr sc = 1"
    using Scan_first [OF plain(1), of "lineReads ls @ lineReads [next]"] assms(6) by (auto simp: lineReads_def)
  have "ls \<noteq> [] \<longrightarrow> length first + 1 + extent (butlast ls) \<le> startBufSize div 2" using assms(4) by (cases ls) auto
  then obtain st' sc' q where loop: "\<forall>k. readTextLoop (length ls + k) [[], ?b] sc = (case readTextLoop k st' sc' of (q', f) \<Rightarrow> (q @ q', f))"
      "idle st' sc' (extent (first # ls))" "sc_in sc' = lineReads [next]" "sc_arr sc' = 1"
    using readTextLoop_idle [OF sc(2,3) plain(2)] assms(6) sc(4) by auto
  let ?st = "st'[1 := blit (next @ [lf]) 0 (st' ! 1)]"
  have pos: "nextPos (extent (first # ls)) = 0" using assms(5) by (simp add: nextPos_def)
  have small: "length next + 1 < startBufSize" using assms(2,3) by (simp add: ThresholdBytes_def startBufSize_def)
  obtain sc'' where s2: "Scan st' sc' = Some (?st, sc'', Some (1, 0, length next))" "sc_in sc'' = []" "idle ?st sc'' (length next + 1)"
  proof -
    have "length (blit (next @ [lf]) 0 (st' ! 1)) = length (st' ! 1)"
      using loop(2,4) small by (intro length_blit) (simp add: idle_def bufLen_def)
    then have "idle ?st (sc'\<lparr>sc_start := length next + 1, sc_end := length next + 1, sc_in := []\<rparr>) (length next + 1)"
      using loop(2,4) small by (simp add: idle_def bufLen_def)
    then show thesis
      using that scanLoop_line [OF loop(2), of "next" "[]"] loop(3,4) plain(3) pos small by (simp add: lineReads_def)
  qed
  have last: "readTextLoop (Suc (Suc k)) st' sc' = ([((1, 0, length next), deref ?st (1, 0, length next))], ?st)" for k
    using s2(1) Scan_end [OF s2(3,2)] by auto
  define x where "x = (((1, 0, length first), deref [[], ?b] (1, 0, length first)) :: sentSlice)"
  obtain k where k: "length (concat (map fst (lineReads (first # ls @ [next])))) + 1 = Suc (length ls + Suc (Suc k))"
  proof -
    have "length ls \<le> length (concat (map fst (lineReads ls)))" by (induction ls) (simp_all add: lineReads_def)
    then have "Suc (length ls + 2) \<le> length (concat (map fst (lineReads (first # ls @ [next])))) + 1" by (simp add: lineReads_def)
    then show thesis using that nat_le_iff_add by auto
  qed
  have "readTextLoop (length ls + Suc (Suc k)) [[], ?b] sc = (q @ [((1, 0, length next), deref ?st (1, 0, length next))], ?st)"
    using loop(1) [rule_format, of "Suc (Suc k)"] unfolding last [of k] by (simp only: prod.case)
  then have run: "readText (lineReads (first # ls @ [next])) = (x # q @ [((1, 0, length next), deref ?st (1, 0, length next))], ?st)"
    unfolding readText_def k using sc(1) by (simp add: x_def)
  have "snd x = first" by (simp add: x_def deref_def blit_def)
  moreover have "resent ?st x \<noteq> first"
  proof -
    have "1 < length st'" using loop(2,4) by (simp add: idle_def)
    then have "resent ?st x = take (length first) (next @ [lf] @ drop (length next + 1) (st' ! 1))"
      using assms(3) \<open>snd x = first\<close> by (simp add: resent_def x_def deref_def blit_def)
    then have "resent ?st x ! length next = lf" using assms(2) by (simp add: nth_append)
    moreover have "first ! length next \<noteq> lf" using plain(1) assms(2) by (metis nth_mem plainLine_def)
    ultimately show ?thesis by metis
  qed
  ultimately show ?thesis using run by blast
qed

theorem binary_chunks_kept:
  assumes "\<forall>x\<in>set reads. length (fst x) \<le> binaryBuf \<and> snd x = None"
  shows "map (resent (snd (readBinary reads))) (fst (readBinary reads)) = filter (\<lambda>d. d \<noteq> []) (map fst reads) \<and>
    map snd (fst (readBinary reads)) = filter (\<lambda>d. d \<noteq> []) (map fst reads)"
proof -
  obtain q st' where q: "readBinaryLoop reads [replicate binaryBuf 0] = (q, st')" by force
  then have k: "map (\<lambda>x. deref st' (fst x)) q = filter (\<lambda>d. d \<noteq> []) (map fst reads)" "map snd q = filter (\<lambda>d. d \<noteq> []) (map fst reads)"
    using readBinaryLoop_keeps [OF assms _ _ q] by auto
  then have "\<forall>x\<in>set q. deref st' (fst x) = snd x" using map_eq_conv [of "\<lambda>x. deref st' (fst x)" q snd] by simp
  then have "map (resent st') q = map snd q" by (auto simp: resent_def)
  then show ?thesis using k q by (simp add: readBinary_def)
qed


theorem read_text_sends_lines_witness:
  "map snd (fst (readText [([104, 105, 13], None), ([10, 97], None)])) = [[104, 105], [97]]"
proof -
  have fl: "firstLine [104, 105, 13, 10, 97] = [104, 105, 13]" "afterLine [104, 105, 13, 10, 97] = [97]" "firstLine [97] = [97]" "afterLine [97] = []"
    by (simp_all add: firstLine_def afterLine_def)
  have "linesFit [104, 105, 13, 10, 97]" by (subst linesFit.simps, subst linesFit.simps) (simp add: fl maxTokenSize_def linesFit.simps [of "[]"])
  moreover have "linesOf [104, 105, 13, 10, 97] = [[104, 105], [97]]"
    by (subst linesOf.simps, subst linesOf.simps) (simp add: fl trimCR_def linesOf.simps [of "[]"])
  ultimately show ?thesis using read_text_sends_lines [of "[([104, 105, 13], None), ([10, 97], None)]"] by simp
qed

theorem retransmitted_line_corrupted_witness:
  "\<exists>x q st. readText (lineReads (replicate 200 97 # replicate 10 (replicate 200 97) @ [[98]])) = (x # q, st) \<and>
     snd x = replicate 200 97 \<and> resent st x \<noteq> replicate 200 97"
proof (rule retransmitted_line_corrupted)
  have e: "extent (replicate n (replicate 200 97)) = 201 * n" for n by (induction n) simp_all
  have b: "butlast (y # replicate 10 y) = replicate 10 y" for y :: bytes by (simp add: numeral_eq_Suc)
  show "list_all plainLine (replicate 200 97 # replicate 10 (replicate 200 97) @ [[98]])"
    by (simp add: list_all_iff plainLine_def)
  show "length [98 :: byte] < length (replicate 200 (97 :: byte))" by simp
  show "length (replicate 200 (97 :: byte)) \<le> ThresholdBytes" by (simp add: ThresholdBytes_def)
  show "extent (butlast (replicate 200 97 # replicate 10 (replicate 200 97))) \<le> startBufSize div 2"
    unfolding b using e [of 10] by (simp add: startBufSize_def)
  show "startBufSize div 2 < extent (replicate 200 97 # replicate 10 (replicate 200 97))"
    using e [of 10] by (simp add: startBufSize_def)
  show "extent (replicate 200 97 # replicate 10 (replicate 200 97)) < startBufSize"
    using e [of 10] by (simp add: startBufSize_def)
qed

text \<open>Flags and surroundings for examples: a connection on which the other peer is gone.\<close>

definition examplePeerEnv :: "unit peerEnv" where
  "examplePeerEnv = \<lparr>pe_id = exampleIdEnv, pe_files = Map.empty, pe_walOpen = (\<lambda>_. None), pe_walFile = (\<lambda>_. []),
     pe_listen = (\<lambda>_. None), pe_accept = Inl IoEOF, pe_dial = (\<lambda>_. Inr (new_link [] IoEOF)), pe_now = 0, pe_shake = (\<lambda>_ _ _ _. Inl IoEOF)\<rparr>"

definition examplePeerFlags :: peerFlags where
  "examplePeerFlags = \<lparr>pf_addr = ''h:1'', pf_listen = [], pf_mode = ''text'', pf_timeout = 1, pf_id = [], pf_known = [],
     pf_peerName = [], pf_pake = [], pf_noCrypto = True, pf_wal = []\<rparr>"


end
