(* ===== verification/Bench_Cmd.thy ===== *)
theory Bench_Cmd
  imports Peer
begin

text \<open>
  The throughput benchmark, \<^verbatim>\<open>cmd/bench/main.go\<close>: a client sends a number of data messages and then a sentinel
  naming that number; the server counts and answers. The server's callback runs on the broker's read loop,
  so nothing is counted while it waits.
\<close>

section \<open>Texts\<close>

definition sentinelPrefix :: string where "sentinelPrefix = ''BENCH_END:''"
definition donePayload :: string where "donePayload = ''BENCH_DONE''"

fun digitsValue :: "string \<Rightarrow> int \<Rightarrow> int option" where
  "digitsValue [] n = Some n"
| "digitsValue (c # cs) n =
     (if of_char c \<ge> (48 :: nat) \<and> of_char c \<le> (57 :: nat) then digitsValue cs (10 * n + int (of_char c - 48)) else None)"

text \<open>\<^verbatim>\<open>strconv.ParseInt\<close> in base 10 with its error ignored: zero for what is no number, the bound for what is out of range.\<close>

definition parseInt :: "string \<Rightarrow> int" where
  "parseInt s =
     (let (neg, ds) = (case s of c # cs \<Rightarrow> if c = CHR ''-'' then (True, cs) else if c = CHR ''+'' then (False, cs) else (False, s) | [] \<Rightarrow> (False, s))
      in case (if ds = [] then None else digitsValue ds 0) of
           None \<Rightarrow> 0
         | Some n \<Rightarrow> if neg then max (- n) (- (2 ^ 63)) else min n (2 ^ 63 - 1))"

section \<open>Server\<close>

record benchServer =
  srvDataCount :: int
  srvDataBytes :: int
  srvDone :: bool

text \<open>
  The wait of the sentinel's handler: after each sleep the clock and the counter are looked at again. The
  result says whether the counter caught up or progress stalled; \<open>None\<close> while it is still waiting.
\<close>

definition stallTime :: int where "stallTime = 30 * 10 ^ 9"

fun catchUp :: "int \<Rightarrow> int \<Rightarrow> int \<Rightarrow> int \<Rightarrow> (int \<times> int) list \<Rightarrow> bool option" where
  "catchUp expected seen lastSeen stallDeadline samples =
     (if seen \<ge> expected then Some True
      else case samples of
             [] \<Rightarrow> None
           | (now, cur) # rest \<Rightarrow>
               let lastSeen' = (if cur > lastSeen then cur else lastSeen);
                   stallDeadline' = (if cur > lastSeen then now + stallTime else stallDeadline)
               in if now > stallDeadline' then Some False
                  else catchUp expected cur lastSeen' stallDeadline' rest)"

text \<open>
  The server's callback for one message at the time \<open>now\<close>; \<open>None\<close> while it waits. Sending on the channel of
  capacity one never blocks.
\<close>

definition serverInbound :: "int \<Rightarrow> (int \<times> int) list \<Rightarrow> ContentType \<Rightarrow> bytes \<Rightarrow> benchServer \<Rightarrow> benchServer option" where
  "serverInbound now samples ct payload s =
     (if ct = ContentText \<and> prefix sentinelPrefix (asText payload) then
        (let expected = parseInt (drop (length sentinelPrefix) (asText payload)) in
         case catchUp expected (srvDataCount s) (srvDataCount s) (now + stallTime) samples of
           None \<Rightarrow> None
         | Some _ \<Rightarrow> Some (s\<lparr>srvDone := True\<rparr>))
      else Some (s\<lparr>srvDataCount := srvDataCount s + 1, srvDataBytes := srvDataBytes s + int (length payload)\<rparr>))"

text \<open>The messages in the order in which the read loop hands them over, each with what the clock shows meanwhile.\<close>

fun serverInbounds :: "(int \<times> int list \<times> ContentType \<times> bytes) list \<Rightarrow> benchServer \<Rightarrow> benchServer option" where
  "serverInbounds [] s = Some s"
| "serverInbounds ((now, clock, ct, payload) # ms) s =
     (case serverInbound now (map (\<lambda>t. (t, srvDataCount s)) clock) ct payload s of
        None \<Rightarrow> None
      | Some s' \<Rightarrow> serverInbounds ms s')"

text \<open>The server's loop: the reply when done, a report every second.\<close>

datatype srvEvent = SrvDone | SrvTick int
datatype srvOutput = ReplyDone | ReportTick int int

fun runServer :: "srvEvent list \<Rightarrow> int \<Rightarrow> srvOutput list" where
  "runServer [] prev = []"
| "runServer (SrvDone # es) prev = ReplyDone # runServer es prev"
| "runServer (SrvTick cur # es) prev = ReportTick cur (cur - prev) # runServer es cur"

section \<open>Client\<close>

definition clientPayload :: "nat \<Rightarrow> bytes" where
  "clientPayload n = map (\<lambda>i. of_nat (i mod 256)) [0..<n]"

text \<open>The messages of a run in the order of the calls of \<open>Send\<close>.\<close>

definition runClient :: "nat \<Rightarrow> nat \<Rightarrow> (ContentType \<times> bytes) list" where
  "runClient num n =
     replicate num (ContentBinary, clientPayload n) @ [(ContentText, asBytes (sentinelPrefix @ decimal num))]"

text \<open>
  The wait for the answer: the clock and the flag at each turn of the loop. The result says whether the
  answer came before the deadline; \<open>None\<close> while it is still waiting.
\<close>

fun clientWait :: "int \<Rightarrow> (int \<times> bool) list \<Rightarrow> bool option" where
  "clientWait deadline [] = None"
| "clientWait deadline ((now, flag) # rest) =
     (if now < deadline then (if flag then Some True else clientWait deadline rest) else Some flag)"

definition clientInbound :: "ContentType \<Rightarrow> bytes \<Rightarrow> bool \<Rightarrow> bool" where
  "clientInbound ct payload benchDoneFlag \<longleftrightarrow> benchDoneFlag \<or> (ct = ContentText \<and> asText payload = donePayload)"

section \<open>Start-up\<close>

text \<open>
  The flags are those of the peer (encryption is off unless asked for) and the batch size of the connection.
  The command has its own copies of the peer's functions for paths and for connecting.
\<close>

record benchFlags = peerFlags +
  bf_crypto :: bool
  bf_batchSize :: nat

definition benchExpandPath :: "idEnv \<Rightarrow> string \<Rightarrow> string result" where
  "benchExpandPath env path =
     (if path = [] \<or> hd path \<noteq> CHR ''~'' then Inr path
      else case ie_home env of Inl e \<Rightarrow> Inl e | Inr home \<Rightarrow> Inr (home @ tl path))"

definition benchDial :: "'cs peerEnv \<Rightarrow> string \<Rightarrow> string \<Rightarrow> link result" where
  "benchDial env listenAddr dialAddr =
     (if listenAddr \<noteq> [] then
        (case pe_listen env listenAddr of Some e \<Rightarrow> Inl e | None \<Rightarrow> pe_accept env)
      else pe_dial env dialAddr)"

definition benchWal :: "'cs peerEnv \<Rightarrow> string \<Rightarrow> WAL option result" where
  "benchWal env walPath =
     (if walPath = [] then Inr None
      else case benchExpandPath (pe_id env) walPath of
             Inl e \<Rightarrow> Inl (Wrap ''wal path'' e)
           | Inr expanded \<Rightarrow>
               (case Open (pe_walOpen env expanded) (pe_walFile env expanded) False of
                  Inl e \<Rightarrow> Inl (Wrap ''wal'' e)
                | Inr w \<Rightarrow> Inr (Some w)))"

definition benchMain :: "'cs libs \<Rightarrow> 'cs peerEnv \<Rightarrow> benchFlags \<Rightarrow> 'cs peerStart" where
  "benchMain L env fl =
     (if pf_listen fl = [] \<and> pf_addr fl = [] then PeerExit (Errorf ''usage: bench -listen :9100 OR bench -addr host:9100'')
      else case peerCrypto env (peerFlags.truncate (fl\<lparr>pf_noCrypto := \<not> bf_crypto fl\<rparr>)) of
             Inl e \<Rightarrow> PeerExit e
           | Inr hsCfg \<Rightarrow>
               (case benchWal env (pf_wal fl) of
                  Inl e \<Rightarrow> PeerExit e
                | Inr w \<Rightarrow>
                    (case benchDial env (pf_listen fl) (pf_addr fl) of
                       Inl e \<Rightarrow> PeerExit (Wrap ''connect'' e)
                     | Inr raw \<Rightarrow>
                         (case New (Inr raw) (map_option (\<lambda>(cfg, kp, fs). pe_shake env cfg kp fs) hsCfg) True (bf_batchSize fl) of
                            Inl e \<Rightarrow> PeerExit (Wrap ''conn'' e)
                          | Inr c \<Rightarrow>
                              (case NewBroker L (pe_now env) None IoEOF (Some c) w
                                      \<lparr>RetryBuffer = 0, ACKTimeout = 30 * 10 ^ 9, MaxRetries = 3\<rparr> of
                                 None \<Rightarrow> PeerBlocks
                               | Some (Inl e) \<Rightarrow> PeerExit (Wrap ''broker'' e)
                               | Some (Inr b) \<Rightarrow> PeerRuns b)))))"

definition clientMode :: "benchFlags \<Rightarrow> bool" where "clientMode fl \<longleftrightarrow> pf_addr fl \<noteq> []"

section \<open>Texts and numbers\<close>

lemma digitsValue_append: "digitsValue (s @ t) n = (case digitsValue s n of None \<Rightarrow> None | Some m \<Rightarrow> digitsValue t m)"
  by (induction s arbitrary: n) auto

lemma digitsValue_decimal: "digitsValue (decimal n) 0 = Some (int n)"
proof (induction n rule: decimal.induct)
  case (1 n)
  have "10 * int (n div 10) + int (n mod 10) = int n" by (simp add: zdiv_int zmod_int)
  then show ?case using 1 by (subst decimal.simps) (auto simp: digitsValue_append)
qed

lemma parseInt_decimal:
  assumes "int n < 2 ^ 63"
  shows "parseInt (decimal n) = int n"
  using assms decimal_hd [of n] decimal_nonempty [of n] digitsValue_decimal [of n]
  by (cases "decimal n") (auto simp: parseInt_def min_def)

section \<open>Waiting\<close>

text \<open>Nothing is counted during the wait, so it can only end by stalling.\<close>

lemma catchUp_blocked:
  "c < expected \<Longrightarrow> catchUp expected c c dl (map (\<lambda>t. (t, c)) clock) = (if \<exists>t\<in>set clock. t > dl then Some False else None)"
proof (induction clock)
  case (Cons t clock)
  then show ?case by (subst catchUp.simps) (auto simp: Let_def simp del: catchUp.simps)
qed simp

declare catchUp.simps [simp del]

lemma serverInbound_data: "serverInbound now samples ContentBinary p s =
    Some (s\<lparr>srvDataCount := srvDataCount s + 1, srvDataBytes := srvDataBytes s + int (length p)\<rparr>)"
  by (simp add: serverInbound_def)

lemma serverInbound_sentinel:
  assumes "int n < 2 ^ 63"
  shows "serverInbound now (map (\<lambda>t. (t, srvDataCount s)) clock) ContentText (asBytes (sentinelPrefix @ decimal n)) s =
    (if srvDataCount s \<ge> int n \<or> (\<exists>t\<in>set clock. t > now + stallTime) then Some (s\<lparr>srvDone := True\<rparr>) else None)"
proof (cases "srvDataCount s \<ge> int n")
  case True
  then show ?thesis using parseInt_decimal [OF assms] by (simp add: serverInbound_def catchUp.simps)
next
  case False
  then show ?thesis using parseInt_decimal [OF assms] catchUp_blocked [of "srvDataCount s" "int n"]
    by (simp add: serverInbound_def)
qed

text \<open>What a message is, apart from the clock.\<close>

abbreviation carried :: "int \<times> int list \<times> ContentType \<times> bytes \<Rightarrow> ContentType \<times> bytes" where
  "carried m \<equiv> (fst (snd (snd m)), snd (snd (snd m)))"

lemma serverInbounds_data:
  "map carried ms = replicate k (ContentBinary, p) \<Longrightarrow>
   serverInbounds (ms @ rest) s =
   serverInbounds rest (s\<lparr>srvDataCount := srvDataCount s + int k, srvDataBytes := srvDataBytes s + int k * int (length p)\<rparr>)"
proof (induction ms arbitrary: k s)
  case (Cons m ms)
  then obtain j where j: "k = Suc j" by (cases k) auto
  obtain now clock where m: "m = (now, clock, ContentBinary, p)" using Cons.prems j by (cases m) auto
  let ?s = "s\<lparr>srvDataCount := srvDataCount s + 1, srvDataBytes := srvDataBytes s + int (length p)\<rparr>"
  have "serverInbounds (ms @ rest) ?s =
      serverInbounds rest (?s\<lparr>srvDataCount := srvDataCount ?s + int j, srvDataBytes := srvDataBytes ?s + int j * int (length p)\<rparr>)"
    using Cons.IH Cons.prems j by simp
  then show ?case using m j by (simp add: serverInbound_data algebra_simps)
qed simp

section \<open>Properties\<close>

definition newServer :: benchServer where
  "newServer = \<lparr>srvDataCount = 0, srvDataBytes = 0, srvDone = False\<rparr>"

text \<open>
  The benchmark's count is right when messages arrive in order, and its completion signal is not a proof of
  it otherwise. The server that handles a client's messages in order counts them all, adds up their bytes
  and is done at once. But if the sentinel is handled when only \<open>k\<close> of the \<open>n\<close> data messages were, its
  handler holds up the read loop: it never sees another one, and after 30 seconds it signals completion with
  \<open>k\<close> messages counted, where the protocol promises to do so when all have been.
\<close>

theorem bench_server_completion:
  assumes "int n < 2 ^ 63" and "map carried ms = runClient n len"
    and "map carried early = replicate k (ContentBinary, clientPayload len)" and "k < n"
    and "carried sentinel = (ContentText, asBytes (sentinelPrefix @ decimal n))" and "sentinel = (now, clock, rest)"
  shows "serverInbounds ms newServer = Some \<lparr>srvDataCount = int n, srvDataBytes = int n * int len, srvDone = True\<rparr> \<and>
    serverInbounds (early @ [sentinel]) newServer =
      (if \<exists>t\<in>set clock. t > now + stallTime then Some \<lparr>srvDataCount = int k, srvDataBytes = int k * int len, srvDone = True\<rparr> else None)"
proof
  obtain dat snt where ms: "ms = dat @ [snt]" "map carried dat = replicate n (ContentBinary, clientPayload len)"
      "carried snt = (ContentText, asBytes (sentinelPrefix @ decimal n))"
    using assms(2) by (cases ms rule: rev_cases) (auto simp: runClient_def)
  obtain now' clock' where snt: "snt = (now', clock', ContentText, asBytes (sentinelPrefix @ decimal n))"
    using ms(3) by (cases snt) auto
  show "serverInbounds ms newServer = Some \<lparr>srvDataCount = int n, srvDataBytes = int n * int len, srvDone = True\<rparr>"
    using serverInbounds_data [OF ms(2), of "[snt]" newServer]
      serverInbound_sentinel [OF assms(1), of now' "newServer\<lparr>srvDataCount := int n, srvDataBytes := int n * int len\<rparr>" clock']
    by (simp add: ms(1) snt newServer_def clientPayload_def)
  have s: "sentinel = (now, clock, ContentText, asBytes (sentinelPrefix @ decimal n))" using assms(5,6) by (cases rest) auto
  let ?s = "newServer\<lparr>srvDataCount := int k, srvDataBytes := int k * int len\<rparr>"
  have "serverInbounds (early @ [sentinel]) newServer = serverInbounds [sentinel] ?s"
    using serverInbounds_data [OF assms(3), of "[sentinel]" newServer] by (simp add: newServer_def clientPayload_def)
  then show "serverInbounds (early @ [sentinel]) newServer =
      (if \<exists>t\<in>set clock. t > now + stallTime then Some \<lparr>srvDataCount = int k, srvDataBytes = int k * int len, srvDone = True\<rparr> else None)"
    using serverInbound_sentinel [OF assms(1), of now ?s clock] assms(4) by (simp add: s newServer_def)
qed

theorem bench_server_completion_witness:
  "serverInbounds [(0, [], ContentBinary, clientPayload 3), (5, [6, 40 * 10 ^ 9], ContentText, asBytes (sentinelPrefix @ decimal 2))] newServer =
     Some \<lparr>srvDataCount = 1, srvDataBytes = 3, srvDone = True\<rparr>"
  using bench_server_completion [of 2 "[(0, [], ContentBinary, clientPayload 3), (0, [], ContentBinary, clientPayload 3),
      (5, [], ContentText, asBytes (sentinelPrefix @ decimal 2))]" 3 "[(0, [], ContentBinary, clientPayload 3)]" 1
      "(5, [6, 40 * 10 ^ 9], ContentText, asBytes (sentinelPrefix @ decimal 2))" 5 "[6, 40 * 10 ^ 9]" "(ContentText, asBytes (sentinelPrefix @ decimal 2))"]
  by (simp add: runClient_def numeral_2_eq_2 stallTime_def)

end
