(* ===== verification/Parallel.thy ===== *)
theory Parallel
  imports File_Transfer "HOL-Library.Multiset"
begin

text \<open>
  Parallel transfer over several streams, \<^verbatim>\<open>pkg/transfer/parallel.go\<close>: splitting the file into ranges,
  \<open>SendParallel\<close> with one goroutine per range and \<open>ReceiveParallel\<close> with one reader per stream. A tagged
  message is a constructor with its body. The interleaving of the receivers' writes is an argument; when
  several streams fail, the error reported is that of the first of them in stream order.
\<close>

section \<open>Ranges\<close>

definition wrap64 :: "int \<Rightarrow> int" where
  "wrap64 x = sint (word_of_int x :: 64 word)"

definition splitRanges :: "int \<Rightarrow> nat \<Rightarrow> (int \<times> int) list" where
  "splitRanges tot n =
     map (\<lambda>i. let lo = wrap64 (int i * tot) sdiv int n;
                  hi = wrap64 (int (i + 1) * tot) sdiv int n;
                  hi = (if i = n - 1 then tot else hi)
              in (lo, hi)) [0..<n]"

section \<open>Messages\<close>

datatype pmsg =
    PHeader doc
  | PData bytes
  | PEOS
  | PTrailer doc
  | PDone
  | POther

fun docOf :: "Msg \<Rightarrow> doc" where
  "docOf (JsonMsg d) = d"
| "docOf _ = []"

section \<open>Sending\<close>

text \<open>\<^verbatim>\<open>File.ReadAt\<close> for \<open>n\<close> bytes of the file \<open>c\<close>.\<close>

definition ReadAt :: "bytes \<Rightarrow> nat \<Rightarrow> int \<Rightarrow> bytes result" where
  "ReadAt c n off =
     (if off < 0 then Inl (Errorf ''negative offset'')
      else if nat off + n \<le> length c then Inr (take n (drop (nat off) c)) else Inl IoEOF)"

text \<open>
  The goroutine of one range: the messages it wrote and how it ended. \<open>werr\<close> says which writes the
  stream refuses.
\<close>

function sendRange :: "(pmsg \<Rightarrow> error option) \<Rightarrow> bytes \<Rightarrow> int \<Rightarrow> int \<Rightarrow> pmsg list \<times> error option" where
  "sendRange werr c off hi =
     (if off < hi then
        let n = (if hi - off < int ChunkSize then hi - off else int ChunkSize) in
        (case ReadAt c (nat n) off of
           Inl e \<Rightarrow> ([], Some e)
         | Inr buf \<Rightarrow>
             let m = PData (encodeChunk off buf) in
             (case werr m of
                Some e \<Rightarrow> ([], Some e)
              | None \<Rightarrow> (case sendRange werr c (off + n) hi of (ms, e) \<Rightarrow> (m # ms, e))))
      else case werr PEOS of Some e \<Rightarrow> ([], Some e) | None \<Rightarrow> ([PEOS], None))"
  by pat_completeness auto
termination
  by (relation "measure (\<lambda>(werr, c, off, hi). nat (hi - off))") (auto simp: ChunkSize_def)

declare sendRange.simps [simp del]

text \<open>The source: each path's status, the temporary file and the tar writer, and the files' contents.\<close>

record psource =
  ps_stat :: "string \<Rightarrow> fileInfo result"
  ps_temp :: "error option"
  ps_tar :: "string list \<Rightarrow> bytes result"
  ps_file :: "string \<Rightarrow> bytes result"

definition prepareSource :: "psource \<Rightarrow> string list \<Rightarrow> (bytes result \<times> Header) result" where
  "prepareSource src paths =
     (let archive = (\<lambda>name.
            case ps_temp src of
              Some e \<Rightarrow> Inl e
            | None \<Rightarrow>
                (case ps_tar src paths of
                   Inl e \<Rightarrow> Inl e
                 | Inr bs \<Rightarrow> Inr (Inr bs, zero_Header\<lparr>h_Kind := ''archive'', h_Name := name\<rparr>)))
      in case paths of
           [] \<Rightarrow> Inl (Errorf ''transfer: no paths'')
         | [p] \<Rightarrow>
             (case ps_stat src p of
                Inl e \<Rightarrow> Inl e
              | Inr fi \<Rightarrow>
                  if fi_Regular fi
                  then Inr (ps_file src p, zero_Header\<lparr>h_Kind := ''file'', h_Name := Base p, h_Mode := fi_Mode fi\<rparr>)
                  else archive (Base (Clean p) @ ''.tar''))
         | _ \<Rightarrow> archive ''bundle.tar'')"

text \<open>
  \<open>SendParallel\<close> on streams whose refusals are \<open>werrs\<close>: what was written on each stream and the result.
  \<open>acks\<close> are the messages that arrive on the control stream afterwards and \<open>ackEnd\<close> what follows them:
  a read error, or \<open>None\<close> for the time-out.
\<close>

fun awaitPDone :: "pmsg list \<Rightarrow> error option \<Rightarrow> error option" where
  "awaitPDone [] (Some e) = Some (Wrap ''transfer: waiting for ack'' e)"
| "awaitPDone [] None = Some (Errorf ''transfer: peer did not acknowledge'')"
| "awaitPDone (m # ms) ae = (if m = PDone then None else awaitPDone ms ae)"

fun firstError :: "error option list \<Rightarrow> error option" where
  "firstError [] = None"
| "firstError (Some e # es) = Some e"
| "firstError (None # es) = firstError es"

definition SendParallel ::
  "(bytes \<Rightarrow> string) \<Rightarrow> (pmsg \<Rightarrow> error option) list \<Rightarrow> psource \<Rightarrow> string list \<Rightarrow> pmsg list \<Rightarrow> error option
     \<Rightarrow> pmsg list list \<times> Stats result" where
  "SendParallel sha256hex werrs src paths acks ackEnd =
     (let m = length werrs; nothing = replicate m [] in
      if m = 0 then ([], Inl (Errorf ''transfer: no streams''))
      else case prepareSource src paths of
             Inl e \<Rightarrow> (nothing, Inl e)
           | Inr (file, hdr0) \<Rightarrow>
               (case file of
                  Inl e \<Rightarrow> (nothing, Inl e)
                | Inr c \<Rightarrow>
                    let hdr = hdr0\<lparr>h_SHA256 := sha256hex c, h_Size := int (length c), h_Streams := int m\<rparr>;
                        h = PHeader (docOf (marshalHeader hdr)) in
                    (case (werrs ! 0) h of
                       Some e \<Rightarrow> (nothing, Inl e)
                     | None \<Rightarrow>
                         let outs = map2 (\<lambda>werr (lo, hi). sendRange werr c lo hi) werrs (splitRanges (int (length c)) m);
                             wrote = (h # fst (outs ! 0)) # tl (map fst outs);
                             tr = PTrailer (docOf (marshalTrailer \<lparr>t_SHA256 = sha256hex c, t_Total = int (length c)\<rparr>))
                         in (case firstError (map snd outs) of
                               Some e \<Rightarrow> (wrote, Inl e)
                             | None \<Rightarrow>
                                 (case (werrs ! 0) tr of
                                    Some e \<Rightarrow> (wrote, Inl e)
                                  | None \<Rightarrow>
                                      let wrote' = (hd wrote @ [tr]) # tl wrote in
                                      (case awaitPDone acks ackEnd of
                                         Some e \<Rightarrow> (wrote', Inl e)
                                       | None \<Rightarrow> (wrote', Inr \<lparr>st_Bytes = int (length c)\<rparr>)))))))"

section \<open>Receiving\<close>

text \<open>One reader: its writes, the trailer it stored and how it ended, over a stream that ends in \<open>rerr\<close>.\<close>

record readerOut =
  ro_writes :: "(nat \<times> bytes) list"
  ro_trailer :: "Trailer option"
  ro_err :: "error option"

fun readStream :: "recvEnv \<Rightarrow> bool \<Rightarrow> error \<Rightarrow> pmsg list \<Rightarrow> readerOut" where
  "readStream env control rerr [] = \<lparr>ro_writes = [], ro_trailer = None, ro_err = Some rerr\<rparr>"
| "readStream env control rerr (PData p # ms) =
     (case decodeChunk p of
        Inl e \<Rightarrow> \<lparr>ro_writes = [], ro_trailer = None, ro_err = Some e\<rparr>
      | Inr (off, data) \<Rightarrow>
          (case WriteAt env data off [] of
             Inl e \<Rightarrow> \<lparr>ro_writes = [], ro_trailer = None, ro_err = Some e\<rparr>
           | Inr _ \<Rightarrow> (let r = readStream env control rerr ms in r\<lparr>ro_writes := (nat off, data) # ro_writes r\<rparr>)))"
| "readStream env control rerr (PEOS # ms) =
     (if control then readStream env control rerr ms
      else \<lparr>ro_writes = [], ro_trailer = None, ro_err = None\<rparr>)"
| "readStream env control rerr (PTrailer d # ms) =
     (case unmarshalTrailer d of
        None \<Rightarrow> \<lparr>ro_writes = [], ro_trailer = None, ro_err = Some (Errorf ''json'')\<rparr>
      | Some tr \<Rightarrow> \<lparr>ro_writes = [], ro_trailer = Some tr, ro_err = None\<rparr>)"
| "readStream env control rerr (PHeader d # ms) = readStream env control rerr ms"
| "readStream env control rerr (PDone # ms) = readStream env control rerr ms"
| "readStream env control rerr (POther # ms) = readStream env control rerr ms"

text \<open>
  The rest of \<open>ReceiveParallel\<close> once all readers have ended: \<open>schedule\<close> interleaves their writes and
  \<open>pick\<close> chooses among the stored trailers. The last component of the result tells whether the
  acknowledgement was written on the control stream.
\<close>

definition joinReaders ::
  "(bytes \<Rightarrow> string) \<Rightarrow> recvEnv \<Rightarrow> (bytes \<Rightarrow> tarEntry list \<times> error) \<Rightarrow>
   ((nat \<times> bytes) list list \<Rightarrow> (nat \<times> bytes) list) \<Rightarrow> (Trailer list \<Rightarrow> Trailer) \<Rightarrow>
   Header \<Rightarrow> readerOut list \<Rightarrow> string \<Rightarrow> (string \<Rightarrow> bool) option \<Rightarrow> fs \<Rightarrow> fs \<times> (string \<times> Stats) result \<times> bool" where
  "joinReaders sha256hex env untar schedule pick hdr outs destDir overwrite f =
     (case firstError (map ro_err outs) of
        Some e \<Rightarrow> (f, Inl e, False)
      | None \<Rightarrow>
          let content = writes (schedule (map ro_writes outs)) (replicate (nat (h_Size hdr)) 0);
              tr = pick (List.map_filter ro_trailer outs) in
          (case (re_sync env, re_hash env) of
             (Some e, _) \<Rightarrow> (f, Inl e, False)
           | (None, Some e) \<Rightarrow> (f, Inl e, False)
           | (None, None) \<Rightarrow>
               if sha256hex content \<noteq> t_SHA256 tr \<or> int (length content) \<noteq> t_Total tr
               then (f, Inl (Errorf ''transfer: integrity check failed''), False)
               else (case finalize env untar overwrite destDir hdr content f of
                       (f', Inl e) \<Rightarrow> (f', Inl e, False)
                     | (f', Inr saved) \<Rightarrow> (f', Inr (saved, \<lparr>st_Bytes = int (length content)\<rparr>), True))))"

text \<open>\<open>ReceiveParallel\<close> on the messages of its streams; \<open>None\<close> is the panic of an empty stream list.\<close>

definition ReceiveParallel ::
  "(bytes \<Rightarrow> string) \<Rightarrow> recvEnv \<Rightarrow> (bytes \<Rightarrow> tarEntry list \<times> error) \<Rightarrow>
   ((nat \<times> bytes) list list \<Rightarrow> (nat \<times> bytes) list) \<Rightarrow> (Trailer list \<Rightarrow> Trailer) \<Rightarrow> error \<Rightarrow>
   pmsg list list \<Rightarrow> string \<Rightarrow> (string \<Rightarrow> bool) option \<Rightarrow> fs \<Rightarrow> (fs \<times> (string \<times> Stats) result \<times> bool) option" where
  "ReceiveParallel sha256hex env untar schedule pick rerr streams destDir overwrite f =
     (case streams of
        [] \<Rightarrow> None
      | [] # _ \<Rightarrow> Some (f, Inl rerr, False)
      | (PHeader d # ctl) # others \<Rightarrow>
          (case unmarshalHeader d of
             None \<Rightarrow> Some (f, Inl (Wrap ''transfer: bad header'' (Errorf ''json'')), False)
           | Some hdr \<Rightarrow>
               (case re_create env of
                  Some e \<Rightarrow> Some (f, Inl e, False)
                | None \<Rightarrow>
                    if h_Size hdr < 0 then Some (f, Inl (Errorf ''invalid argument''), False)
                    else Some (joinReaders sha256hex env untar schedule pick hdr
                           (readStream env True rerr ctl # map (readStream env False rerr) others)
                           destDir overwrite f)))
      | _ \<Rightarrow> Some (f, Inl (Errorf ''transfer: expected header''), False))"

section \<open>Splitting\<close>

lemma wrap64_id [simp]: "- (2 ^ 63) \<le> x \<Longrightarrow> x < 2 ^ 63 \<Longrightarrow> wrap64 x = x"
  by (simp add: wrap64_def signed_of_int signed_take_bit_int_eq_self_iff)

lemma wrap64_mult [simp]:
  assumes "0 \<le> tot" "int n * tot < 2 ^ 63" "i \<le> n"
  shows "wrap64 (int i * tot) = int i * tot"
proof -
  have "int i * tot \<le> int n * tot" using assms(1,3) by (intro mult_right_mono) simp_all
  moreover have "0 \<le> int i * tot" using assms(1) by simp
  ultimately show ?thesis using assms(2) by (intro wrap64_id) linarith+
qed

lemma length_splitRanges [simp]: "length (splitRanges tot n) = n"
  by (simp add: splitRanges_def)

text \<open>Without overflow, range \<open>i\<close> goes from \<open>i * tot / n\<close> to \<open>(i + 1) * tot / n\<close>.\<close>

lemma splitRanges_nth:
  assumes "0 \<le> tot" "int n * tot < 2 ^ 63" "i < n"
  shows "splitRanges tot n ! i = (int i * tot div int n, int (i + 1) * tot div int n)"
proof -
  have sd: "x sdiv int n = x div int n" if "0 \<le> x" for x
    using that by (auto simp: signed_divide_int_def sgn_if)
  have "wrap64 (int i * tot) = int i * tot" "wrap64 (int (i + 1) * tot) = int (i + 1) * tot"
    using wrap64_mult [OF assms(1,2), of i] wrap64_mult [OF assms(1,2), of "i + 1"] assms(3) by simp_all
  moreover have "int (i + 1) * tot div int n = tot" if "i = n - 1" using that assms(3) by simp
  moreover have "0 \<le> int i * tot" "0 \<le> int (i + 1) * tot" using assms(1) by simp_all
  ultimately show ?thesis
    using assms(3) unfolding splitRanges_def Let_def by (simp del: of_nat_add add: sd)
qed

lemma splitRanges_cover:
  assumes "0 \<le> tot" "int n * tot < 2 ^ 63" "0 \<le> x" "x < tot" "0 < n"
  shows "\<exists>i<n. fst (splitRanges tot n ! i) \<le> x \<and> x < snd (splitRanges tot n ! i)"
proof -
  let ?P = "\<lambda>k. x < int k * tot div int n"
  have n: "?P n" using assms by simp
  define k where "k = (LEAST k. ?P k)"
  have k: "?P k" "k \<le> n" unfolding k_def by (rule LeastI [of ?P, OF n], rule Least_le [of ?P, OF n])
  then have "k \<noteq> 0" using assms(3) by (intro notI) simp
  then obtain i where i: "k = Suc i" by (cases k) auto
  then have "\<not> ?P i" using not_less_Least [of i ?P] k_def by simp
  then show ?thesis using k i splitRanges_nth [OF assms(1,2), of i] by (intro exI [of _ i]) simp
qed

lemma div_less_two:
  assumes "0 < (n :: int)" "r < 2 * n"
  shows "r div n < 2"
proof (rule ccontr)
  assume "\<not> r div n < 2"
  then have "n * 2 \<le> n * (r div n)" using assms(1) by (intro mult_left_mono) simp_all
  moreover have "n * (r div n) + r mod n = r" by simp
  ultimately show False using assms pos_mod_sign [of n r] by linarith
qed

lemma div_mult_mono: "0 \<le> (tot :: int) \<Longrightarrow> i \<le> j \<Longrightarrow> 0 < n \<Longrightarrow> int i * tot div int n \<le> int j * tot div int n"
  by (intro zdiv_mono1 mult_right_mono) simp_all

text \<open>
  The ranges partition the file. If the number of streams times the size fits in 64 bits, the ranges
  start at 0, follow each other without gap or overlap, end at the size, and each is as long as an
  equal share, rounded down or up.
\<close>

theorem split_ranges_partition:
  assumes "0 < n" "0 \<le> tot" "int n * tot < 2 ^ 63"
  shows "length (splitRanges tot n) = n \<and> fst (hd (splitRanges tot n)) = 0 \<and> snd (last (splitRanges tot n)) = tot \<and>
    (\<forall>i. Suc i < n \<longrightarrow> snd (splitRanges tot n ! i) = fst (splitRanges tot n ! Suc i)) \<and>
    (\<forall>(lo, hi)\<in>set (splitRanges tot n). tot div int n \<le> hi - lo \<and> hi - lo \<le> tot div int n + 1)"
proof (intro conjI)
  let ?s = "splitRanges tot n"
  note nth = splitRanges_nth [OF assms(2,3)]
  have ne: "?s \<noteq> []" using assms(1) length_splitRanges [of tot n] by fastforce
  show "length ?s = n" by simp
  show "fst (hd ?s) = 0" using nth [of 0] assms(1) by (simp add: hd_conv_nth [OF ne])
  show "snd (last ?s) = tot" using nth [of "n - 1"] assms(1) by (simp add: last_conv_nth [OF ne])
  show "\<forall>i. Suc i < n \<longrightarrow> snd (?s ! i) = fst (?s ! Suc i)" by (simp add: nth)
  have share: "tot div int n \<le> (int (i + 1) * tot) div int n - int i * tot div int n \<and>
      (int (i + 1) * tot) div int n - int i * tot div int n \<le> tot div int n + 1" for i
  proof -
    have e: "int (i + 1) * tot = int i * tot + tot" by (simp add: algebra_simps)
    have "int (i + 1) * tot div int n =
        int i * tot div int n + tot div int n + ((int i * tot) mod int n + tot mod int n) div int n"
      unfolding e by (rule div_add1_eq)
    moreover have "0 \<le> ((int i * tot) mod int n + tot mod int n) div int n"
      using assms(1) by (intro pos_imp_zdiv_nonneg_iff [THEN iffD2]) (simp_all add: add_nonneg_nonneg)
    moreover have "((int i * tot) mod int n + tot mod int n) div int n < 2"
    proof (rule div_less_two)
      show n: "0 < int n" using assms(1) by simp
      show "(int i * tot) mod int n + tot mod int n < 2 * int n"
        using pos_mod_bound [OF n, of "int i * tot"] pos_mod_bound [OF n, of tot] by linarith
    qed
    ultimately show ?thesis by linarith
  qed
  show "\<forall>(lo, hi)\<in>set ?s. tot div int n \<le> hi - lo \<and> hi - lo \<le> tot div int n + 1"
    using nth share by (fastforce simp: in_set_conv_nth)
qed

theorem split_ranges_partition_witness: "fst (hd (splitRanges 10 3)) = 0 \<and> snd (last (splitRanges 10 3)) = 10"
  using split_ranges_partition [of 3 10] by simp

section \<open>Streams that take and deliver everything\<close>

definition dataMsg :: "nat \<times> bytes \<Rightarrow> pmsg" where
  "dataMsg w = PData (encodeChunk (int (fst w)) (snd w))"

text \<open>What one goroutine writes: pieces of its range that cover it, then the end-of-stream message.\<close>

lemma sendRange_pieces:
  "0 \<le> off \<Longrightarrow> hi \<le> int (length c) \<Longrightarrow>
   \<exists>ws. sendRange (\<lambda>_. None) c off hi = (map dataMsg ws @ [PEOS], None) \<and> (\<forall>w\<in>set ws. piece c w) \<and>
        (\<forall>i. off \<le> int i \<and> int i < hi \<longrightarrow> (\<exists>w\<in>set ws. covers w i))"
proof (induction "\<lambda>_ :: pmsg. None :: error option" c off hi rule: sendRange.induct)
  case (1 c off hi)
  show ?case
  proof (cases "off < hi")
    case False
    then show ?thesis by (subst sendRange.simps) (auto intro!: exI [of _ "[]"])
  next
    case True
    define n where "n = (if hi - off < int ChunkSize then hi - off else int ChunkSize)"
    define buf where "buf = take (nat n) (drop (nat off) c)"
    have n: "0 < n" "off + n \<le> hi" using True by (auto simp: n_def ChunkSize_def)
    then have len: "length buf = nat n" "nat off + nat n \<le> length c" using "1.prems" by (auto simp: buf_def)
    then have rd: "ReadAt c (nat n) off = Inr buf" using "1.prems" by (simp add: ReadAt_def buf_def)
    obtain ws where ws: "sendRange (\<lambda>_. None) c (off + n) hi = (map dataMsg ws @ [PEOS], None)"
      "\<forall>w\<in>set ws. piece c w" "\<And>i. off + n \<le> int i \<and> int i < hi \<Longrightarrow> \<exists>w\<in>set ws. covers w i"
      using "1.hyps" [OF True n_def rd refl refl] "1.prems" n by fastforce
    have "sendRange (\<lambda>_. None) c off hi = (map dataMsg ((nat off, buf) # ws) @ [PEOS], None)"
      using True rd ws(1) "1.prems" n_def by (subst sendRange.simps) (simp add: Let_def dataMsg_def)
    moreover have "piece c (nat off, buf)" using len by (simp add: piece_def buf_def)
    moreover have "\<exists>w\<in>set ((nat off, buf) # ws). covers w i" if "off \<le> int i \<and> int i < hi" for i
      using that ws(3) [of i] len(1) by (cases "int i < off + n") (auto simp: covers_def)
    ultimately show ?thesis using ws(2) by (intro exI [of _ "(nat off, buf) # ws"]) auto
  qed
qed

lemma readStream_pieces:
  assumes "env_ok env" "\<forall>w\<in>set ws. int (fst w) < 2 ^ 63"
  shows "readStream env ctl rerr (map dataMsg ws @ ms) =
    (readStream env ctl rerr ms)\<lparr>ro_writes := ws @ ro_writes (readStream env ctl rerr ms)\<rparr>"
  using assms(2)
proof (induction ws)
  case Nil
  then show ?case by simp
next
  case (Cons w ws)
  then show ?case
    using assms(1) by (cases w) (simp add: dataMsg_def decode_encodeChunk WriteAt_def env_ok_def Let_def)
qed

lemma firstError_none [simp]: "(\<And>x. x \<in> set xs \<Longrightarrow> e x = None) \<Longrightarrow> firstError (map e xs) = None"
  by (induction xs) simp_all

text \<open>The streams of a transfer of the contents \<open>c\<close>: their pieces are all of the file.\<close>

lemma ranges_pieces:
  assumes "0 < m" "int m * int (length c) < 2 ^ 63"
  shows "\<exists>wss. length wss = m \<and>
    map2 (\<lambda>werr (lo, hi). sendRange werr c lo hi) (replicate m (\<lambda>_. None)) (splitRanges (int (length c)) m) =
      map (\<lambda>ws. (map dataMsg ws @ [PEOS], None)) wss \<and>
    (\<forall>w\<in>set (concat wss). piece c w) \<and> (\<forall>i<length c. \<exists>w\<in>set (concat wss). covers w i)"
proof -
  let ?s = "splitRanges (int (length c)) m"
  have in_file: "0 \<le> fst (?s ! k) \<and> snd (?s ! k) \<le> int (length c)" if "k < m" for k
    using splitRanges_nth [OF _ assms(2) that] that div_mult_mono [of "int (length c)" "k + 1" m m]
    by (simp add: div_int_pos_iff)
  have "\<forall>k<m. \<exists>ws. sendRange (\<lambda>_. None) c (fst (?s ! k)) (snd (?s ! k)) = (map dataMsg ws @ [PEOS], None) \<and>
      (\<forall>w\<in>set ws. piece c w) \<and>
      (\<forall>i. fst (?s ! k) \<le> int i \<and> int i < snd (?s ! k) \<longrightarrow> (\<exists>w\<in>set ws. covers w i))"
    using sendRange_pieces in_file by blast
  then obtain wss where wss: "length wss = m" "\<And>k. k < m \<Longrightarrow>
      sendRange (\<lambda>_. None) c (fst (?s ! k)) (snd (?s ! k)) = (map dataMsg (wss ! k) @ [PEOS], None) \<and>
      (\<forall>w\<in>set (wss ! k). piece c w) \<and>
      (\<forall>i. fst (?s ! k) \<le> int i \<and> int i < snd (?s ! k) \<longrightarrow> (\<exists>w\<in>set (wss ! k). covers w i))"
    unfolding Skolem_list_nth by auto
  have "\<exists>w\<in>set (concat wss). covers w i" if i: "i < length c" for i
  proof -
    obtain k where "k < m" "fst (?s ! k) \<le> int i" "int i < snd (?s ! k)"
      using splitRanges_cover [OF _ assms(2), of "int i"] i assms(1) by auto
    then show ?thesis using wss(1) wss(2) [of k] by (auto intro!: bexI [of _ "wss ! k"])
  qed
  moreover have "\<forall>w\<in>set (concat wss). piece c w"
    using wss by (force simp: in_set_conv_nth [of _ wss])
  moreover have "map2 (\<lambda>werr (lo, hi). sendRange werr c lo hi) (replicate m (\<lambda>_. None)) ?s =
      map (\<lambda>ws. (map dataMsg ws @ [PEOS], None)) wss"
    using wss by (intro nth_equalityI) (auto simp: case_prod_beta)
  ultimately show ?thesis using wss(1) by blast
qed

definition controlOf :: "Header \<Rightarrow> Trailer \<Rightarrow> pmsg list \<Rightarrow> pmsg list" where
  "controlOf h tr ms = PHeader (docOf (marshalHeader h)) # ms @ [PTrailer (docOf (marshalTrailer tr))]"

lemma docOf_marshal:
  "marshalHeader h = JsonMsg (docOf (marshalHeader h))" "marshalTrailer t = JsonMsg (docOf (marshalTrailer t))"
  by (simp_all add: marshalHeader_def marshalTrailer_def)

lemma SendParallel_streams:
  assumes "0 < m" "int m * int (length c) < 2 ^ 63" "prepareSource src paths = Inr (Inr c, hdr)"
  shows "\<exists>ws wss. length wss = m - 1 \<and>
    SendParallel sha256hex (replicate m (\<lambda>_. None)) src paths (PDone # acks) ae =
      (controlOf (hdr\<lparr>h_SHA256 := sha256hex c, h_Size := int (length c), h_Streams := int m\<rparr>)
         \<lparr>t_SHA256 = sha256hex c, t_Total = int (length c)\<rparr> (map dataMsg ws @ [PEOS])
       # map (\<lambda>ws. map dataMsg ws @ [PEOS]) wss, Inr \<lparr>st_Bytes = int (length c)\<rparr>) \<and>
    (\<forall>w\<in>set (concat (ws # wss)). piece c w) \<and> (\<forall>i<length c. \<exists>w\<in>set (concat (ws # wss)). covers w i)"
proof -
  obtain all where all: "length all = m"
    "map2 (\<lambda>werr (lo, hi). sendRange werr c lo hi) (replicate m (\<lambda>_. None)) (splitRanges (int (length c)) m) =
      map (\<lambda>ws. (map dataMsg ws @ [PEOS], None)) all"
    "\<forall>w\<in>set (concat all). piece c w" "\<forall>i<length c. \<exists>w\<in>set (concat all). covers w i"
    using ranges_pieces [OF assms(1,2)] by blast
  then obtain ws wss where w: "all = ws # wss" using assms(1) by (cases all) auto
  have "SendParallel sha256hex (replicate m (\<lambda>_. None)) src paths (PDone # acks) ae =
      (controlOf (hdr\<lparr>h_SHA256 := sha256hex c, h_Size := int (length c), h_Streams := int m\<rparr>)
         \<lparr>t_SHA256 = sha256hex c, t_Total = int (length c)\<rparr> (map dataMsg ws @ [PEOS])
       # map (\<lambda>ws. map dataMsg ws @ [PEOS]) wss, Inr \<lparr>st_Bytes = int (length c)\<rparr>)"
    using assms(1,3) all(2) w by (simp add: SendParallel_def Let_def controlOf_def o_def)
  with all w show ?thesis by (intro exI [of _ ws] exI [of _ wss]) auto
qed

lemma ReceiveParallel_content:
  assumes "env_ok env" "unmarshalHeader (docOf (marshalHeader h)) = Some h" "h_Size h = int (length c)"
    and "tr = \<lparr>t_SHA256 = sha256hex c, t_Total = int (length c)\<rparr>" "int (length c) < 2 ^ 63"
    and "\<forall>w\<in>set (concat (ws # wss)). piece c w" "\<forall>i<length c. \<exists>w\<in>set (concat (ws # wss)). covers w i"
    and "\<And>ls. mset (schedule ls) = mset (concat ls)" "\<And>t. pick [t] = t"
    and "finalize env untar overwrite destDir h c f = (f', Inr saved)"
  shows "ReceiveParallel sha256hex env untar schedule pick rerr
      (controlOf h tr (map dataMsg ws @ [PEOS]) # map (\<lambda>ws. map dataMsg ws @ [PEOS]) wss) destDir overwrite f =
    Some (f', Inr (saved, \<lparr>st_Bytes = int (length c)\<rparr>), True)"
proof -
  have b: "int (fst w) < 2 ^ 63" if "w \<in> set (concat (ws # wss))" for w using that assms(5,6) piece_bound by blast
  have "unmarshalTrailer (docOf (marshalTrailer tr)) = Some tr"
    using assms(4,5) by (intro unmarshal_marshalTrailer [OF docOf_marshal(2)]) simp_all
  then have ctl: "readStream env True rerr (map dataMsg ws @ [PEOS, PTrailer (docOf (marshalTrailer tr))]) =
      \<lparr>ro_writes = ws, ro_trailer = Some tr, ro_err = None\<rparr>"
    using readStream_pieces [OF assms(1), of ws] b by simp
  have oth: "map (readStream env False rerr) (map (\<lambda>ws. map dataMsg ws @ [PEOS]) wss) =
      map (\<lambda>ws. \<lparr>ro_writes = ws, ro_trailer = None, ro_err = None\<rparr>) wss"
    unfolding map_map
  proof (rule map_cong [OF refl])
    fix x
    assume "x \<in> set wss"
    then have "\<forall>w\<in>set x. int (fst w) < 2 ^ 63" using b by (metis UN_I concat.simps(2) set_append set_concat Un_iff)
    then show "(readStream env False rerr \<circ> (\<lambda>ws. map dataMsg ws @ [PEOS])) x = \<lparr>ro_writes = x, ro_trailer = None, ro_err = None\<rparr>"
      using readStream_pieces [OF assms(1), of x False rerr "[PEOS]"] by simp
  qed
  have "set (schedule (ws # wss)) = set (concat (ws # wss))" using assms(8) by (metis set_mset_mset)
  then have "writes (schedule (ws # wss)) (replicate (length c) 0) = c"
    using assms(6,7) by (intro writes_complete) simp_all
  moreover have "List.map_filter ro_trailer (map (\<lambda>ws. \<lparr>ro_writes = ws, ro_trailer = None, ro_err = None\<rparr>) wss) = []"
    by (induction wss) (simp_all add: List.map_filter_simps)
  ultimately have "joinReaders sha256hex env untar schedule pick h
      (\<lparr>ro_writes = ws, ro_trailer = Some tr, ro_err = None\<rparr> # map (\<lambda>ws. \<lparr>ro_writes = ws, ro_trailer = None, ro_err = None\<rparr>) wss)
      destDir overwrite f = (f', Inr (saved, \<lparr>st_Bytes = int (length c)\<rparr>), True)"
    using assms(1,3,4,9,10)
    by (simp add: joinReaders_def env_ok_def Let_def o_def List.map_filter_simps)
  then show ?thesis
    using assms(1-3) unfolding ctl [symmetric] oth [symmetric]
    by (simp add: ReceiveParallel_def controlOf_def env_ok_def)
qed

lemma parallel_transfer:
  assumes "0 < m" "int m < 2 ^ 63" "int m * int (length c) < 2 ^ 63"
    and "ps_stat src p = Inr \<lparr>fi_Regular = True, fi_Size = sz, fi_Mode = mode\<rparr>" "mode < 2 ^ 32" "ps_file src p = Inr c"
    and "env_ok env" "\<And>ls. mset (schedule ls) = mset (concat ls)" "\<And>t. pick [t] = t"
    and "f (placed overwrite destDir (Base p) f) \<noteq> Some DirNode"
    and "SendParallel sha256hex (replicate m (\<lambda>_. None)) src [p] (PDone # acks) ae = (wrote, r)"
  shows "r = Inr \<lparr>st_Bytes = int (length c)\<rparr> \<and> length wrote = m \<and>
    ReceiveParallel sha256hex env untar schedule pick rerr wrote destDir overwrite f =
      Some (f(placed overwrite destDir (Base p) f \<mapsto> FileNode c (if mode \<noteq> 0 then mode else 384)),
            Inr (placed overwrite destDir (Base p) f, \<lparr>st_Bytes = int (length c)\<rparr>), True)"
proof -
  let ?hdr = "zero_Header\<lparr>h_Kind := ''file'', h_Name := Base p, h_Mode := mode\<rparr>"
  let ?h = "?hdr\<lparr>h_SHA256 := sha256hex c, h_Size := int (length c), h_Streams := int m\<rparr>"
  have "prepareSource src [p] = Inr (Inr c, ?hdr)" using assms(4,6) by (simp add: prepareSource_def)
  from SendParallel_streams [OF assms(1,3) this, of sha256hex acks ae] obtain ws wss where w:
    "length wss = m - 1" "r = Inr \<lparr>st_Bytes = int (length c)\<rparr>"
    "wrote = controlOf ?h \<lparr>t_SHA256 = sha256hex c, t_Total = int (length c)\<rparr> (map dataMsg ws @ [PEOS])
       # map (\<lambda>ws. map dataMsg ws @ [PEOS]) wss"
    "\<forall>w\<in>set (concat (ws # wss)). piece c w" "\<forall>i<length c. \<exists>w\<in>set (concat (ws # wss)). covers w i"
    using assms(11) by auto
  have "int 1 * int (length c) \<le> int m * int (length c)" using assms(1) by (intro mult_right_mono) simp_all
  then have len: "int (length c) < 2 ^ 63" using assms(3) by simp
  have "unmarshalHeader (docOf (marshalHeader ?h)) = Some ?h"
    using len assms(2,5) by (intro unmarshal_marshalHeader [OF docOf_marshal(1)]) (simp_all add: zero_Header_def)
  moreover have "finalize env untar overwrite destDir ?h c f =
      (f(placed overwrite destDir (Base p) f \<mapsto> FileNode c (if mode \<noteq> 0 then mode else 384)), Inr (placed overwrite destDir (Base p) f))"
    using finalize_file [of env ?h f overwrite destDir untar c] assms(7,10) by (simp add: env_ok_def)
  ultimately show ?thesis
    using w assms(1) ReceiveParallel_content [OF assms(7) _ _ refl len w(4,5) assms(8,9)] by simp
qed

text \<open>
  A file sent over several streams arrives unchanged. When \<open>SendParallel\<close> reads one regular file and no
  stream refuses a message, it reports the size, and \<open>ReceiveParallel\<close>, given what was written on the
  streams, saves exactly the contents, reports the size and acknowledges, however the goroutines'
  writes are interleaved.
\<close>

theorem parallel_roundtrip:
  assumes "0 < m" "int m < 2 ^ 63" "int m * int (length c) < 2 ^ 63"
    and "ps_stat src p = Inr \<lparr>fi_Regular = True, fi_Size = sz, fi_Mode = mode\<rparr>" "mode < 2 ^ 32" "ps_file src p = Inr c"
    and "env_ok env" "\<And>ls. mset (schedule ls) = mset (concat ls)" "\<And>t. pick [t] = t"
    and "f (placed overwrite destDir (Base p) f) \<noteq> Some DirNode"
    and "SendParallel sha256hex (replicate m (\<lambda>_. None)) src [p] (PDone # acks) ae = (wrote, r)"
  shows "r = Inr \<lparr>st_Bytes = int (length c)\<rparr> \<and> length wrote = m \<and>
    ReceiveParallel sha256hex env untar schedule pick rerr wrote destDir overwrite f =
      Some (f(placed overwrite destDir (Base p) f \<mapsto> FileNode c (if mode \<noteq> 0 then mode else 384)),
            Inr (placed overwrite destDir (Base p) f, \<lparr>st_Bytes = int (length c)\<rparr>), True)"
  by (rule parallel_transfer [where schedule = schedule and pick = pick and f = f, OF assms])

definition examplePSource :: "bytes \<Rightarrow> psource" where
  "examplePSource c = \<lparr>ps_stat = (\<lambda>_. Inr \<lparr>fi_Regular = True, fi_Size = int (length c), fi_Mode = 420\<rparr>),
     ps_temp = None, ps_tar = (\<lambda>_. Inr []), ps_file = (\<lambda>_. Inr c)\<rparr>"

theorem parallel_roundtrip_witness:
  "\<exists>wrote f'. SendParallel (\<lambda>_. ''h'') (replicate 2 (\<lambda>_. None)) (examplePSource [1, 2, 3]) [''d/a.txt''] [PDone] None =
      (wrote, Inr \<lparr>st_Bytes = 3\<rparr>) \<and>
    ReceiveParallel (\<lambda>_. ''h'') exampleEnv (\<lambda>_. ([], IoEOF)) (\<lambda>ls. concat (rev ls)) hd IoEOF wrote ''/t'' None Map.empty =
      Some (f', Inr (''/t/a.txt'', \<lparr>st_Bytes = 3\<rparr>), True) \<and>
    f' ''/t/a.txt'' = Some (FileNode [1, 2, 3] 420)"
proof -
  obtain wrote r where w: "SendParallel (\<lambda>_. ''h'') (replicate 2 (\<lambda>_. None)) (examplePSource [1, 2, 3]) [''d/a.txt''] (PDone # []) None =
    (wrote, r)" by force
  have pl: "placed None ''/t'' (Base ''d/a.txt'') Map.empty = ''/t/a.txt''" by code_simp
  have "mset (concat (rev ls)) = mset (concat ls)" for ls :: "(nat \<times> bytes) list list" by (induction ls) simp_all
  then have "r = Inr \<lparr>st_Bytes = int (length [1, 2, 3 :: byte])\<rparr> \<and> length wrote = 2 \<and>
    ReceiveParallel (\<lambda>_. ''h'') exampleEnv (\<lambda>_. ([], IoEOF)) (\<lambda>ls. concat (rev ls)) hd IoEOF wrote ''/t'' None Map.empty =
      Some (Map.empty(placed None ''/t'' (Base ''d/a.txt'') Map.empty \<mapsto> FileNode [1, 2, 3] (if (420 :: nat) \<noteq> 0 then 420 else 384)),
        Inr (placed None ''/t'' (Base ''d/a.txt'') Map.empty, \<lparr>st_Bytes = int (length [1, 2, 3 :: byte])\<rparr>), True)"
    by (intro parallel_roundtrip [OF _ _ _ _ _ _ env_ok_example _ _ _ w]) (simp_all add: examplePSource_def)
  with w show ?thesis unfolding pl by auto
qed

end
