(* ===== verification/Relay.thy ===== *)
theory Relay
  imports Text_Lines
begin

text \<open>
  The relay, \<^verbatim>\<open>cmd/relay/main.go\<close>: the control phase of a connection, pairing peers by session identifier
  under the lock, and the decision between a direct link and the byte bridge. The goroutines of the
  peers are steps of a transition relation, one per critical section or channel operation. The JSON
  codec is an argument.
\<close>

section \<open>Data\<close>

definition sessionIDMaxBytes :: nat where "sessionIDMaxBytes = 256"

record Info =
  PublicAddr :: string
  LocalAddrs :: "string list"

definition START :: string where "START = ''START''"
definition PUNCH_OK :: string where "PUNCH_OK = ''PUNCH_OK''"
definition PUNCH_FAIL :: string where "PUNCH_FAIL = ''PUNCH_FAIL''"
definition DIRECT :: string where "DIRECT = ''DIRECT''"
definition BRIDGE :: string where "BRIDGE = ''BRIDGE''"

section \<open>The control phase\<close>

text \<open>
  The two lines of a new connection, read through a reader that delivers at most
  \<open>sessionIDMaxBytes + 1\<close> bytes. \<open>inp\<close> is what the peer sends and \<open>e\<close> the error after it; the result
  has the session, the peer's endpoints and how many bytes the limited reader will still deliver.
\<close>

definition readControl ::
  "(string \<Rightarrow> string list option) \<Rightarrow> string \<Rightarrow> string \<Rightarrow> error \<Rightarrow> (string \<times> Info \<times> nat) result" where
  "readControl unmarshal remoteAddr inp e =
     (let limited = take (sessionIDMaxBytes + 1) inp in
      case ReadString limited e of
        (Inl err, _) \<Rightarrow> Inl err
      | (Inr line, r1) \<Rightarrow>
          (case ReadString r1 e of
             (Inl err, _) \<Rightarrow> Inl err
           | (Inr infoLine, _) \<Rightarrow>
               (case unmarshal (TrimRight infoLine) of
                  None \<Rightarrow> Inl (Errorf ''json'')
                | Some las \<Rightarrow>
                    Inr (TrimRight line, \<lparr>PublicAddr = remoteAddr, LocalAddrs = las\<rparr>,
                         sessionIDMaxBytes + 1 - length line - length infoLine))))"

section \<open>Coordination\<close>

text \<open>
  Reading a punch report: \<open>inp\<close> arrives before the deadline; with a budget only that many bytes are
  delivered. The rest is what is left for the bridge.
\<close>

definition readResult :: "nat option \<Rightarrow> string \<Rightarrow> bool \<times> string" where
  "readResult budget inp =
     (let n = (case budget of Some n \<Rightarrow> min n (length inp) | None \<Rightarrow> length inp) in
      case ReadString (take n inp) IoEOF of
        (Inl _, _) \<Rightarrow> (False, drop n inp)
      | (Inr line, r) \<Rightarrow> (TrimRight line = PUNCH_OK, r @ drop n inp))"

text \<open>The bridge copies each side's stream to the other.\<close>

datatype verdict = Aborted | WentDirect | Bridged string string

definition bridge2 :: "string \<Rightarrow> string \<Rightarrow> verdict" where
  "bridge2 rA rB = Bridged rB rA"

text \<open>
  \<open>coordinate\<close>: what is written to either peer and how the session ends. \<open>wa\<close> and \<open>wb\<close> are the errors
  of writing the endpoints; \<open>budget\<close> is left of the first peer's limited reader, the second peer gets a
  fresh reader; \<open>inA\<close>, \<open>inB\<close> arrive before the report deadline, \<open>moreA\<close>, \<open>moreB\<close> after it. The bridge
  is first what goes to the first peer, then what goes to the second.
\<close>

definition coordinate ::
  "(Info \<Rightarrow> string) \<Rightarrow> Info \<Rightarrow> Info \<Rightarrow> error option \<Rightarrow> error option \<Rightarrow> nat \<Rightarrow> string \<Rightarrow> string \<Rightarrow> string \<Rightarrow> string
     \<Rightarrow> string \<times> string \<times> verdict" where
  "coordinate marshal first second wa wb budget inA moreA inB moreB =
     (let bJSON = marshal second; aJSON = marshal first in
      if wa \<noteq> None then ([], [], Aborted)
      else if wb \<noteq> None then (bJSON @ [nl], [], Aborted)
      else
        let toA = bJSON @ [nl] @ START @ [nl]; toB = aJSON @ [nl] @ START @ [nl];
            (okA, rA) = readResult (Some budget) inA;
            (okB, rB) = readResult None inB in
        if okA \<and> okB then (toA @ DIRECT @ [nl], toB @ DIRECT @ [nl], WentDirect)
        else (toA @ BRIDGE @ [nl], toB @ BRIDGE @ [nl], bridge2 (rA @ moreA) (rB @ moreB)))"

text \<open>Everything a peer receives from the relay: the control lines and, over the bridge, its partner's bytes.\<close>

definition deliveredA :: "string \<times> string \<times> verdict \<Rightarrow> string" where
  "deliveredA out = (case out of (a, b, v) \<Rightarrow> a @ (case v of Bridged x _ \<Rightarrow> x | _ \<Rightarrow> []))"

definition deliveredB :: "string \<times> string \<times> verdict \<Rightarrow> string" where
  "deliveredB out = (case out of (a, b, v) \<Rightarrow> b @ (case v of Bridged _ y \<Rightarrow> y | _ \<Rightarrow> []))"

section \<open>Pairing\<close>

text \<open>
  What the goroutine of a peer is doing: it has not yet read its two lines, waits as the first of a
  session, has taken the first peer out of the table and is about to hand itself over, has handed
  itself over and ended, has seen its wait time out, coordinates with a partner, or has closed its
  connection.
\<close>

datatype phase =
    Reading
  | Waiting string
  | Handing nat string
  | Handed nat string
  | TimedOut string
  | Coordinating nat string
  | Closed

record relay =
  pending :: "string \<Rightarrow> nat option"
  phase :: "nat \<Rightarrow> phase"
  matched :: "nat \<Rightarrow> nat option"

definition relayInit :: relay where
  "relayInit = \<lparr>pending = (\<lambda>_. None), phase = (\<lambda>_. Reading), matched = (\<lambda>_. None)\<rparr>"

inductive relay_step :: "relay \<Rightarrow> relay \<Rightarrow> bool" where
  reject: "phase s p = Reading \<Longrightarrow> relay_step s (s\<lparr>phase := (phase s)(p := Closed)\<rparr>)"
| wait: "phase s p = Reading \<Longrightarrow> pending s sid = None \<Longrightarrow>
    relay_step s (s\<lparr>pending := (pending s)(sid := Some p), phase := (phase s)(p := Waiting sid)\<rparr>)"
| take_first: "phase s p = Reading \<Longrightarrow> pending s sid = Some q \<Longrightarrow>
    relay_step s (s\<lparr>pending := (pending s)(sid := None), phase := (phase s)(p := Handing q sid)\<rparr>)"
| hand_over: "phase s p = Handing q sid \<Longrightarrow> matched s q = None \<Longrightarrow>
    relay_step s (s\<lparr>matched := (matched s)(q := Some p), phase := (phase s)(p := Handed q sid)\<rparr>)"
| partner: "phase s q = Waiting sid \<Longrightarrow> matched s q = Some p \<Longrightarrow>
    relay_step s (s\<lparr>matched := (matched s)(q := None), phase := (phase s)(q := Coordinating p sid)\<rparr>)"
| timer: "phase s q = Waiting sid \<Longrightarrow> relay_step s (s\<lparr>phase := (phase s)(q := TimedOut sid)\<rparr>)"
| expire: "phase s q = TimedOut sid \<Longrightarrow>
    relay_step s (s\<lparr>pending := (pending s)(sid := None), phase := (phase s)(q := Closed)\<rparr>)"

text \<open>The invariant: who is in the table waits for it, and at most one peer is on its way to each waiting peer.\<close>

fun target :: "phase \<Rightarrow> (nat \<times> string) option" where
  "target (Handing q sid) = Some (q, sid)"
| "target (Handed q sid) = Some (q, sid)"
| "target _ = None"

definition relay_inv :: "relay \<Rightarrow> bool" where
  "relay_inv s \<longleftrightarrow>
     (\<forall>sid q. pending s sid = Some q \<longrightarrow>
        (phase s q = Waiting sid \<or> phase s q = TimedOut sid) \<and> (\<forall>p sid'. target (phase s p) \<noteq> Some (q, sid'))) \<and>
     (\<forall>p q sid. target (phase s p) = Some (q, sid) \<longrightarrow>
        phase s q \<in> {Waiting sid, TimedOut sid, Coordinating p sid, Closed} \<and>
        (\<forall>p' sid'. target (phase s p') = Some (q, sid') \<longrightarrow> p = p')) \<and>
     (\<forall>p q sid. phase s q = Coordinating p sid \<longrightarrow> phase s p = Handed q sid) \<and>
     (\<forall>p q. matched s q = Some p \<longrightarrow> (\<exists>sid. phase s p = Handed q sid))"

section \<open>The invariant is kept\<close>

lemma relay_invD:
  assumes "relay_inv s"
  shows "pending s sid = Some q \<Longrightarrow> phase s q = Waiting sid \<or> phase s q = TimedOut sid"
    and "pending s sid = Some q \<Longrightarrow> target (phase s p) \<noteq> Some (q, sid')"
    and "target (phase s p) = Some (q, sid) \<Longrightarrow>
      phase s q = Waiting sid \<or> phase s q = TimedOut sid \<or> phase s q = Coordinating p sid \<or> phase s q = Closed"
    and "target (phase s p) = Some (q, sid) \<Longrightarrow> target (phase s p') = Some (q, sid') \<Longrightarrow> p = p'"
    and "phase s q = Coordinating p sid \<Longrightarrow> phase s p = Handed q sid"
    and "matched s q = Some p \<Longrightarrow> \<exists>sid. phase s p = Handed q sid"
  using assms unfolding relay_inv_def by blast+

lemma target_phase [simp]:
  "target ph = Some (q, sid) \<longleftrightarrow> ph = Handing q sid \<or> ph = Handed q sid"
  by (cases ph) auto

lemma relay_invI:
  assumes "\<And>sid q. pending s sid = Some q \<Longrightarrow> phase s q = Waiting sid \<or> phase s q = TimedOut sid"
    and "\<And>sid q p sid'. pending s sid = Some q \<Longrightarrow> target (phase s p) = Some (q, sid') \<Longrightarrow> False"
    and "\<And>p q sid. target (phase s p) = Some (q, sid) \<Longrightarrow>
      phase s q = Waiting sid \<or> phase s q = TimedOut sid \<or> phase s q = Coordinating p sid \<or> phase s q = Closed"
    and "\<And>p p' q sid sid'. target (phase s p) = Some (q, sid) \<Longrightarrow> target (phase s p') = Some (q, sid') \<Longrightarrow> p = p'"
    and "\<And>p q sid. phase s q = Coordinating p sid \<Longrightarrow> phase s p = Handed q sid"
    and "\<And>p q. matched s q = Some p \<Longrightarrow> \<exists>sid. phase s p = Handed q sid"
  shows "relay_inv s"
  unfolding relay_inv_def using assms by blast

text \<open>The invariant read as rules on the phases.\<close>

lemma relay_inv_rules:
  assumes "relay_inv s"
  shows "pending s sid = Some q \<Longrightarrow> phase s q = Waiting sid \<or> phase s q = TimedOut sid"
    and "pending s sid = Some q \<Longrightarrow> phase s p = Handing q sid' \<Longrightarrow> False"
    and "pending s sid = Some q \<Longrightarrow> phase s p = Handed q sid' \<Longrightarrow> False"
    and "phase s p = Handing q sid \<Longrightarrow> phase s q = Waiting sid \<or> phase s q = TimedOut sid \<or> phase s q = Coordinating p sid \<or> phase s q = Closed"
    and "phase s p = Handed q sid \<Longrightarrow> phase s q = Waiting sid \<or> phase s q = TimedOut sid \<or> phase s q = Coordinating p sid \<or> phase s q = Closed"
    and "phase s p = Handing q sid \<Longrightarrow> phase s p' = Handing q sid' \<Longrightarrow> p = p'"
    and "phase s p = Handing q sid \<Longrightarrow> phase s p' = Handed q sid' \<Longrightarrow> False"
    and "phase s p = Handed q sid \<Longrightarrow> phase s p' = Handed q sid' \<Longrightarrow> p = p'"
    and "phase s q = Coordinating p sid \<Longrightarrow> phase s p = Handed q sid"
    and "matched s q = Some p \<Longrightarrow> \<exists>sid. phase s p = Handed q sid"
    and "pending s sid = Some q \<Longrightarrow> pending s sid' = Some q \<Longrightarrow> sid = sid'"
    and "phase s p = Handing p sid \<Longrightarrow> False"
proof goal_cases
  case 12
  then show ?case using relay_invD(3) [OF assms, of p p sid] by simp
next
  case 11
  then show ?case using relay_invD(1) [OF assms, of sid q] relay_invD(1) [OF assms, of sid' q] by auto
next
  case 7
  then have "p = p'" using relay_invD(4) [OF assms, of p q sid p' sid'] by simp
  then show ?case using 7 by simp
qed (use relay_invD [OF assms, unfolded target_phase] in blast)+

lemma relay_step_inv: "relay_step s s' \<Longrightarrow> relay_inv s \<Longrightarrow> relay_inv s'"
proof (induction rule: relay_step.induct)
  case (reject s p)
  note I = relay_inv_rules [OF reject.prems]
  show ?case
    by (rule relay_invI) (use reject.hyps in \<open>auto split: if_splits dest: I\<close>)
next
  case (wait s p sid)
  note I = relay_inv_rules [OF wait.prems]
  show ?case
    by (rule relay_invI) (use wait.hyps in \<open>auto split: if_splits dest: I\<close>)
next
  case (take_first s p sid q)
  note I = relay_inv_rules [OF take_first.prems]
  show ?case
    by (rule relay_invI) (use take_first.hyps in \<open>auto split: if_splits dest: I\<close>)
next
  case (hand_over s p q sid)
  note I = relay_inv_rules [OF hand_over.prems]
  show ?case
    by (rule relay_invI) (use hand_over.hyps in \<open>auto split: if_splits dest: I\<close>)
next
  case (partner s q sid p)
  note I = relay_inv_rules [OF partner.prems]
  have same: "x = sid" if "phase s r = Handing q x \<or> phase s r = Handed q x" for r x
    using that partner.hyps(1) I(4,5) [of r q x] by auto
  then have p: "phase s p = Handed q sid" using I(10) [OF partner.hyps(2)] by blast
  then have only: "r = p" if "phase s r = Handing q x \<or> phase s r = Handed q x" for r x
    using that p I(7) [of r q x p sid] I(8) [of r q x p sid] by auto
  show ?case
    by (rule relay_invI) (use partner.hyps p same only in \<open>auto split: if_splits dest: I\<close>)
next
  case (timer s q sid)
  note I = relay_inv_rules [OF timer.prems]
  show ?case
    by (rule relay_invI) (use timer.hyps in \<open>auto split: if_splits dest: I\<close>)
next
  case (expire s q sid)
  note I = relay_inv_rules [OF expire.prems]
  show ?case
    by (rule relay_invI) (use expire.hyps in \<open>auto split: if_splits dest: I\<close>)
qed

lemma relay_reachable_inv: "relay_step\<^sup>*\<^sup>* relayInit s \<Longrightarrow> relay_inv s"
proof (induction rule: rtranclp_induct)
  case base
  then show ?case by (simp add: relay_inv_def relayInit_def)
next
  case (step s s')
  then show ?case using relay_step_inv by blast
qed

text \<open>
  C34: The relay pairs correctly. In every state the goroutines can reach, a peer that coordinates has a
  different partner of the same session that handed itself over to it, no two peers coordinate with the
  same partner, and handing over never blocks, because the channel of the first peer is empty.
\<close>

theorem relay_pairs:
  assumes "relay_step\<^sup>*\<^sup>* relayInit s"
  shows "(\<forall>q p sid. phase s q = Coordinating p sid \<longrightarrow>
      p \<noteq> q \<and> phase s p = Handed q sid \<and> (\<forall>q' sid'. phase s q' = Coordinating p sid' \<longrightarrow> q' = q)) \<and>
    (\<forall>p q sid. phase s p = Handing q sid \<longrightarrow> matched s q = None)"
proof (intro conjI allI impI)
  note I = relay_inv_rules [OF relay_reachable_inv [OF assms]]
  fix q p sid
  assume c: "phase s q = Coordinating p sid"
  then show h: "phase s p = Handed q sid" using I(9) by blast
  then show "p \<noteq> q" using c by auto
  show "q' = q" if "phase s q' = Coordinating p sid'" for q' sid' using I(9) [OF that] h by simp
next
  note I = relay_inv_rules [OF relay_reachable_inv [OF assms]]
  fix p q sid
  assume h: "phase s p = Handing q sid"
  show "matched s q = None"
  proof (cases "matched s q")
    case (Some p')
    then obtain x where x: "phase s p' = Handed q x" using I(10) by blast
    then show ?thesis using I(7) h x by blast
  qed
qed

text \<open>A session \<open>sid\<close> in which peer 1 takes peer 0 out of the table, and what can follow.\<close>

lemma relay_run_match:
  assumes "phase s 0 = Waiting sid \<or> phase s 0 = TimedOut sid" "phase s 1 = Reading" "pending s sid = Some 0" "matched s 0 = None"
  shows "\<exists>s'. relay_step\<^sup>*\<^sup>* s s' \<and> pending s' = (pending s)(sid := None) \<and> matched s' = (matched s)(0 := Some 1) \<and>
    phase s' = (phase s)(1 := Handed 0 sid)"
proof -
  let ?s1 = "s\<lparr>pending := (pending s)(sid := None), phase := (phase s)(1 := Handing 0 sid)\<rparr>"
  let ?s2 = "?s1\<lparr>matched := (matched ?s1)(0 := Some 1), phase := (phase ?s1)(1 := Handed 0 sid)\<rparr>"
  have "relay_step s ?s1" using assms(2,3) by (rule relay_step.take_first)
  moreover have "relay_step ?s1 ?s2" using assms(4) by (intro relay_step.hand_over) simp_all
  ultimately have "relay_step\<^sup>*\<^sup>* s ?s2" by (meson converse_rtranclp_into_rtranclp r_into_rtranclp)
  then show ?thesis by (intro exI [of _ ?s2]) simp
qed

lemma relay_run_wait:
  "\<exists>s. relay_step\<^sup>*\<^sup>* relayInit s \<and> pending s = (\<lambda>_. None)(sid := Some 0) \<and> matched s = (\<lambda>_. None) \<and>
     phase s = (\<lambda>_. Reading)(0 := Waiting sid)"
proof -
  let ?s = "relayInit\<lparr>pending := (pending relayInit)(sid := Some 0), phase := (phase relayInit)(0 := Waiting sid)\<rparr>"
  have "relay_step relayInit ?s" by (intro relay_step.wait) (simp_all add: relayInit_def)
  then show ?thesis by (intro exI [of _ ?s] conjI r_into_rtranclp) (simp_all add: relayInit_def)
qed

theorem relay_pairs_witness:
  "\<exists>s. relay_step\<^sup>*\<^sup>* relayInit s \<and> phase s 0 = Coordinating 1 ''x'' \<and> phase s 1 = Handed 0 ''x''"
proof -
  obtain s where s: "relay_step\<^sup>*\<^sup>* relayInit s" "pending s = (\<lambda>_. None)(''x'' := Some 0)" "matched s = (\<lambda>_. None)"
    "phase s = (\<lambda>_. Reading)(0 := Waiting ''x'')" using relay_run_wait [of "''x''"] by blast
  obtain s' where s': "relay_step\<^sup>*\<^sup>* s s'" "matched s' = (matched s)(0 := Some 1)" "phase s' = (phase s)(1 := Handed 0 ''x'')"
    using relay_run_match [of s "''x''"] s by auto
  let ?t = "s'\<lparr>matched := (matched s')(0 := None), phase := (phase s')(0 := Coordinating 1 ''x'')\<rparr>"
  have "relay_step s' ?t" using s s' by (intro relay_step.partner) simp_all
  then have t: "relay_step\<^sup>*\<^sup>* relayInit ?t" using s(1) s'(1) by (meson rtranclp.rtrancl_into_rtrancl rtranclp_trans)
  have c: "phase ?t 0 = Coordinating 1 ''x''" by simp
  then have "phase ?t 1 = Handed 0 ''x''" using relay_pairs [OF t] by blast
  with t c show ?thesis by blast
qed

inductive_cases relay_stepE: "relay_step s s'"

lemma relay_ended_stays:
  assumes "relay_step\<^sup>*\<^sup>* s s'" "phase s p = Handed q sid \<or> phase s p = Closed"
  shows "phase s' p = phase s p"
  using assms(1)
proof (induction rule: rtranclp_induct)
  case (step t t')
  then show ?case using assms(2) by (elim relay_stepE) auto
qed simp


section \<open>Reading and deciding\<close>

lemma isLine_words [simp]: "isLine START" "isLine PUNCH_OK" "isLine PUNCH_FAIL" "isLine DIRECT" "isLine BRIDGE"
  by (simp_all add: isLine_def START_def PUNCH_OK_def PUNCH_FAIL_def DIRECT_def BRIDGE_def nl_def cr_def)

lemma isLine_nl [simp]: "isLine l \<Longrightarrow> nl \<notin> set l"
  by (simp add: isLine_def)

lemma readControl_lines:
  assumes "isLine sid" "isLine info" "unmarshal info = Some las" "length sid + length info + 2 \<le> sessionIDMaxBytes + 1"
  shows "readControl unmarshal addr (sid @ [nl] @ info @ [nl] @ rest) e =
    Inr (sid, \<lparr>PublicAddr = addr, LocalAddrs = las\<rparr>, sessionIDMaxBytes + 1 - (length sid + length info + 2))"
proof -
  have eq: "sid @ [nl] @ info @ [nl] @ rest = (sid @ nl # info @ [nl]) @ rest" by simp
  have "take (sessionIDMaxBytes + 1) (sid @ [nl] @ info @ [nl] @ rest) =
      sid @ nl # info @ nl # take (sessionIDMaxBytes + 1 - (length sid + length info + 2)) rest"
    unfolding eq take_append using assms(4) by simp
  then show ?thesis using assms by (simp add: readControl_def Let_def)
qed

lemma readResult_line:
  assumes "isLine l" "case budget of None \<Rightarrow> True | Some n \<Rightarrow> length l < n"
  shows "readResult budget (l @ nl # rest) = (l = PUNCH_OK, rest)"
proof -
  define n where "n = (case budget of Some n \<Rightarrow> min n (length (l @ nl # rest)) | None \<Rightarrow> length (l @ nl # rest))"
  have n: "length l < n" using assms(2) by (auto simp: n_def split: option.splits)
  have "take n (l @ nl # rest) = l @ nl # take (n - Suc (length l)) rest" using n by (simp add: take_Cons' Suc_diff_Suc)
  moreover have "drop n (l @ nl # rest) = drop (n - Suc (length l)) rest" using n by (simp add: drop_Cons' Suc_diff_Suc)
  ultimately show ?thesis
    using assms(1) unfolding readResult_def n_def [symmetric] Let_def by simp
qed

lemma coordinate_reports:
  assumes "isLine la" "isLine lb" "length la < budget"
  shows "coordinate marshal first second None None budget (la @ nl # dataA) moreA (lb @ nl # dataB) moreB =
    (let verdict = (if la = PUNCH_OK \<and> lb = PUNCH_OK then DIRECT else BRIDGE) in
     (marshal second @ [nl] @ START @ [nl] @ verdict @ [nl], marshal first @ [nl] @ START @ [nl] @ verdict @ [nl],
      if la = PUNCH_OK \<and> lb = PUNCH_OK then WentDirect else Bridged (dataB @ moreB) (dataA @ moreA)))"
  using readResult_line [of la "Some budget"] readResult_line [of lb None] assms
  by (simp add: coordinate_def bridge2_def Let_def)

text \<open>
  The byte limit meant for the session line covers the whole control phase of a peer. A peer whose two
  lines are longer than 257 bytes together, for example because of many local addresses, is refused with
  the end-of-file error of the limited reader; and if the two lines of the first peer leave no room for
  the nine bytes of its report, its \<^verbatim>\<open>PUNCH_OK\<close> is not seen and the session is bridged although both
  peers have a direct link.
\<close>

theorem relay_control_cap:
  assumes "isLine sid" "isLine info" "length sid + length info + 2 > sessionIDMaxBytes + 1" "budget < 9"
  shows "readControl unmarshal addr (sid @ [nl] @ info @ [nl]) IoEOF = Inl IoEOF \<and>
    (\<exists>a b x y. coordinate marshal first second None None budget (PUNCH_OK @ [nl]) moreA (PUNCH_OK @ [nl]) moreB =
       (a @ BRIDGE @ [nl], b @ BRIDGE @ [nl], Bridged x y))"
proof
  show "readControl unmarshal addr (sid @ [nl] @ info @ [nl]) IoEOF = Inl IoEOF"
  proof (cases "length sid < sessionIDMaxBytes + 1")
    case True
    then have "take (sessionIDMaxBytes + 1) (sid @ [nl] @ info @ [nl]) =
        sid @ nl # take (sessionIDMaxBytes + 1 - Suc (length sid)) (info @ [nl])"
      by (simp add: take_Cons')
    moreover have "ReadString (take (sessionIDMaxBytes + 1 - Suc (length sid)) (info @ [nl])) IoEOF = (Inl IoEOF, [])"
      using assms(2,3) by (intro ReadString_take_short) auto
    ultimately show ?thesis using assms(1) by (simp add: readControl_def Let_def)
  next
    case False
    then have "ReadString (take (sessionIDMaxBytes + 1) (sid @ [nl] @ info @ [nl])) IoEOF = (Inl IoEOF, [])"
      using ReadString_take_short [of sid "sessionIDMaxBytes + 1" "info @ [nl]"] assms(1) by simp
    then show ?thesis by (simp add: readControl_def Let_def)
  qed
  have "length PUNCH_OK = 8" by (simp add: PUNCH_OK_def)
  then have "ReadString (take budget (PUNCH_OK @ [nl])) IoEOF = (Inl IoEOF, [])"
    using ReadString_take_short [of PUNCH_OK budget "[]"] assms(4) by simp
  then have "fst (readResult (Some budget) (PUNCH_OK @ [nl])) = False"
    using assms(4) \<open>length PUNCH_OK = 8\<close> by (simp add: readResult_def Let_def min_def)
  then show "\<exists>a b x y. coordinate marshal first second None None budget (PUNCH_OK @ [nl]) moreA (PUNCH_OK @ [nl]) moreB =
       (a @ BRIDGE @ [nl], b @ BRIDGE @ [nl], Bridged x y)"
    by (auto simp: coordinate_def bridge2_def Let_def split: prod.splits)
qed

theorem relay_control_cap_witness:
  "readControl (\<lambda>_. Some []) ''h:1'' (''s'' @ [nl] @ replicate 300 CHR ''x'' @ [nl]) IoEOF = Inl IoEOF"
  using relay_control_cap [of "''s''" "replicate 300 CHR ''x''" 8 "\<lambda>_. Some []" "''h:1''"]
  by (auto simp: isLine_def nl_def cr_def sessionIDMaxBytes_def)

end
