(* ===== verification/Holepunch.thy ===== *)
theory Holepunch
  imports Relay "HOL-Library.Multiset"
begin

text \<open>
  Hole punching, \<^verbatim>\<open>pkg/holepunch/holepunch.go\<close>: the addresses to dial and the race between the listener and
  the diallers. Which attempts succeed and in which order they report are arguments; sockets and their
  options are not modelled.
\<close>

definition DefaultTimeout :: int where "DefaultTimeout = 5000000000"

definition addTarget :: "(string \<Rightarrow> bool) \<times> string list \<Rightarrow> string \<Rightarrow> (string \<Rightarrow> bool) \<times> string list" where
  "addTarget st a = (case st of (seen, out) \<Rightarrow>
     if a \<noteq> [] \<and> \<not> seen a then (seen(a := True), out @ [a]) else (seen, out))"

definition buildTargets :: "Info \<Rightarrow> string list" where
  "buildTargets remote = (let (seen, out) = addTarget (\<lambda>_. False, []) (PublicAddr remote) in
     snd (foldl addTarget (seen, out) (LocalAddrs remote)))"

text \<open>
  Collecting \<open>total\<close> results: the first success is returned and the connections of the remaining results
  are closed; otherwise the first error is returned.
\<close>

fun collectPunch :: "'c result list \<Rightarrow> error option \<Rightarrow> 'c result \<times> 'c list" where
  "collectPunch [] firstErr =
     (case firstErr of Some e \<Rightarrow> (Inl e, []) | None \<Rightarrow> (Inl (Errorf ''holepunch: all attempts failed''), []))"
| "collectPunch (Inr c # rs) firstErr = (Inr c, List.map_filter (case_sum (\<lambda>_. None) Some) rs)"
| "collectPunch (Inl e # rs) firstErr = collectPunch rs (if firstErr = None then Some e else firstErr)"

text \<open>The time the attempts get, and the attempt; \<open>arrival\<close> orders the results as they come in.\<close>

definition punchBudget :: "int \<Rightarrow> int" where
  "punchBudget timeout = (if timeout \<le> 0 then DefaultTimeout else timeout)"

definition AttemptPunch ::
  "('c result list \<Rightarrow> 'c result list) \<Rightarrow> (int \<Rightarrow> 'c result) \<Rightarrow> (int \<Rightarrow> string \<Rightarrow> 'c result) \<Rightarrow> Info \<Rightarrow> int \<Rightarrow> 'c result \<times> 'c list" where
  "AttemptPunch arrival listen dial remote timeout =
     (let t = punchBudget timeout in
      collectPunch (arrival (listen t # map (dial t) (buildTargets remote))) None)"

section \<open>Targets\<close>

lemma foldl_addTarget:
  assumes "\<And>a. seen a \<longleftrightarrow> a \<in> set out" "distinct out" "[] \<notin> set out"
  shows "\<exists>rest. snd (foldl addTarget (seen, out) as) = out @ rest \<and> distinct (out @ rest) \<and>
    set (out @ rest) = set out \<union> (set as - {[]})"
  using assms
proof (induction as arbitrary: seen out)
  case Nil
  then show ?case by simp
next
  case (Cons a as)
  show ?case
  proof (cases "a \<noteq> [] \<and> a \<notin> set out")
    case True
    then have st: "addTarget (seen, out) a = (seen(a := True), out @ [a])" using Cons.prems(1) by (simp add: addTarget_def)
    have "\<exists>rest. snd (foldl addTarget (seen(a := True), out @ [a]) as) = (out @ [a]) @ rest \<and> distinct ((out @ [a]) @ rest) \<and>
        set ((out @ [a]) @ rest) = set (out @ [a]) \<union> (set as - {[]})"
      by (rule Cons.IH) (use True Cons.prems in auto)
    then obtain rest where "snd (foldl addTarget (seen(a := True), out @ [a]) as) = (out @ [a]) @ rest"
      "distinct ((out @ [a]) @ rest)" "set ((out @ [a]) @ rest) = set (out @ [a]) \<union> (set as - {[]})" by blast
    then show ?thesis using True st by (intro exI [of _ "a # rest"]) auto
  next
    case False
    then have "addTarget (seen, out) a = (seen, out)" using Cons.prems(1) by (auto simp: addTarget_def)
    then show ?thesis using Cons.IH [OF Cons.prems] False by auto
  qed
qed

text \<open>Each address once, none empty, the public one first.\<close>

lemma buildTargets_spec:
  "distinct (buildTargets r)" "set (buildTargets r) = insert (PublicAddr r) (set (LocalAddrs r)) - {[]}"
  "PublicAddr r \<noteq> [] \<Longrightarrow> hd (buildTargets r) = PublicAddr r"
proof -
  let ?a = "PublicAddr r"
  obtain seen out where st: "addTarget (\<lambda>_. False, []) ?a = (seen, out)" by force
  then have o: "out = (if ?a = [] then [] else [?a])" "\<And>x. seen x \<longleftrightarrow> x \<in> set out"
    by (auto simp: addTarget_def split: if_splits)
  have "\<exists>rest. snd (foldl addTarget (seen, out) (LocalAddrs r)) = out @ rest \<and> distinct (out @ rest) \<and>
      set (out @ rest) = set out \<union> (set (LocalAddrs r) - {[]})"
    by (rule foldl_addTarget) (use o in auto)
  then obtain rest where r: "buildTargets r = out @ rest" "distinct (out @ rest)"
    "set (out @ rest) = set out \<union> (set (LocalAddrs r) - {[]})"
    unfolding buildTargets_def st by auto
  show "distinct (buildTargets r)" using r by simp
  show "set (buildTargets r) = insert ?a (set (LocalAddrs r)) - {[]}"
    unfolding r(1) r(3) using o(1) by auto
  show "?a \<noteq> [] \<Longrightarrow> hd (buildTargets r) = ?a" using r(1) o(1) by simp
qed

section \<open>The race\<close>

definition successes :: "'c result list \<Rightarrow> 'c list" where
  "successes rs = List.map_filter (case_sum (\<lambda>_. None) Some) rs"

lemma successes_simps [simp]:
  "successes [] = []" "successes (Inr c # rs) = c # successes rs" "successes (Inl e # rs) = successes rs"
  by (simp_all add: successes_def List.map_filter_simps)

lemma mset_successes: "mset (successes rs) = image_mset projr (filter_mset (Not \<circ> isl) (mset rs))"
proof (induction rs)
  case (Cons r rs)
  then show ?case by (cases r) simp_all
qed simp

lemma collectPunch_spec:
  "collectPunch rs fe = (r, closed) \<Longrightarrow>
   (case r of Inl _ \<Rightarrow> successes rs = [] \<and> closed = [] | Inr c \<Rightarrow> successes rs = c # closed)"
proof (induction rs fe rule: collectPunch.induct)
  case (2 c rs fe)
  then show ?case by (auto simp: successes_def)
qed (auto split: option.splits if_splits sum.splits)

text \<open>
  No connection is lost in the race. Whatever attempts succeed and in whatever order they report,
  the connections that were made are exactly the one that is returned together with those that are
  closed; an error is returned only if no attempt succeeded. The attempts are the listener and one dial
  per distinct non-empty address of the peer.
\<close>

theorem attempt_punch_no_leak:
  assumes "\<And>rs. mset (arrival rs) = mset rs" and "AttemptPunch arrival listen dial remote timeout = (r, closed)"
    and "t = (if timeout \<le> 0 then 5000000000 else timeout)"
  shows "(case r of Inl _ \<Rightarrow> {#} | Inr c \<Rightarrow> {#c#}) + mset closed =
      image_mset projr (filter_mset (Not \<circ> isl) (add_mset (listen t) (image_mset (dial t)
        (mset_set (insert (PublicAddr remote) (set (LocalAddrs remote)) - {[]}))))) \<and>
    ((\<exists>e. r = Inl e) \<longleftrightarrow> (\<forall>a\<in>insert (PublicAddr remote) (set (LocalAddrs remote)) - {[]}. isl (dial t a)) \<and> isl (listen t))"
proof -
  let ?rs = "listen t # map (dial t) (buildTargets remote)"
  let ?A = "insert (PublicAddr remote) (set (LocalAddrs remote)) - {[]}"
  have "collectPunch (arrival ?rs) None = (r, closed)"
    using assms(2,3) by (auto simp: AttemptPunch_def punchBudget_def DefaultTimeout_def Let_def split: if_splits)
  from collectPunch_spec [OF this]
  have c: "mset (successes (arrival ?rs)) = (case r of Inl _ \<Rightarrow> {#} | Inr c \<Rightarrow> {#c#}) + mset closed"
    and e: "(\<exists>e. r = Inl e) \<longleftrightarrow> mset (successes (arrival ?rs)) = {#}"
    by (auto split: sum.splits)
  have "mset (buildTargets remote) = mset_set ?A"
    using buildTargets_spec(1,2) [of remote] by (metis mset_set_set)
  then have m: "mset (arrival ?rs) = add_mset (listen t) (image_mset (dial t) (mset_set ?A))"
    using assms(1) by (simp add: mset_map)
  have "(\<exists>e. r = Inl e) \<longleftrightarrow> (\<forall>a\<in>?A. isl (dial t a)) \<and> isl (listen t)"
    unfolding e mset_successes m by (auto simp: filter_mset_eq_mempty_iff)
  with c show ?thesis unfolding mset_successes m by simp
qed

theorem attempt_punch_no_leak_witness:
  "AttemptPunch rev (\<lambda>_. Inr (0 :: nat)) (\<lambda>_ a. Inr (length a)) \<lparr>PublicAddr = ''p'', LocalAddrs = [''p'', ''lo'']\<rparr> 0 = (Inr 2, [1, 0])
    \<and> {#2#} + mset [1, 0] = {#0, 1, 2 :: nat#}"
proof -
  let ?r = "\<lparr>PublicAddr = ''p'', LocalAddrs = [''p'', ''lo'']\<rparr>"
  have a: "AttemptPunch rev (\<lambda>_. Inr (0 :: nat)) (\<lambda>_ a. Inr (length a)) ?r 0 = (Inr 2, [1, 0])" by code_simp
  have "insert ''p'' {''p'', ''lo''} - {[]} = {''p'', ''lo''}" by auto
  then show ?thesis
    using attempt_punch_no_leak [OF _ a refl] a by (simp add: add_mset_commute)
qed

end
