(* ===== verification/Rendezvous.thy ===== *)
theory Rendezvous
  imports Holepunch
begin

text \<open>
  The client half of the relay protocol, \<^verbatim>\<open>pkg/rendezvous/rendezvous.go\<close>, and its composition with the
  relay. What the operating system answers, the JSON codecs and the outcome of the punch are arguments;
  a direct connection is what it delivers.
\<close>

section \<open>Definitions\<close>

definition punchMagic :: bytes where "punchMagic = [80, 50, 80, 80, 85, 78, 67, 72]"

record Options =
  SessionID :: string
  useTLS :: bool
  PunchTimeout :: int

text \<open>A punched connection: whether it takes writes, what it delivers and the error after that.\<close>

record dconn =
  dc_write :: "error option"
  dc_in :: bytes
  dc_end :: error

definition validatePunch :: "dconn \<Rightarrow> (dconn \<times> error option)" where
  "validatePunch c =
     (case dc_write c of
        Some err \<Rightarrow> (c, Some err)
      | None \<Rightarrow>
          (case ReadFull (length punchMagic) (dc_in c) (dc_end c) of
             (Inl err, rest) \<Rightarrow> (c\<lparr>dc_in := rest\<rparr>, Some err)
           | (Inr buf, rest) \<Rightarrow>
               (c\<lparr>dc_in := rest\<rparr>,
                if buf \<noteq> punchMagic then Some (Errorf ''rendezvous: punch validation magic mismatch'') else None)))"

text \<open>The addresses a peer announces.\<close>

datatype ifaceAddr = OtherAddr | IPNet bool "string option"

fun localAddrsLoop :: "nat \<Rightarrow> ifaceAddr list \<Rightarrow> string list" where
  "localAddrsLoop port [] = [''127.0.0.1:'' @ decimal port]"
| "localAddrsLoop port (OtherAddr # as) = localAddrsLoop port as"
| "localAddrsLoop port (IPNet loopback ip4 # as) =
     (if loopback then localAddrsLoop port as
      else case ip4 of
             None \<Rightarrow> localAddrsLoop port as
           | Some ip \<Rightarrow> (ip @ '':'' @ decimal port) # localAddrsLoop port as)"

definition localAddrs :: "ifaceAddr list result \<Rightarrow> nat \<Rightarrow> string list" where
  "localAddrs ifaces port = (case ifaces of Inl _ \<Rightarrow> [] | Inr as \<Rightarrow> localAddrsLoop port as)"

record dialEnv =
  de_port :: "nat result"
  de_relay :: "error option"
  de_tls :: "error option"
  de_ifaces :: "ifaceAddr list result"
  de_send :: "error option"
  de_force :: bool
  de_punch :: "Info \<Rightarrow> nat \<Rightarrow> int \<Rightarrow> dconn result"

datatype rconn = NilConn | DirectConn dconn | BridgeConn string

record dialResult =
  dr_Conn :: rconn
  dr_Partner :: Info
  dr_UsedFallback :: bool

text \<open>The punch attempt with its validation: the direct connection, if there is one.\<close>

definition punched :: "dialEnv \<Rightarrow> Info \<Rightarrow> nat \<Rightarrow> int \<Rightarrow> dconn option" where
  "punched env partner port timeout =
     (if de_force env then None
      else case de_punch env partner port timeout of
             Inl _ \<Rightarrow> None
           | Inr c \<Rightarrow> (case validatePunch c of (c', None) \<Rightarrow> Some c' | (_, Some _) \<Rightarrow> None))"

text \<open>
  \<open>Dial\<close>: what is sent to the relay and the result, when the relay delivers \<open>inp\<close> and then the error \<open>e\<close>.
\<close>

definition Dial ::
  "(string list \<Rightarrow> string) \<Rightarrow> (string \<Rightarrow> Info option) \<Rightarrow> dialEnv \<Rightarrow> Options \<Rightarrow> string \<Rightarrow> error \<Rightarrow> string \<times> dialResult result" where
  "Dial marshal unmarshal env opt inp e =
     (let timeout = (if PunchTimeout opt \<le> 0 then DefaultTimeout else PunchTimeout opt) in
      case de_port env of
        Inl err \<Rightarrow> ([], Inl (Wrap ''pick local port'' err))
      | Inr localPort \<Rightarrow>
      (case de_relay env of
        Some err \<Rightarrow> ([], Inl (Wrap ''dial relay'' err))
      | None \<Rightarrow>
      (case (if useTLS opt then de_tls env else None) of
        Some err \<Rightarrow> ([], Inl (Wrap ''relay tls handshake'' err))
      | None \<Rightarrow>
      (case de_send env of
        Some err \<Rightarrow> ([], Inl (Wrap ''send rendezvous lines'' err))
      | None \<Rightarrow>
        let lines = SessionID opt @ [nl] @ marshal (localAddrs (de_ifaces env) localPort) @ [nl] in
        (case ReadString inp e of
           (Inl err, _) \<Rightarrow> (lines, Inl (Wrap ''read partner info'' err))
         | (Inr partnerLine, r1) \<Rightarrow>
             (case unmarshal (TrimRight partnerLine) of
                None \<Rightarrow> (lines, Inl (Wrap ''parse partner info'' (Errorf ''json'')))
              | Some partner \<Rightarrow>
                  (case ReadString r1 e of
                     (Inl err, _) \<Rightarrow> (lines, Inl (Errorf ''expected START''))
                   | (Inr startLine, r2) \<Rightarrow>
                       if TrimRight startLine \<noteq> START then (lines, Inl (Errorf ''expected START''))
                       else
                         let direct = punched env partner localPort timeout;
                             sent = lines @ (if direct \<noteq> None then PUNCH_OK else PUNCH_FAIL) @ [nl] in
                         (case ReadString r2 e of
                            (Inl err, _) \<Rightarrow> (sent, Inl (Wrap ''read relay decision'' err))
                          | (Inr decLine, r3) \<Rightarrow>
                              if TrimRight decLine = DIRECT
                              then (sent, Inr \<lparr>dr_Conn = (case direct of None \<Rightarrow> NilConn | Some c \<Rightarrow> DirectConn c),
                                               dr_Partner = partner, dr_UsedFallback = False\<rparr>)
                              else if TrimRight decLine = BRIDGE
                              then (sent, Inr \<lparr>dr_Conn = BridgeConn r3, dr_Partner = partner, dr_UsedFallback = True\<rparr>)
                              else (sent, Inl (Errorf ''unexpected relay decision'')))))))))) "

section \<open>A dial against the relay\<close>

text \<open>A client whose system calls succeed, and the lines it opens with.\<close>

definition dial_ok :: "dialEnv \<Rightarrow> Options \<Rightarrow> nat \<Rightarrow> bool" where
  "dial_ok env opt port \<longleftrightarrow> de_port env = Inr port \<and> de_relay env = None \<and> (useTLS opt \<longrightarrow> de_tls env = None) \<and> de_send env = None"

definition greeting :: "(string list \<Rightarrow> string) \<Rightarrow> dialEnv \<Rightarrow> Options \<Rightarrow> nat \<Rightarrow> string" where
  "greeting marshal env opt port = SessionID opt @ [nl] @ marshal (localAddrs (de_ifaces env) port) @ [nl]"

lemma Dial_lines:
  assumes "dial_ok env opt port" "isLine info" "unmarshal info = Some partner" "isLine dec"
    and "d = punched env partner port (if PunchTimeout opt \<le> 0 then DefaultTimeout else PunchTimeout opt)"
  shows "Dial marshal unmarshal env opt (info @ [nl] @ START @ [nl] @ dec @ [nl] @ rest) e =
    (greeting marshal env opt port @ (if d \<noteq> None then PUNCH_OK else PUNCH_FAIL) @ [nl],
     if dec = DIRECT then Inr \<lparr>dr_Conn = (case d of None \<Rightarrow> NilConn | Some c \<Rightarrow> DirectConn c), dr_Partner = partner, dr_UsedFallback = False\<rparr>
     else if dec = BRIDGE then Inr \<lparr>dr_Conn = BridgeConn rest, dr_Partner = partner, dr_UsedFallback = True\<rparr>
     else Inl (Errorf ''unexpected relay decision''))"
  using assms by (simp add: Dial_def Let_def dial_ok_def greeting_def)

lemma direct_bridge_differ [simp]: "DIRECT \<noteq> BRIDGE" "BRIDGE \<noteq> DIRECT" "PUNCH_OK \<noteq> PUNCH_FAIL" "PUNCH_FAIL \<noteq> PUNCH_OK"
  by (simp_all add: DIRECT_def BRIDGE_def PUNCH_OK_def PUNCH_FAIL_def)

definition endpoint :: "string \<Rightarrow> dialEnv \<Rightarrow> nat \<Rightarrow> Info" where
  "endpoint addr env port = \<lparr>PublicAddr = addr, LocalAddrs = localAddrs (de_ifaces env) port\<rparr>"

definition punchedTo :: "dialEnv \<Rightarrow> Options \<Rightarrow> nat \<Rightarrow> Info \<Rightarrow> dconn option" where
  "punchedTo env opt port partner =
     punched env partner port (if PunchTimeout opt \<le> 0 then DefaultTimeout else PunchTimeout opt)"

definition report :: "dconn option \<Rightarrow> string" where
  "report d = (if d \<noteq> None then PUNCH_OK else PUNCH_FAIL) @ [nl]"

text \<open>How a dial should end: on the direct link if both ends have one, else on the bridge that delivers \<open>data\<close>.\<close>

definition agreed :: "dconn option \<Rightarrow> dconn option \<Rightarrow> Info \<Rightarrow> string \<Rightarrow> dialResult" where
  "agreed mine theirs partner data =
     (case (mine, theirs) of
        (Some c, Some _) \<Rightarrow> \<lparr>dr_Conn = DirectConn c, dr_Partner = partner, dr_UsedFallback = False\<rparr>
      | _ \<Rightarrow> \<lparr>dr_Conn = BridgeConn data, dr_Partner = partner, dr_UsedFallback = True\<rparr>)"

lemma report_lines:
  "isLine (if d \<noteq> None then PUNCH_OK else PUNCH_FAIL)" "length (if d \<noteq> None then PUNCH_OK else PUNCH_FAIL) < 11"
  by (simp_all add: PUNCH_OK_def PUNCH_FAIL_def isLine_def nl_def cr_def)


section \<open>An example\<close>

text \<open>A line codec for lists of strings: two letters per byte, a semicolon after each string.\<close>

definition letters :: "char \<Rightarrow> string" where
  "letters c = [char_of (97 + of_char c div 16 :: nat), char_of (97 + of_char c mod 16 :: nat)]"

definition encodeList :: "string list \<Rightarrow> string" where
  "encodeList ss = concat (map (\<lambda>s. concat (map letters s) @ '';'') ss)"

fun decodeList :: "string \<Rightarrow> string \<Rightarrow> string list option" where
  "decodeList [] acc = (if acc = [] then Some [] else None)"
| "decodeList [c] acc = (if c = CHR '';'' then Some [acc] else None)"
| "decodeList (c # d # cs) acc =
     (if c = CHR '';'' then map_option ((#) acc) (decodeList (d # cs) [])
      else decodeList cs (acc @ [char_of (16 * (of_char c - 97) + (of_char d - 97) :: nat)]))"

lemma letters_facts:
  "of_char (char_of (97 + of_char c div 16 :: nat)) = (97 + of_char c div 16 :: nat)"
  "of_char (char_of (97 + of_char c mod 16 :: nat)) = (97 + of_char c mod 16 :: nat)"
  "char_of (97 + of_char c div 16 :: nat) \<noteq> CHR '';''"
proof -
  have c: "(of_char c :: nat) < 256" by (rule nat_of_char_less_256)
  have "(of_char c :: nat) mod 16 < 16" by simp
  then show "of_char (char_of (97 + of_char c mod 16 :: nat)) = (97 + of_char c mod 16 :: nat)" by simp
  show d: "of_char (char_of (97 + of_char c div 16 :: nat)) = (97 + of_char c div 16 :: nat)"
  proof -
    have "(of_char c :: nat) div 16 < 16" using c by (simp add: less_mult_imp_div_less)
    then show ?thesis by simp
  qed
  show "char_of (97 + of_char c div 16 :: nat) \<noteq> CHR '';''"
  proof
    assume "char_of (97 + of_char c div 16 :: nat) = CHR '';''"
    then have "(of_char (char_of (97 + of_char c div 16 :: nat)) :: nat) = of_char CHR '';''" by (rule arg_cong)
    then show False unfolding d by simp
  qed
qed

lemma decodeList_word:
  "decodeList (concat (map letters s) @ CHR '';'' # rest) acc = map_option ((#) (acc @ s)) (decodeList rest [])"
proof (induction s arbitrary: acc)
  case Nil
  then show ?case by (cases rest) simp_all
next
  case (Cons c s)
  have "char_of (16 * (of_char c div 16) + of_char c mod 16 :: nat) = c" by simp
  then show ?case using Cons.IH [of "acc @ [c]"] letters_facts [of c] by (simp add: letters_def)
qed

lemma decode_encodeList: "decodeList (encodeList ss) [] = Some ss"
proof (induction ss)
  case (Cons s ss)
  then show ?case using decodeList_word [of s "encodeList ss" "[]"] by (simp add: encodeList_def)
qed (simp add: encodeList_def)

lemma length_encodeList: "length (encodeList ss) = sum_list (map (\<lambda>s. 2 * length s + 1) ss)"
proof -
  have "length (concat (map letters s)) = 2 * length s" for s by (induction s) (simp_all add: letters_def)
  then show ?thesis by (induction ss) (simp_all add: encodeList_def)
qed

lemma isLine_encodeList: "isLine (encodeList ss)"
proof -
  have "c \<noteq> nl \<and> c \<noteq> cr" if "c \<in> set (encodeList ss)" for c
  proof -
    have "c = CHR '';'' \<or> (\<exists>x. c = char_of (97 + of_char x div 16 :: nat) \<or> c = char_of (97 + of_char x mod 16 :: nat))"
      using that by (auto simp: encodeList_def letters_def split: if_splits)
    then have "(of_char c :: nat) \<ge> 59" using letters_facts by fastforce
    then show ?thesis by (auto simp: nl_def cr_def)
  qed
  then have "nl \<notin> set (encodeList ss)" "cr \<notin> set (encodeList ss)" by blast+
  then show ?thesis by (auto simp: isLine_def) (metis last_in_set)
qed

definition exampleMarshal :: "Info \<Rightarrow> string" where
  "exampleMarshal i = encodeList (PublicAddr i # LocalAddrs i)"

definition exampleUnmarshal :: "string \<Rightarrow> Info option" where
  "exampleUnmarshal s = (case decodeList s [] of Some (p # las) \<Rightarrow> Some \<lparr>PublicAddr = p, LocalAddrs = las\<rparr> | _ \<Rightarrow> None)"

definition exampleDial :: "bool \<Rightarrow> dialEnv" where
  "exampleDial force = \<lparr>de_port = Inr 7000, de_relay = None, de_tls = None, de_ifaces = Inr [], de_send = None,
     de_force = force, de_punch = (\<lambda>_ _ _. Inr \<lparr>dc_write = None, dc_in = punchMagic @ [1, 2], dc_end = IoEOF\<rparr>)\<rparr>"


end
