(* ===== verification/Streams.thy ===== *)
theory Streams
  imports Rendezvous Crypto_Session
begin

text \<open>
  Establishing connections in the command-line client: code phrases (\<^verbatim>\<open>pkg/codephrase/codephrase.go\<close>), the
  dialer of a session and its reconnects (\<^verbatim>\<open>cmd/p2p/dialer.go\<close>), and the negotiation of parallel streams
  (\<^verbatim>\<open>cmd/p2p/streams.go\<close>). Rendezvous, handshake, SHA-256 and random numbers are arguments; a panic is
  the value \<open>None\<close>.
\<close>

section \<open>Code phrases\<close>

definition phraseWords :: "string list" where
  "phraseWords = [
     ''brave'', ''tiger'', ''comet'', ''river'', ''amber'', ''delta'', ''ember'', ''frost'',
     ''glide'', ''harbor'', ''ivory'', ''jolly'', ''koala'', ''lunar'', ''maple'', ''noble'',
     ''ocean'', ''pearl'', ''quartz'', ''raven'', ''solar'', ''topaz'', ''umber'', ''vivid'',
     ''willow'', ''xenon'', ''yacht'', ''zephyr'', ''anchor'', ''breeze'', ''cedar'', ''dune'',
     ''eagle'', ''flint'', ''grove'', ''hazel'', ''indigo'', ''jasper'', ''kelp'', ''lotus'',
     ''mango'', ''nectar'', ''onyx'', ''prism'', ''quill'', ''ridge'', ''spark'', ''thorn'',
     ''ultra'', ''vapor'', ''wheat'', ''xerus'', ''yarrow'', ''zinc'', ''azure'', ''basil'',
     ''copper'', ''dusk'', ''echo'', ''fable'', ''garnet'', ''halo'', ''iris'', ''jade'']"

text \<open>The phrase for the random numbers \<open>d < 10\<close> and \<open>i, j, k < 64\<close>.\<close>

definition Generate :: "nat \<Rightarrow> nat \<Rightarrow> nat \<Rightarrow> nat \<Rightarrow> string" where
  "Generate d i j k = decimal d @ ''-'' @ phraseWords ! i @ ''-'' @ phraseWords ! j @ ''-'' @ phraseWords ! k"

definition hexDigit :: "nat \<Rightarrow> char" where "hexDigit n = ''0123456789abcdef'' ! n"

definition hexEncode :: "bytes \<Rightarrow> string" where
  "hexEncode bs = concat (map (\<lambda>b. [hexDigit (unat b div 16), hexDigit (unat b mod 16)]) bs)"

definition SessionIDOf :: "(string \<Rightarrow> bytes) \<Rightarrow> string \<Rightarrow> string" where
  "SessionIDOf sha256 code = hexEncode (take 16 (sha256 (''p2p-session:'' @ code)))"

section \<open>The dialer\<close>

record sessionDialer =
  sd_dialTimeout :: int
  sd_established :: bool
  sd_partnerPublic :: string
  sd_lastDirect :: bool

definition LastDirect :: "sessionDialer \<Rightarrow> bool" where "LastDirect d = sd_lastDirect d"

definition attemptBudget :: "sessionDialer \<Rightarrow> int" where
  "attemptBudget d = (if sd_dialTimeout d > 0 then sd_dialTimeout d else 12000000000)"

text \<open>A connection is the direct dial to an address or what a rendezvous returned.\<close>

datatype netConn = Dialled string | Rendezvoused rconn

definition rendezvousDial :: "(int \<Rightarrow> dialResult result) \<Rightarrow> int \<Rightarrow> sessionDialer \<Rightarrow> sessionDialer \<times> netConn result" where
  "rendezvousDial meet budget d =
     (case meet budget of
        Inl e \<Rightarrow> (d, Inl e)
      | Inr res \<Rightarrow>
          let d1 = d\<lparr>sd_established := True, sd_lastDirect := \<not> dr_UsedFallback res\<rparr>;
              d2 = (if PublicAddr (dr_Partner res) \<noteq> [] then d1\<lparr>sd_partnerPublic := PublicAddr (dr_Partner res)\<rparr> else d1) in
          (d2, Inr (Rendezvoused (dr_Conn res))))"

definition dialDirect :: "(string \<Rightarrow> error option) \<Rightarrow> sessionDialer \<Rightarrow> netConn result" where
  "dialDirect tcpDial d =
     (case tcpDial (sd_partnerPublic d) of Some e \<Rightarrow> Inl e | None \<Rightarrow> Inr (Dialled (sd_partnerPublic d)))"

definition DialFunc ::
  "(string \<Rightarrow> error option) \<Rightarrow> (int \<Rightarrow> dialResult result) \<Rightarrow> sessionDialer \<Rightarrow> sessionDialer \<times> netConn result" where
  "DialFunc tcpDial meet d =
     (case (if sd_established d then dialDirect tcpDial d else Inl (Errorf ''not established'')) of
        Inr c \<Rightarrow> (d\<lparr>sd_lastDirect := True\<rparr>, Inr c)
      | Inl _ \<Rightarrow> rendezvousDial meet (attemptBudget d) d)"

section \<open>Parallel streams\<close>

text \<open>A session as a message stream; a message read is at most 1 MB.\<close>

definition streamReadBuf :: nat where "streamReadBuf = 2 ^ 20"

definition streamWriteMsg :: "'cs encrypter \<Rightarrow> bytes \<Rightarrow> 'cs Session \<Rightarrow> 'cs Session \<times> error option" where
  "streamWriteMsg Encrypt p s = (case sessionWrite Encrypt p s of (s', _, e) \<Rightarrow> (s', e))"

definition streamReadMsg :: "'cs decrypter \<Rightarrow> 'cs Session \<Rightarrow> 'cs Session \<times> bytes result" where
  "streamReadMsg Decrypt s =
     (case sessionRead Decrypt streamReadBuf s of (s', buf, e) \<Rightarrow> (s', case e of Some err \<Rightarrow> Inl err | None \<Rightarrow> Inr buf))"

definition minInt :: "int \<Rightarrow> int \<Rightarrow> int" where "minInt a b = (if a < b then a else b)"

text \<open>One stream: rendezvous under the identifier of \<^verbatim>\<open>code#i\<close>, then the handshake.\<close>

definition openSession ::
  "(string \<Rightarrow> bytes) \<Rightarrow> (string \<Rightarrow> 'c result) \<Rightarrow> (string \<Rightarrow> string \<Rightarrow> 'c \<Rightarrow> 's result) \<Rightarrow> string \<Rightarrow> nat \<Rightarrow> 's result" where
  "openSession sha256 dial handshake code i =
     (let sid = SessionIDOf sha256 (code @ ''#'' @ decimal i) in
      case dial sid of
        Inl e \<Rightarrow> Inl e
      | Inr c \<Rightarrow> (case handshake sid code c of Inl e \<Rightarrow> Inl e | Inr s \<Rightarrow> Inr s))"

record ctrlMsg =
  cm_T :: string
  cm_N :: int
  cm_K :: int

definition wantMsg :: "int \<Rightarrow> ctrlMsg" where "wantMsg n = \<lparr>cm_T = ''want'', cm_N = n, cm_K = 0\<rparr>"
definition openedMsg :: "int \<Rightarrow> ctrlMsg" where "openedMsg k = \<lparr>cm_T = ''opened'', cm_N = 0, cm_K = k\<rparr>"

definition nonNil :: "'s option list \<Rightarrow> 's list" where
  "nonNil ss = List.map_filter (\<lambda>s. s) ss"

text \<open>The first \<open>m\<close> sessions that are there, and what is left to close.\<close>

fun pickStreams :: "nat \<Rightarrow> 's option list \<Rightarrow> 's list \<times> 's option list" where
  "pickStreams 0 ss = ([], ss)"
| "pickStreams (Suc m) [] = ([], [])"
| "pickStreams (Suc m) (None # ss) = (case pickStreams (Suc m) ss of (out, left) \<Rightarrow> (out, None # left))"
| "pickStreams (Suc m) (Some s # ss) = (case pickStreams m ss of (out, left) \<Rightarrow> (s # out, None # left))"

text \<open>Agreeing on the number of streams: the initiator announces it, the other side learns it.\<close>

definition negotiate :: "bool \<Rightarrow> error option \<Rightarrow> ctrlMsg option result \<Rightarrow> int \<Rightarrow> (int \<times> ctrlMsg list) result" where
  "negotiate initiator werr rd want =
     (if initiator then (case werr of Some e \<Rightarrow> Inl e | None \<Rightarrow> Inr (want, [wantMsg want]))
      else case rd of
             Inl e \<Rightarrow> Inl e
           | Inr None \<Rightarrow> Inl (Errorf ''expected want'')
           | Inr (Some cm) \<Rightarrow> if cm_T cm \<noteq> ''want'' then Inl (Errorf ''expected want'') else Inr (cm_N cm, []))"

text \<open>
  \<open>openStreams\<close>: \<open>opn i\<close> is the outcome of opening stream \<open>i\<close>, \<open>werr1\<close> and \<open>werr2\<close> the errors of the two
  control messages, \<open>rd1\<close> and \<open>rd2\<close> what is read (\<open>Inr None\<close> for a message that is no JSON). The result
  has the control messages sent, the sessions closed and the streams.
\<close>

definition openStreams ::
  "bool \<Rightarrow> (nat \<Rightarrow> 's result) \<Rightarrow> error option \<Rightarrow> error option \<Rightarrow> ctrlMsg option result \<Rightarrow> ctrlMsg option result \<Rightarrow> int
     \<Rightarrow> (ctrlMsg list \<times> 's list \<times> 's list result) option" where
  "openStreams initiator opn werr1 werr2 rd1 rd2 want0 =
     (case opn 0 of
        Inl e \<Rightarrow> Some ([], [], Inl (Wrap ''control stream'' e))
      | Inr s0 \<Rightarrow>
          (case negotiate initiator werr1 rd1 want0 of
             Inl e \<Rightarrow> Some ([], [s0], Inl e)
           | Inr (want, sent) \<Rightarrow>
               if want \<le> 0 then None
               else
                 let sessions = Some s0 # map (\<lambda>i. case opn i of Inl _ \<Rightarrow> None | Inr s \<Rightarrow> Some s) [1..<nat want];
                     kSelf = int (length (nonNil sessions)) in
                 (case werr2 of
                    Some e \<Rightarrow> Some (sent, nonNil sessions, Inl e)
                  | None \<Rightarrow>
                      let sent' = sent @ [openedMsg kSelf] in
                      (case rd2 of
                         Inl e \<Rightarrow> Some (sent', nonNil sessions, Inl e)
                       | Inr None \<Rightarrow> Some (sent', nonNil sessions, Inl (Errorf ''expected opened''))
                       | Inr (Some peer) \<Rightarrow>
                           if cm_T peer \<noteq> ''opened'' then Some (sent', nonNil sessions, Inl (Errorf ''expected opened''))
                           else
                             let m = minInt kSelf (cm_K peer) in
                             if m < 0 then None
                             else (case pickStreams (nat m) sessions of
                                     (out, left) \<Rightarrow> Some (sent', nonNil left, Inr out))))))"

section \<open>Properties of the dialer\<close>

text \<open>
  The dialer's memory. A dial by rendezvous remembers the partner's address and whether the link is
  direct, and a failed one leaves the dialer as it was; the direct attempt is made only after a first
  success, to the remembered address, and when it fails the dialer meets the partner again through the
  relay with its full time budget.
\<close>

theorem dialer_reconnects:
  assumes "DialFunc tcpDial meet d = (d', r)"
  shows "(\<not> sd_established d \<or> tcpDial (sd_partnerPublic d) \<noteq> None \<longrightarrow>
      (case meet (if sd_dialTimeout d > 0 then sd_dialTimeout d else 12000000000) of
         Inl e \<Rightarrow> d' = d \<and> r = Inl e
       | Inr res \<Rightarrow> sd_established d' \<and> LastDirect d' = (\<not> dr_UsedFallback res) \<and> r = Inr (Rendezvoused (dr_Conn res)) \<and>
           (PublicAddr (dr_Partner res) \<noteq> [] \<longrightarrow> sd_partnerPublic d' = PublicAddr (dr_Partner res)))) \<and>
    (\<forall>a. r = Inr (Dialled a) \<longrightarrow> sd_established d \<and> a = sd_partnerPublic d \<and> tcpDial a = None \<and> LastDirect d')"
  using assms
  by (auto simp: DialFunc_def dialDirect_def rendezvousDial_def attemptBudget_def LastDirect_def Let_def split: sum.splits if_splits option.splits)

theorem dialer_reconnects_witness:
  "\<exists>d'. DialFunc (\<lambda>_. Some IoEOF) (\<lambda>_. Inr \<lparr>dr_Conn = BridgeConn [], dr_Partner = \<lparr>PublicAddr = ''h:1'', LocalAddrs = []\<rparr>, dr_UsedFallback = True\<rparr>)
     \<lparr>sd_dialTimeout = 0, sd_established = False, sd_partnerPublic = [], sd_lastDirect = False\<rparr> = (d', Inr (Rendezvoused (BridgeConn []))) \<and>
     sd_partnerPublic d' = ''h:1'' \<and> \<not> LastDirect d'"
proof -
  let ?f = "DialFunc (\<lambda>_. Some IoEOF) (\<lambda>_. Inr \<lparr>dr_Conn = BridgeConn [], dr_Partner = \<lparr>PublicAddr = ''h:1'', LocalAddrs = []\<rparr>, dr_UsedFallback = True\<rparr>)
     \<lparr>sd_dialTimeout = 0, sd_established = False, sd_partnerPublic = [], sd_lastDirect = False\<rparr>"
  obtain d' r where d: "?f = (d', r)" by force
  show ?thesis using dialer_reconnects [OF d] d by simp
qed

section \<open>Streams that match\<close>

lemma nonNil_simps [simp]:
  "nonNil [] = []" "nonNil (None # ss) = nonNil ss" "nonNil (Some s # ss) = s # nonNil ss"
  by (simp_all add: nonNil_def List.map_filter_simps)

lemma pickStreams_spec:
  "pickStreams m ss = (out, left) \<Longrightarrow> out = take m (nonNil ss) \<and> nonNil left = drop m (nonNil ss)"
  by (induction m ss arbitrary: out left rule: pickStreams.induct) (auto split: prod.splits)

definition sessionsOf :: "(nat \<Rightarrow> 's result) \<Rightarrow> nat \<Rightarrow> 's option list" where
  "sessionsOf opn n = map (\<lambda>i. case opn i of Inl _ \<Rightarrow> None | Inr s \<Rightarrow> Some s) [0..<n]"

lemma sessionsOf_Cons:
  assumes "opn 0 = Inr s0" "0 < n"
  shows "sessionsOf opn n = Some s0 # map (\<lambda>i. case opn i of Inl _ \<Rightarrow> None | Inr s \<Rightarrow> Some s) [1..<n]"
  using assms by (simp add: sessionsOf_def upt_rec)

lemma nonNil_sessionsOf:
  "nonNil (sessionsOf opn n) = map (\<lambda>i. projr (opn i)) (filter (\<lambda>i. \<not> isl (opn i)) [0..<n])"
proof -
  have "nonNil (map (\<lambda>i. case opn i of Inl _ \<Rightarrow> None | Inr s \<Rightarrow> Some s) is) =
      map (\<lambda>i. projr (opn i)) (filter (\<lambda>i. \<not> isl (opn i)) is)" for "is"
    by (induction "is") (auto split: sum.splits)
  then show ?thesis by (simp add: sessionsOf_def)
qed

lemma openStreams_result:
  assumes "opn 0 = Inr s0" "0 < n" "negotiate initiator w1 rd1 want = Inr (int n, sent)" "0 \<le> k"
  shows "openStreams initiator opn w1 None rd1 (Inr (Some (openedMsg k))) want =
    (let ss = nonNil (sessionsOf opn n); m = min (length ss) (nat k) in
     Some (sent @ [openedMsg (int (length ss))], drop m ss, Inr (take m ss)))"
proof -
  let ?ss = "sessionsOf opn n"
  let ?m = "minInt (int (length (nonNil ?ss))) k"
  have m: "nat ?m = min (length (nonNil ?ss)) (nat k)" "\<not> ?m < 0" using assms(4) by (auto simp: minInt_def)
  obtain out left where p: "pickStreams (nat ?m) ?ss = (out, left)" by force
  show ?thesis
    using assms(1-3) p pickStreams_spec [OF p] m sessionsOf_Cons [of opn s0 n, OF assms(1,2)]
    by (simp add: openStreams_def openedMsg_def Let_def)
qed

text \<open>The message with the opened count a side sends, and the count itself.\<close>

definition openedCount :: "(nat \<Rightarrow> 's result) \<Rightarrow> nat \<Rightarrow> nat" where
  "openedCount opn n = length (filter (\<lambda>i. \<not> isl (opn i)) [0..<n])"

lemma length_nonNil_sessionsOf [simp]: "length (nonNil (sessionsOf opn n)) = openedCount opn n"
  by (simp add: nonNil_sessionsOf openedCount_def)

text \<open>
  C31: Negotiating parallel streams. When the two sides exchange their control messages and both opened the
  control stream, each sends its opened count and both use the same number of streams, the smaller
  count; if the same indices opened on both sides, the k-th stream of one side is the k-th stream of
  the other and no session is closed. But equal numbers are not enough: if the joiner opened all of
  three streams and the initiator only the first and the last, the initiator's second stream is number 2
  and the joiner's is number 1; and an announced count of zero or a negative opened count makes the
  other side panic.
\<close>

theorem open_streams_agree:
  assumes "oI 0 = Inr a0" "oJ 0 = Inr b0" "0 < n"
    and "rI = openStreams True oI None None rd (Inr (Some (openedMsg (int (openedCount oJ n))))) (int n)"
    and "rJ = openStreams False oJ werr None (Inr (Some (wantMsg (int n)))) (Inr (Some (openedMsg (int (openedCount oI n))))) want"
  shows "\<exists>cI outI cJ outJ. rI = Some ([wantMsg (int n), openedMsg (int (openedCount oI n))], cI, Inr outI) \<and>
      rJ = Some ([openedMsg (int (openedCount oJ n))], cJ, Inr outJ) \<and>
      length outI = min (openedCount oI n) (openedCount oJ n) \<and> length outJ = length outI \<and>
      ((\<forall>i<n. isl (oI i) = isl (oJ i)) \<longrightarrow> cI = [] \<and> cJ = [] \<and>
         (\<exists>is. outI = map (\<lambda>i. projr (oI i)) is \<and> outJ = map (\<lambda>i. projr (oJ i)) is)) \<and>
      openStreams True (\<lambda>i. if i = 1 then Inl IoEOF else Inr i) None None rd (Inr (Some (openedMsg 3))) 3 =
        Some ([wantMsg 3, openedMsg 2], [], Inr [0, 2]) \<and>
      openStreams False (\<lambda>i. Inr i) None None (Inr (Some (wantMsg 3))) (Inr (Some (openedMsg 2))) 3 =
        Some ([openedMsg 3], [2], Inr [0, 1]) \<and>
      openStreams False oJ None None (Inr (Some (wantMsg 0))) rd want = None \<and>
      openStreams True oI None None rd (Inr (Some (openedMsg (- 1)))) (int n) = None"
proof -
  let ?m = "min (openedCount oI n) (openedCount oJ n)"
  let ?pI = "nonNil (sessionsOf oI n)" and ?pJ = "nonNil (sessionsOf oJ n)"
  have I: "rI = Some ([wantMsg (int n), openedMsg (int (openedCount oI n))], drop ?m ?pI, Inr (take ?m ?pI))"
    using openStreams_result [of oI a0 n True None rd "int n" "[wantMsg (int n)]" "int (openedCount oJ n)"] assms(1,3,4)
    by (simp add: negotiate_def Let_def)
  have J: "rJ = Some ([openedMsg (int (openedCount oJ n))], drop ?m ?pJ, Inr (take ?m ?pJ))"
    using openStreams_result [of oJ b0 n False werr "Inr (Some (wantMsg (int n)))" want "[]" "int (openedCount oI n)"] assms(2,3,5)
    by (simp add: negotiate_def wantMsg_def Let_def min.commute)
  have same: "drop ?m ?pI = [] \<and> drop ?m ?pJ = [] \<and> (\<exists>is. take ?m ?pI = map (\<lambda>i. projr (oI i)) is \<and> take ?m ?pJ = map (\<lambda>i. projr (oJ i)) is)"
    if eq: "\<forall>i<n. isl (oI i) = isl (oJ i)"
  proof -
    have f: "filter (\<lambda>i. \<not> isl (oI i)) [0..<n] = filter (\<lambda>i. \<not> isl (oJ i)) [0..<n]" using eq by (intro filter_cong) auto
    then have "openedCount oI n = openedCount oJ n" by (simp add: openedCount_def)
    then show ?thesis unfolding nonNil_sessionsOf using f by (auto simp: openedCount_def)
  qed
  have pan: "openStreams True oI None None rd (Inr (Some (openedMsg (- 1)))) (int n) = None"
    using assms(1,3) by (simp add: openStreams_def negotiate_def openedMsg_def minInt_def Let_def)
  have ex1: "openStreams True (\<lambda>i. if i = 1 then Inl IoEOF else Inr i) None None rd (Inr (Some (openedMsg 3))) 3 =
      Some ([wantMsg 3, openedMsg 2], [], Inr [0, 2 :: nat])"
    by (simp add: openStreams_def negotiate_def openedMsg_def minInt_def Let_def upt_rec numeral_2_eq_2)
  have ex2: "openStreams False (\<lambda>i. Inr i) None None (Inr (Some (wantMsg 3))) (Inr (Some (openedMsg 2))) 3 =
      Some ([openedMsg 3], [2 :: nat], Inr [0, 1])"
    by (simp add: openStreams_def negotiate_def openedMsg_def wantMsg_def minInt_def Let_def upt_rec numeral_2_eq_2)
  have pan0: "openStreams False oJ None None (Inr (Some (wantMsg 0))) rd want = None"
    using assms(2) by (simp add: openStreams_def negotiate_def wantMsg_def)
  show ?thesis
  proof (intro exI conjI)
    show "rI = Some ([wantMsg (int n), openedMsg (int (openedCount oI n))], drop ?m ?pI, Inr (take ?m ?pI))" by (rule I)
    show "rJ = Some ([openedMsg (int (openedCount oJ n))], drop ?m ?pJ, Inr (take ?m ?pJ))" by (rule J)
    show "(\<forall>i<n. isl (oI i) = isl (oJ i)) \<longrightarrow> drop ?m ?pI = [] \<and> drop ?m ?pJ = [] \<and>
        (\<exists>is. take ?m ?pI = map (\<lambda>i. projr (oI i)) is \<and> take ?m ?pJ = map (\<lambda>i. projr (oJ i)) is)" using same by blast
  qed (use ex1 ex2 pan pan0 in simp_all)
qed

theorem open_streams_agree_witness:
  "\<exists>cI outI cJ outJ. openStreams True (\<lambda>i. Inr (i + 10)) None None (Inl IoEOF) (Inr (Some (openedMsg (int (openedCount (\<lambda>i. Inr i :: nat result) 2))))) (int 2) =
      Some ([wantMsg (int 2), openedMsg (int (openedCount (\<lambda>i. Inr (i + 10) :: nat result) 2))], cI, Inr outI) \<and>
    openStreams False (\<lambda>i. Inr i) None None (Inr (Some (wantMsg (int 2)))) (Inr (Some (openedMsg (int (openedCount (\<lambda>i. Inr (i + 10) :: nat result) 2))))) 8 =
      Some ([openedMsg (int (openedCount (\<lambda>i. Inr i :: nat result) 2))], cJ, Inr outJ) \<and>
    length outJ = length outI"
  using open_streams_agree [where oI = "\<lambda>i. Inr (i + 10) :: nat result" and oJ = "\<lambda>i. Inr i :: nat result" and n = 2
      and rd = "Inl IoEOF" and werr = None and want = 8, OF refl refl _ refl refl]
  by fastforce

end
