(* ===== verification/App.thy ===== *)
theory App
  imports Parallel Handshake Streams
begin

text \<open>
  The command-line client, \<^verbatim>\<open>cmd/p2p/main.go\<close>: reading the command, the handshake configuration, choosing
  between parallel transfer, single-stream transfer and chat on either side, and the chat loop. Terminal
  output is left out except for what is shown of the peer's messages.
\<close>

section \<open>Commands and configuration\<close>

datatype command =
    Usage
  | RelayHint
  | BenchMode "string list"
  | Session string bool "string list"

definition parseCommand :: "string \<Rightarrow> string list \<Rightarrow> command" where
  "parseCommand generated args =
     (case args of
        [] \<Rightarrow> Usage
      | a # rest \<Rightarrow>
          if a = ''send'' then Session generated True rest
          else if a = ''relay'' then RelayHint
          else if a = ''bench'' then BenchMode rest
          else Session a False [])"

text \<open>The handshake configuration of the main connection; after the first connect the pass code is cleared.\<close>

definition mainConfig :: "(string \<Rightarrow> bytes) \<Rightarrow> Identity \<Rightarrow> string \<Rightarrow> bool \<Rightarrow> HandshakeConfig" where
  "mainConfig sha256 ident code initiator =
     \<lparr>hc_Identity = ident, hc_PeerName = SessionIDOf sha256 code, hc_PAKECode = code, hc_Initiator = initiator\<rparr>"

definition afterConnect :: "HandshakeConfig \<Rightarrow> HandshakeConfig" where
  "afterConnect cfg = cfg\<lparr>hc_PAKECode := []\<rparr>"

definition parallelOK :: "bool \<Rightarrow> int \<Rightarrow> bool" where
  "parallelOK noCrypto streams \<longleftrightarrow> \<not> noCrypto \<and> streams > 1"

definition connMode :: "sessionDialer \<Rightarrow> string" where
  "connMode d = (if LastDirect d then ''direct P2P'' else ''via relay'')"

section \<open>The sending side\<close>

datatype sendMode = SendParallelMode | SendSingleMode | ChatMode | JoinMode

definition chooseMode :: "string list \<Rightarrow> bool \<Rightarrow> bool \<Rightarrow> sendMode" where
  "chooseMode sendPaths par initiator =
     (if sendPaths \<noteq> [] \<and> par then SendParallelMode
      else if sendPaths \<noteq> [] then SendSingleMode
      else if initiator then ChatMode
      else JoinMode)"

definition parallelHello :: Msg where "parallelHello = JsonMsg [(''t'', JStr ''parallel'')]"

text \<open>
  Parallel sending: announce on the main session, open the streams, send. A stream is known by the index
  of its session, and \<open>werr\<close> says what a session refuses. Any failure ends the program, which is the
  error result; \<open>None\<close> is a panic.
\<close>

definition sendParallelMode ::
  "(bytes \<Rightarrow> string) \<Rightarrow> 'm sender \<Rightarrow> (int \<Rightarrow> (ctrlMsg list \<times> nat list \<times> nat list result) option) \<Rightarrow> (nat \<Rightarrow> pmsg \<Rightarrow> error option)
     \<Rightarrow> psource \<Rightarrow> pmsg list \<Rightarrow> error option \<Rightarrow> int \<Rightarrow> string list \<Rightarrow> 'm \<Rightarrow> ('m \<times> nat list \<times> pmsg list list \<times> Stats result) option" where
  "sendParallelMode sha256hex sendMsg open_streams werr src acks ackEnd streams sendPaths s =
     (case sendMsg s parallelHello of
        (s', _) \<Rightarrow>
          (case open_streams streams of
             None \<Rightarrow> None
           | Some (_, _, Inl e) \<Rightarrow> Some (s', [], [], Inl (Wrap ''open streams'' e))
           | Some (_, _, Inr ps) \<Rightarrow>
               (case SendParallel sha256hex (map werr ps) src sendPaths acks ackEnd of
                  (wrote, Inl e) \<Rightarrow> Some (s', ps, wrote, Inl (Wrap ''send'' e))
                | (wrote, Inr st) \<Rightarrow> Some (s', ps, wrote, Inr st))))"

text \<open>Single-stream sending: the transfer, or the loss of the peer if that comes first.\<close>

definition sendSingleMode ::
  "(bytes \<Rightarrow> string) \<Rightarrow> 'm sender \<Rightarrow> Msg list \<Rightarrow> inEnd \<Rightarrow> bool \<Rightarrow> source \<Rightarrow> string list \<Rightarrow> 'm \<Rightarrow> 'm \<times> Stats result" where
  "sendSingleMode sha256hex sendMsg inbound ie dropped src sendPaths s =
     (case File_Transfer.Send sha256hex sendMsg inbound ie src sendPaths s of
        (s', r) \<Rightarrow> (s', if dropped then Inl (Errorf ''peer lost during transfer'') else r))"

section \<open>The joining side\<close>

datatype joinMode = JoinParallel | JoinReceive | JoinChat "Msg option"

text \<open>The first message decides; a chat hello is not shown.\<close>

definition joinerMode :: "Msg \<Rightarrow> joinMode" where
  "joinerMode first =
     (if classify first = ''parallel'' then JoinParallel
      else if classify first = ''header'' then JoinReceive
      else JoinChat (if classify first \<noteq> ''chat'' then Some first else None))"

definition joinParallel ::
  "(bytes \<Rightarrow> string) \<Rightarrow> recvEnv \<Rightarrow> (bytes \<Rightarrow> tarEntry list \<times> error) \<Rightarrow>
   ((nat \<times> bytes) list list \<Rightarrow> (nat \<times> bytes) list) \<Rightarrow> (Trailer list \<Rightarrow> Trailer) \<Rightarrow> error \<Rightarrow>
   (int \<Rightarrow> (ctrlMsg list \<times> nat list \<times> nat list result) option) \<Rightarrow> (nat \<Rightarrow> pmsg list) \<Rightarrow> int \<Rightarrow> string \<Rightarrow> (string \<Rightarrow> bool) option \<Rightarrow> fs
     \<Rightarrow> (fs \<times> (string \<times> Stats) result) option" where
  "joinParallel sha256hex env untar schedule pick rerr open_streams delivers streams cwd overwrite f =
     (case open_streams streams of
        None \<Rightarrow> None
      | Some (_, _, Inl e) \<Rightarrow> Some (f, Inl (Wrap ''open streams'' e))
      | Some (_, _, Inr ps) \<Rightarrow>
          (case ReceiveParallel sha256hex env untar schedule pick rerr (map delivers ps) cwd overwrite f of
             None \<Rightarrow> None
           | Some (f', Inl e, _) \<Rightarrow> Some (f', Inl (Wrap ''receive failed'' e))
           | Some (f', Inr saved, _) \<Rightarrow> Some (f', Inr saved)))"

text \<open>Single-stream receiving gets the first message back in front of the others.\<close>

definition joinReceive ::
  "(bytes \<Rightarrow> string) \<Rightarrow> recvEnv \<Rightarrow> (bytes \<Rightarrow> tarEntry list \<times> error) \<Rightarrow> 'm sender \<Rightarrow> string result \<Rightarrow> Msg \<Rightarrow> Msg list \<Rightarrow> (string \<Rightarrow> bool) option
     \<Rightarrow> fs \<Rightarrow> 'm \<Rightarrow> fs \<times> 'm \<times> (string \<times> Stats) result" where
  "joinReceive sha256hex env untar sendMsg getwd first inbound overwrite f s =
     (case getwd of
        Inl e \<Rightarrow> (f, s, Inl (Wrap ''receive failed'' e))
      | Inr dest \<Rightarrow>
          (case Receive sha256hex env untar (Some sendMsg) (first # inbound) dest overwrite f s of
             (f', s', Inl e) \<Rightarrow> (f', s', Inl (Wrap ''receive failed'' e))
           | (f', s', Inr saved) \<Rightarrow> (f', s', Inr saved)))"

section \<open>Chat\<close>

text \<open>The lines typed: sent as text until \<^verbatim>\<open>/quit\<close> or \<^verbatim>\<open>/exit\<close>; the result says whether quit was closed.\<close>

fun chatLoop :: "('m \<Rightarrow> string \<Rightarrow> 'm \<times> error option) \<Rightarrow> string list \<Rightarrow> 'm \<Rightarrow> 'm \<times> bool" where
  "chatLoop sendText [] s = (s, False)"
| "chatLoop sendText (line # ls) s =
     (if line = ''/quit'' \<or> line = ''/exit'' then (s, True)
      else chatLoop sendText ls (fst (sendText s line)))"

section \<open>Streams of the two sides\<close>

lemma classify_hello: "classify parallelHello = ''parallel''" "joinerMode parallelHello = JoinParallel"
  by (simp_all add: joinerMode_def classify_def parallelHello_def strField_def)

text \<open>The indices that opened, when a session is known by its index.\<close>

definition openedIdx :: "(nat \<Rightarrow> nat result) \<Rightarrow> nat \<Rightarrow> nat list" where
  "openedIdx opn n = filter (\<lambda>i. \<not> isl (opn i)) [0..<n]"

lemma nonNil_indices:
  assumes "\<And>i. isl (opn i) \<or> opn i = Inr i"
  shows "nonNil (sessionsOf opn n) = openedIdx opn n" "openedCount opn n = length (openedIdx opn n)"
proof -
  have "projr (opn i) = i" if "\<not> isl (opn i)" for i using assms [of i] that by (metis sum.sel(2))
  then have "map (\<lambda>i. projr (opn i)) (filter (\<lambda>i. \<not> isl (opn i)) [0..<n]) = filter (\<lambda>i. \<not> isl (opn i)) [0..<n]"
    by (intro map_idI) simp
  then show "nonNil (sessionsOf opn n) = openedIdx opn n" by (simp add: nonNil_sessionsOf openedIdx_def)
  show "openedCount opn n = length (openedIdx opn n)" by (simp add: openedCount_def openedIdx_def)
qed

lemma openedIdx_cong: "\<forall>i<n. isl (oI i) = isl (oJ i) \<Longrightarrow> openedIdx oI n = openedIdx oJ n"
  unfolding openedIdx_def by (intro filter_cong) auto

lemma openedIdx_bounds:
  assumes "opn 0 = Inr 0" "0 < n"
  shows "0 < length (openedIdx opn n)" "length (openedIdx opn n) \<le> n"
proof -
  have "0 \<in> set (openedIdx opn n)" using assms by (simp add: openedIdx_def)
  then show "0 < length (openedIdx opn n)" by (cases "openedIdx opn n") auto
  show "length (openedIdx opn n) \<le> n" using length_filter_le [of _ "[0..<n]"] by (simp add: openedIdx_def)
qed

text \<open>Both sides use the streams that opened, in the same order.\<close>

lemma open_same_streams:
  assumes "oI 0 = Inr 0" "oJ 0 = Inr 0" "0 < n" "\<And>i. isl (oI i) \<or> oI i = Inr i" "\<And>i. isl (oJ i) \<or> oJ i = Inr i"
    and "\<forall>i<n. isl (oI i) = isl (oJ i)"
  shows "\<exists>sent. openStreams True oI None None rd (Inr (Some (openedMsg (int (openedCount oJ n))))) (int n) = Some (sent, [], Inr (openedIdx oI n))"
    "\<exists>sent. openStreams False oJ None None (Inr (Some (wantMsg (int n)))) (Inr (Some (openedMsg (int (openedCount oI n))))) w = Some (sent, [], Inr (openedIdx oI n))"
proof -
  have eq: "openedIdx oJ n = openedIdx oI n" using openedIdx_cong [OF assms(6)] by simp
  note I = nonNil_indices [of oI n, OF assms(4)] and J = nonNil_indices [of oJ n, OF assms(5)]
  show "\<exists>sent. openStreams True oI None None rd (Inr (Some (openedMsg (int (openedCount oJ n))))) (int n) = Some (sent, [], Inr (openedIdx oI n))"
    using openStreams_result [of oI 0 n True None rd "int n" "[wantMsg (int n)]" "int (openedCount oJ n)"] assms(1,3) I J eq
    by (simp add: negotiate_def Let_def)
  show "\<exists>sent. openStreams False oJ None None (Inr (Some (wantMsg (int n)))) (Inr (Some (openedMsg (int (openedCount oI n))))) w = Some (sent, [], Inr (openedIdx oI n))"
    using openStreams_result [of oJ 0 n False None "Inr (Some (wantMsg (int n)))" w "[]" "int (openedCount oI n)"] assms(2,3) I J eq
    by (simp add: negotiate_def wantMsg_def Let_def)
qed

end
