(* ===== verification/Humanize.thy ===== *)
theory Humanize
  imports Text_Lines "HOL-Library.Log_Nat" "HOL-Library.Sublist"
begin

text \<open>
  Sizes, rates and durations for people, \<^verbatim>\<open>pkg/humanize/humanize.go\<close>, and the progress line and overwrite
  prompt of \<^verbatim>\<open>cmd/p2p/progress.go\<close>. A finite \<^verbatim>\<open>float64\<close> is a mantissa and a binary exponent; every operation
  rounds the exact result to 53 significant bits, ties to even. Texts are ASCII.
\<close>

section \<open>Floating point\<close>

type_synonym f64 = "int \<times> int"

definition roundDiv :: "int \<Rightarrow> int \<Rightarrow> int" where
  "roundDiv p q =
     (let d = p div q; r = p mod q in if 2 * r < q \<or> (2 * r = q \<and> even d) then d else d + 1)"

definition scaled :: "int \<Rightarrow> int \<Rightarrow> int \<Rightarrow> int \<times> int" where
  "scaled p q e = (if e \<ge> 0 then (p, q * 2 ^ nat e) else (p * 2 ^ nat (- e), q))"

text \<open>The float nearest to \<open>p / q\<close>, for positive \<open>q\<close>.\<close>

definition f64_round :: "int \<Rightarrow> int \<Rightarrow> f64" where
  "f64_round p q =
     (if p = 0 then (0, 0)
      else let a = \<bar>p\<bar>; e0 = bitlen a - bitlen q - 53;
               e = (if fst (scaled a q e0) div snd (scaled a q e0) \<ge> 2 ^ 53 then e0 + 1 else e0)
           in (sgn p * roundDiv (fst (scaled a q e)) (snd (scaled a q e)), e))"

definition fnum :: "f64 \<Rightarrow> int" where "fnum x = fst x * 2 ^ nat (snd x)"
definition fden :: "f64 \<Rightarrow> int" where "fden x = 2 ^ nat (- snd x)"

definition f64_of :: "int \<Rightarrow> f64" where "f64_of n = f64_round n 1"

definition f64_div :: "f64 \<Rightarrow> f64 \<Rightarrow> f64" where
  "f64_div a b = f64_round (sgn (fnum b) * fnum a * fden b) (fden a * \<bar>fnum b\<bar>)"

definition f64_mul :: "f64 \<Rightarrow> f64 \<Rightarrow> f64" where
  "f64_mul a b = f64_round (fnum a * fnum b) (fden a * fden b)"

definition f64_add :: "f64 \<Rightarrow> f64 \<Rightarrow> f64" where
  "f64_add a b = f64_round (fnum a * fden b + fnum b * fden a) (fden a * fden b)"

text \<open>Conversion to \<^verbatim>\<open>int64\<close> drops the fraction; \<open>oor\<close> is what the processor gives out of range.\<close>

definition f64_trunc :: "f64 \<Rightarrow> int" where "f64_trunc x = sgn (fnum x) * (\<bar>fnum x\<bar> div fden x)"

definition toInt64 :: "int \<Rightarrow> f64 \<Rightarrow> int" where
  "toInt64 oor x = (let t = f64_trunc x in if - (2 ^ 63) \<le> t \<and> t < 2 ^ 63 then t else oor)"

section \<open>Formatting\<close>

definition showInt :: "int \<Rightarrow> string" where
  "showInt n = (if n < 0 then CHR ''-'' # decimal (nat (- n)) else decimal (nat n))"

text \<open>The formats \<^verbatim>\<open>%.1f\<close> of a float, and of a number of tenths.\<close>

definition showTenths :: "nat \<Rightarrow> string" where
  "showTenths t = decimal (t div 10) @ CHR ''.'' # decimal (t mod 10)"

definition fmt1 :: "f64 \<Rightarrow> string" where
  "fmt1 x = (if fst x < 0 then ''-'' else []) @ showTenths (nat (roundDiv (10 * \<bar>fnum x\<bar>) (fden x)))"

text \<open>The loop of \<open>Bytes\<close> that chooses the unit.\<close>

function unitLoop :: "int \<Rightarrow> int \<Rightarrow> nat \<Rightarrow> int \<times> nat" where
  "unitLoop x dv ex = (if x \<ge> 1024 then unitLoop (x div 1024) (dv * 1024) (ex + 1) else (dv, ex))"
  by auto
termination by (relation "measure (\<lambda>(x, _, _). nat x)") auto

declare unitLoop.simps [simp del]

definition units :: "string list" where "units = [''KB'', ''MB'', ''GB'', ''TB'', ''PB'']"

definition Bytes :: "int \<Rightarrow> string" where
  "Bytes n =
     (if n < 1024 then showInt n @ '' B''
      else let (dv, ex) = unitLoop (n div 1024) 1024 0;
               ex' = (if ex \<ge> length units then length units - 1 else ex)
           in fmt1 (f64_div (f64_of n) (f64_of dv)) @ '' '' @ units ! ex')"

definition Second :: int where "Second = 1000000000"
definition Minute :: int where "Minute = 60 * Second"

text \<open>\<^verbatim>\<open>Duration.Seconds\<close> of a duration in nanoseconds.\<close>

definition Seconds :: "int \<Rightarrow> f64" where
  "Seconds d = f64_add (f64_of (sgn d * (\<bar>d\<bar> div Second))) (f64_div (f64_of (sgn d * (\<bar>d\<bar> mod Second))) (f64_of Second))"

definition emDash :: string where "emDash = [CHR 0xE2, CHR 0x80, CHR 0x94]"

definition Rate :: "int \<Rightarrow> int \<Rightarrow> int \<Rightarrow> string" where
  "Rate oor n d =
     (if d \<le> 0 then emDash else Bytes (toInt64 oor (f64_div (f64_of n) (Seconds d))) @ ''/s'')"

definition Dur :: "int \<Rightarrow> string" where
  "Dur d =
     (if d < Second then showInt (sgn d * (\<bar>d\<bar> div 1000000)) @ ''ms''
      else if d < Minute then fmt1 (Seconds d) @ ''s''
      else showInt (d div Minute) @ ''m'' @ showInt ((d mod Minute) div Second) @ ''s'')"

section \<open>Parsing\<close>

definition ToUpper :: "string \<Rightarrow> string" where
  "ToUpper s = map (\<lambda>c. if of_char c \<ge> (97 :: nat) \<and> of_char c \<le> (122 :: nat) then char_of (of_char c - (32 :: nat)) else c) s"

definition TrimSuffix :: "string \<Rightarrow> string \<Rightarrow> string" where
  "TrimSuffix s x = (if suffix x s then take (length s - length x) s else s)"

text \<open>
  \<open>parseFloat\<close> is \<^verbatim>\<open>strconv.ParseFloat\<close>: an error, a finite number, or \<open>None\<close> for an infinity or a NaN.
\<close>

definition ParseSize :: "(string \<Rightarrow> f64 option result) \<Rightarrow> int \<Rightarrow> string \<Rightarrow> int result" where
  "ParseSize parseFloat oor s =
     (let s1 = TrimSpace (ToUpper s);
          (mult, s2) =
            (if suffix ''KB'' s1 then (1024, TrimSuffix s1 ''KB'')
             else if suffix ''MB'' s1 then (1024 * 1024, TrimSuffix s1 ''MB'')
             else if suffix ''GB'' s1 then (1024 * 1024 * 1024, TrimSuffix s1 ''GB'')
             else if suffix ''B'' s1 then (1, TrimSuffix s1 ''B'')
             else (1, s1))
      in case parseFloat (TrimSpace s2) of
           Inl e \<Rightarrow> Inl (Wrap ''humanize: bad size'' e)
         | Inr None \<Rightarrow> Inr oor
         | Inr (Some f) \<Rightarrow> Inr (toInt64 oor (f64_mul f (f64_of mult))))"

section \<open>Progress and prompt\<close>

text \<open>A field padded with blanks on the right or on the left.\<close>

definition padRight :: "nat \<Rightarrow> string \<Rightarrow> string" where
  "padRight w s = s @ replicate (w - length s) (CHR '' '')"

definition padLeft :: "nat \<Rightarrow> string \<Rightarrow> string" where
  "padLeft w s = replicate (w - length s) (CHR '' '') @ s"

text \<open>\<open>None\<close> is the panic of \<^verbatim>\<open>strings.Repeat\<close> on a negative count.\<close>

definition formatProgress :: "int \<Rightarrow> int \<Rightarrow> string option" where
  "formatProgress done tot =
     (if tot > 0 then
        (let pct = f64_mul (f64_div (f64_of done) (f64_of tot)) (f64_of 100);
             bars0 = f64_trunc (f64_div pct (f64_of 5));
             bars = (if bars0 > 20 then 20 else bars0)
         in if bars < 0 then None
            else Some (''['' @ padRight 20 (replicate (nat bars) (CHR ''='')) @ ''] '' @ padLeft 5 (fmt1 pct) @ ''% ('' @
                       Bytes done @ '' / '' @ Bytes tot @ '')''))
      else Some (Bytes done))"

definition ToLower :: "string \<Rightarrow> string" where
  "ToLower s = map (\<lambda>c. if of_char c \<ge> (65 :: nat) \<and> of_char c \<le> (90 :: nat) then char_of (of_char c + (32 :: nat)) else c) s"

text \<open>The answer is what is on standard input up to the end of the line; an unterminated line counts too.\<close>

definition promptOverwrite :: "string \<Rightarrow> bool" where
  "promptOverwrite stdin =
     (let line = TrimSpace (ToLower (takeWhile (\<lambda>c. c \<noteq> nl) stdin)) in line = ''y'' \<or> line = ''yes'')"

section \<open>Rounding\<close>

lemma roundDiv_exact: "q > 0 \<Longrightarrow> roundDiv (m * q) q = m"
  by (simp add: roundDiv_def Let_def)

lemma roundDiv_scale:
  assumes "c > 0" "q > 0"
  shows "roundDiv (p * c) (q * c) = roundDiv p q"
proof -
  have d: "(p * c) div (q * c) = p div q" "(p * c) mod (q * c) = (p mod q) * c"
    using assms by (simp_all add: mult_mod_left)
  have "2 * ((p mod q) * c) < q * c \<longleftrightarrow> 2 * (p mod q) < q" "2 * ((p mod q) * c) = q * c \<longleftrightarrow> 2 * (p mod q) = q"
    using assms(1) mult_less_cancel_right_pos [of c "2 * (p mod q)" q] by (simp_all add: mult.assoc)
  then show ?thesis by (simp only: roundDiv_def Let_def d)
qed

lemma roundDiv_error: "q > 0 \<Longrightarrow> \<bar>2 * (roundDiv p q * q - p)\<bar> \<le> q"
proof -
  assume q: "q > 0"
  have p: "(p div q) * q - p = - (p mod q)" "(p div q + 1) * q - p = q - p mod q"
    using div_mult_mod_eq [of p q] unfolding distrib_right mult_1 by linarith+
  have m: "0 \<le> p mod q" "p mod q < q" using q by simp_all
  show ?thesis
  proof (cases "2 * (p mod q) < q \<or> (2 * (p mod q) = q \<and> even (p div q))")
    case True
    then have "roundDiv p q * q - p = - (p mod q)" using p(1) by (simp only: roundDiv_def Let_def if_True simp_thms)
    moreover have "\<bar>2 * - (p mod q)\<bar> \<le> q" using True m by auto
    ultimately show ?thesis by (simp only:)
  next
    case False
    then have "roundDiv p q * q - p = q - p mod q" using p(2) by (simp only: roundDiv_def Let_def if_False simp_thms)
    moreover have "\<bar>2 * (q - p mod q)\<bar> \<le> q" using False m by auto
    ultimately show ?thesis by (simp only:)
  qed
qed

lemma roundDiv_bounds:
  assumes "q > 0" "a * q \<le> p" "p < b * q"
  shows "a \<le> roundDiv p q" "roundDiv p q \<le> b"
proof -
  have "a \<le> p div q" using zdiv_mono1 [OF assms(2,1)] assms(1) by simp
  moreover have "p div q < b"
  proof -
    have "(p div q) * q \<le> p" using assms(1) div_mult_mod_eq [of p q] pos_mod_sign [of q p] by linarith
    then have "(p div q) * q < b * q" using assms(3) by linarith
    then show ?thesis using assms(1) by simp
  qed
  ultimately show "a \<le> roundDiv p q" "roundDiv p q \<le> b" by (auto simp: roundDiv_def Let_def)
qed

lemma scaled_scale: "scaled (p * c) (q * c) e = (fst (scaled p q e) * c, snd (scaled p q e) * c)"
  by (simp add: scaled_def)

lemma scaled_pos: "q > 0 \<Longrightarrow> snd (scaled p q e) > 0"
  by (simp add: scaled_def)

lemma f64_round_scale:
  assumes "q > 0"
  shows "f64_round (p * 2 ^ j) (q * 2 ^ j) = f64_round p q"
proof (cases "p = 0")
  case False
  have b: "bitlen (\<bar>p\<bar> * 2 ^ j) - bitlen (q * 2 ^ j) = bitlen \<bar>p\<bar> - bitlen q" using False assms by simp
  have a: "\<bar>p * 2 ^ j\<bar> = \<bar>p\<bar> * 2 ^ j" by (simp add: abs_mult)
  have "(fst x * 2 ^ j) div (snd x * 2 ^ j) = fst x div snd x" for x :: "int \<times> int" by simp
  then show ?thesis
    using False roundDiv_scale [OF _ scaled_pos [OF assms], of "2 ^ j"]
    by (simp only: f64_round_def Let_def a b scaled_scale fst_conv snd_conv) (simp add: sgn_mult)
qed (simp add: f64_round_def)

text \<open>A number with at most 53 significant bits is represented exactly.\<close>

lemma scaled_exact:
  assumes "int a - e = int i + int b"
  shows "\<exists>c>0. scaled (n * 2 ^ a) (2 ^ b) e = (n * 2 ^ i * c, c)"
proof (cases "e \<ge> 0")
  case True
  then have "a = i + (b + nat e)" using assms by auto
  then show ?thesis using True by (intro exI [of _ "2 ^ (b + nat e)"]) (simp add: scaled_def power_add)
next
  case False
  then have "a + nat (- e) = i + b" using assms by auto
  then have "(2 :: int) ^ a * 2 ^ nat (- e) = 2 ^ i * 2 ^ b" by (metis power_add)
  then show ?thesis using False by (intro exI [of _ "2 ^ b"]) (simp add: scaled_def mult.assoc)
qed

lemma bitlen_range:
  assumes "0 < n" "n < 2 ^ 53"
  obtains l where "bitlen n = int l" "0 < l" "l \<le> 53" "2 ^ 53 \<le> n * 2 ^ (54 - l)"
proof -
  define l where "l = nat (bitlen n)"
  have b: "bitlen n = int l" by (simp add: l_def bitlen_nonneg)
  have "bitlen n \<le> 53" using assms(2) by (simp add: bitlen_le_iff_power)
  then have l: "l \<le> 53" by (simp add: l_def)
  have pos: "0 < l" using assms(1) bitlen_eq_zero_iff [of n] bitlen_nonneg [of n] by (simp add: l_def)
  have "2 ^ (l - 1) \<le> n" using bitlen_bounds [OF assms(1)] pos by (simp add: l_def nat_diff_distrib)
  then have "2 ^ (l - 1) * 2 ^ (54 - l) \<le> n * 2 ^ (54 - l)" by (rule mult_right_mono) simp
  moreover have "(2 :: int) ^ (l - 1) * 2 ^ (54 - l) = 2 ^ 53" using l pos by (simp flip: power_add)
  ultimately have "2 ^ 53 \<le> n * 2 ^ (54 - l)" by (simp only:)
  with that b pos l show thesis by blast
qed

lemma f64_round_exact:
  assumes "0 < n" "n < 2 ^ 53"
  shows "\<exists>i. f64_round (n * 2 ^ a) (2 ^ b) = (n * 2 ^ i, int a - int b - int i)"
proof -
  obtain l where l: "bitlen n = int l" "0 < l" "l \<le> 53" "2 ^ 53 \<le> n * 2 ^ (54 - l)" by (rule bitlen_range [OF assms])
  let ?e0 = "int l + int a - (int b + 1) - 53"
  have bl: "bitlen (n * 2 ^ a) = int l + int a" "bitlen (2 ^ b) = int b + 1"
    using assms(1) l(1) bitlen_pow2 [of 1 b] by (simp_all add: compute_bitlen [of 1])
  obtain c where c: "c > 0" "scaled (n * 2 ^ a) (2 ^ b) ?e0 = (n * 2 ^ (54 - l) * c, c)"
    using scaled_exact [of a ?e0 "54 - l" b n] l(2,3) by auto
  obtain d where d: "d > 0" "scaled (n * 2 ^ a) (2 ^ b) (?e0 + 1) = (n * 2 ^ (53 - l) * d, d)"
    using scaled_exact [of a "?e0 + 1" "53 - l" b n] l(2,3) by auto
  have big: "2 ^ 53 \<le> fst (scaled (n * 2 ^ a) (2 ^ b) ?e0) div snd (scaled (n * 2 ^ a) (2 ^ b) ?e0)"
    using c l(4) by simp
  have pos: "n * 2 ^ a > 0" using assms(1) by simp
  have "f64_round (n * 2 ^ a) (2 ^ b) = (n * 2 ^ (53 - l), ?e0 + 1)"
    using pos big roundDiv_exact [OF d(1), of "n * 2 ^ (53 - l)"] less_imp_neq [OF pos]
    by (simp only: f64_round_def Let_def bl abs_of_pos if_True if_False d(2) fst_conv snd_conv sgn_pos mult_1) simp
  then show ?thesis using l(2,3) by (intro exI [of _ "53 - l"]) auto
qed

lemma f64_round_value:
  assumes "0 < n" "n < 2 ^ 53"
  shows "fnum (f64_round (n * 2 ^ a) (2 ^ b)) * 2 ^ b = n * 2 ^ a * fden (f64_round (n * 2 ^ a) (2 ^ b))"
    "fst (f64_round (n * 2 ^ a) (2 ^ b)) > 0"
proof -
  obtain i where i: "f64_round (n * 2 ^ a) (2 ^ b) = (n * 2 ^ i, int a - int b - int i)"
    using f64_round_exact [OF assms] by blast
  show "fst (f64_round (n * 2 ^ a) (2 ^ b)) > 0" using assms(1) by (simp add: i)
  have "nat (int a - int b - int i) + i + b = a + nat (- (int a - int b - int i))" by auto
  then have "(2 :: int) ^ nat (int a - int b - int i) * 2 ^ i * 2 ^ b = 2 ^ a * 2 ^ nat (- (int a - int b - int i))"
    by (metis power_add)
  then show "fnum (f64_round (n * 2 ^ a) (2 ^ b)) * 2 ^ b = n * 2 ^ a * fden (f64_round (n * 2 ^ a) (2 ^ b))"
    by (simp only: i fnum_def fden_def fst_conv snd_conv) (simp add: ac_simps)
qed

section \<open>Sizes\<close>

text \<open>A float with the value of an integer.\<close>

definition holds :: "f64 \<Rightarrow> int \<Rightarrow> bool" where
  "holds x n \<longleftrightarrow> fnum x = n * fden x"

lemma f64_of_holds: "0 < n \<Longrightarrow> n < 2 ^ 53 \<Longrightarrow> holds (f64_of (n * 2 ^ k)) (n * 2 ^ k)"
  using f64_round_value(1) [of n k 0] by (simp add: f64_of_def holds_def)

lemmas f64_of_int = f64_of_holds [where k = 0, simplified]
lemmas f64_of_power = f64_of_holds [where n = 1, simplified]

text \<open>Dividing by a power of two is exact.\<close>

lemma f64_div_power:
  assumes "holds a n" "holds b (2 ^ k)" "0 < n" "n < 2 ^ 53"
  shows "fnum (f64_div a b) * 2 ^ k = n * fden (f64_div a b)" "fst (f64_div a b) > 0"
proof -
  obtain i j where ij: "fden a = 2 ^ i" "fden b = 2 ^ j" by (auto simp: fden_def)
  have "f64_div a b = f64_round (n * 2 ^ (i + j)) (2 ^ k * 2 ^ (i + j))"
    using assms(1,2) ij by (simp add: f64_div_def holds_def power_add ac_simps)
  then have r: "f64_div a b = f64_round n (2 ^ k)" using f64_round_scale [of "2 ^ k" n "i + j"] by simp
  show "fnum (f64_div a b) * 2 ^ k = n * fden (f64_div a b)" "fst (f64_div a b) > 0"
    unfolding r using f64_round_value [OF assms(3,4), of 0 k] by simp_all
qed

lemma fmt1_power:
  assumes "fnum x * 2 ^ k = n * fden x" "fst x > 0"
  shows "fmt1 x = showTenths (nat (roundDiv (10 * n) (2 ^ k)))"
proof -
  have d: "fden x > 0" by (simp add: fden_def)
  have "roundDiv (10 * fnum x) (fden x) = roundDiv (10 * fnum x * 2 ^ k) (fden x * 2 ^ k)"
    using roundDiv_scale [OF _ d, of "2 ^ k" "10 * fnum x"] by simp
  also have "10 * fnum x * 2 ^ k = 10 * n * fden x" using assms(1) by simp
  also have "roundDiv (10 * n * fden x) (fden x * 2 ^ k) = roundDiv (10 * n) (2 ^ k)"
    using roundDiv_scale [OF d, of "2 ^ k" "10 * n"] by (simp add: mult.commute)
  finally show ?thesis using assms(2) by (simp add: fmt1_def fnum_def abs_mult)
qed

lemma unitLoop_spec:
  assumes "0 < x"
  shows "\<exists>j. unitLoop x dv ex = (dv * 1024 ^ j, ex + j) \<and> 1024 ^ j \<le> x \<and> x < 1024 ^ (j + 1)"
  using assms
proof (induction x dv ex rule: unitLoop.induct)
  case (1 x dv ex)
  show ?case
  proof (cases "x \<ge> 1024")
    case True
    have pos: "0 < x div 1024" using True by simp
    obtain j where j: "unitLoop (x div 1024) (dv * 1024) (ex + 1) = (dv * 1024 * 1024 ^ j, ex + 1 + j)"
      "1024 ^ j \<le> x div 1024" "x div 1024 < 1024 ^ (j + 1)"
      using "1.IH" [OF True pos] by blast
    have "x = x div 1024 * 1024 + x mod 1024" by simp
    moreover have "0 \<le> x mod 1024" "x mod 1024 < 1024" by simp_all
    ultimately have "1024 ^ j * 1024 \<le> x" "x < 1024 ^ (j + 1) * 1024" using j(2,3) by linarith+
    then show ?thesis using True j(1) by (intro exI [of _ "Suc j"]) (simp add: unitLoop.simps [of x])
  next
    case False
    then show ?thesis using "1.prems" by (intro exI [of _ 0]) (simp add: unitLoop.simps [of x])
  qed
qed

text \<open>A whole number times a power of two.\<close>

lemma f64_mul_power:
  assumes "holds a n" "holds b (2 ^ k)" "0 < n" "n < 2 ^ 53"
  shows "holds (f64_mul a b) (n * 2 ^ k)"
proof -
  obtain i j where ij: "fden a = 2 ^ i" "fden b = 2 ^ j" by (auto simp: fden_def)
  have "f64_mul a b = f64_round (n * 2 ^ k * 2 ^ (i + j)) (1 * 2 ^ (i + j))"
    using assms(1,2) ij by (simp add: f64_mul_def holds_def power_add ac_simps)
  then have "f64_mul a b = f64_of (n * 2 ^ k)" using f64_round_scale [of 1 "n * 2 ^ k" "i + j"] by (simp add: f64_of_def)
  then show ?thesis using f64_of_holds [OF assms(3,4)] by simp
qed

lemma toInt64_holds: "holds x n \<Longrightarrow> 0 \<le> n \<Longrightarrow> n < 2 ^ 63 \<Longrightarrow> toInt64 oor x = n"
proof -
  assume x: "holds x n" "0 \<le> n" "n < 2 ^ 63"
  have "fden x > 0" by (simp add: fden_def)
  then have "f64_trunc x = n" using x(1,2) by (cases "n = 0") (simp_all add: f64_trunc_def holds_def sgn_mult)
  then show ?thesis using x by (simp add: toInt64_def)
qed

section \<open>Properties\<close>

text \<open>
  C38: A printed size is right to half a tenth. For every size from 1024 bytes to below \<open>2 ^ 53\<close>, the unit is
  the largest that is not above the size, and the number printed with one decimal, between 1.0 and 1024.0,
  is the nearest to the quotient; float arithmetic loses nothing. Beyond the largest unit the number is
  divided on while the unit is not: \<open>2 ^ 60\<close> bytes are printed as one petabyte.
\<close>

theorem bytes_accurate:
  assumes "1024 \<le> n" and "n < 2 ^ 53"
  shows "(\<exists>k t. k < 5 \<and> 1024 ^ (k + 1) \<le> n \<and> n < 1024 ^ (k + 2) \<and> Bytes n = showTenths t @ '' '' @ units ! k \<and>
      10 \<le> t \<and> t \<le> 10240 \<and> \<bar>2 * (int t * 1024 ^ (k + 1) - 10 * n)\<bar> \<le> 1024 ^ (k + 1)) \<and>
    Bytes (2 ^ 60) = ''1.0 PB'' \<and> Bytes 1048575 = ''1024.0 KB''"
proof (intro conjI)
  have pos: "0 < n div 1024" using assms(1) by simp
  obtain j where j: "unitLoop (n div 1024) 1024 0 = (1024 * 1024 ^ j, 0 + j)" "1024 ^ j \<le> n div 1024" "n div 1024 < 1024 ^ (j + 1)"
    using unitLoop_spec [OF pos] by blast
  have range: "1024 ^ (j + 1) \<le> n" "n < 1024 ^ (j + 2)"
  proof -
    have "n = n div 1024 * 1024 + n mod 1024" "0 \<le> n mod 1024" "n mod 1024 < 1024" by simp_all
    then have "1024 ^ j * 1024 \<le> n" "n < 1024 ^ (j + 1) * 1024" using j(2,3) by linarith+
    then show "1024 ^ (j + 1) \<le> n" "n < 1024 ^ (j + 2)" by simp_all
  qed
  have p2: "(1024 :: int) ^ (j + 1) = 2 ^ (10 * j + 10)" using power_mult [of "2 :: int" 10 "j + 1"] by (simp add: algebra_simps)
  have "(2 :: int) ^ (10 * j + 10) < 2 ^ 53" using range(1) assms(2) p2 by linarith
  then have "10 * j + 10 < 53" by (rule power_less_imp_less_exp [rotated]) simp
  then have j5: "j < 5" by simp
  let ?t = "nat (roundDiv (10 * n) (1024 ^ (j + 1)))"
  have "fmt1 (f64_div (f64_of n) (f64_of (2 ^ (10 * j + 10)))) = showTenths (nat (roundDiv (10 * n) (2 ^ (10 * j + 10))))"
    using fmt1_power [OF f64_div_power [OF f64_of_int f64_of_power]] assms by simp
  then have B: "Bytes n = showTenths ?t @ '' '' @ units ! j"
    using assms(1) j(1) j5 p2 by (simp add: Bytes_def units_def)
  have "10 * 1024 ^ (j + 1) \<le> 10 * n" "10 * n < 10240 * 1024 ^ (j + 1)" using range by simp_all
  then have tb: "10 \<le> roundDiv (10 * n) (1024 ^ (j + 1))" "roundDiv (10 * n) (1024 ^ (j + 1)) \<le> 10240"
    using roundDiv_bounds [of "1024 ^ (j + 1)" 10 "10 * n" 10240] by simp_all
  have near: "\<bar>2 * (int ?t * 1024 ^ (j + 1) - 10 * n)\<bar> \<le> 1024 ^ (j + 1)"
    using roundDiv_error [of "1024 ^ (j + 1)" "10 * n"] tb(1) by simp
  have tn: "10 \<le> ?t" "?t \<le> 10240" using tb by linarith+
  show "\<exists>k t. k < 5 \<and> 1024 ^ (k + 1) \<le> n \<and> n < 1024 ^ (k + 2) \<and> Bytes n = showTenths t @ '' '' @ units ! k \<and>
      10 \<le> t \<and> t \<le> 10240 \<and> \<bar>2 * (int t * 1024 ^ (k + 1) - 10 * n)\<bar> \<le> 1024 ^ (k + 1)"
    by (rule exI [of _ j], rule exI [of _ ?t], intro conjI) (fact j5 range B tn near)+
  show "Bytes (2 ^ 60) = ''1.0 PB''" by code_simp
  let ?x = "f64_div (f64_of 1048575) (f64_of 1024)"
  have "unitLoop (1048575 div 1024) 1024 0 = (1024, 0)" by (simp add: unitLoop.simps)
  moreover have "roundDiv (10 * \<bar>fnum ?x\<bar>) (fden ?x) = 10240" "\<not> fst ?x < 0" by code_simp+
  moreover have "showTenths 10240 = ''1024.0''" by (simp add: showTenths_def decimal.simps) code_simp
  ultimately show "Bytes 1048575 = ''1024.0 KB''" by (simp add: Bytes_def fmt1_def units_def)
qed

theorem bytes_accurate_witness: "\<exists>k t. Bytes 1536 = showTenths t @ '' '' @ units ! k \<and> \<bar>2 * (int t * 1024 ^ (k + 1) - 15360)\<bar> \<le> 1024 ^ (k + 1)"
  using bytes_accurate [of 1536] by auto

text \<open>Text around a number.\<close>

lemma ToUpper_append: "ToUpper (s @ t) = ToUpper s @ ToUpper t"
  by (simp add: ToUpper_def)

lemma ToUpper_id: "\<forall>c\<in>set s. of_char c < (97 :: nat) \<Longrightarrow> ToUpper s = s"
  by (induction s) (auto simp: ToUpper_def)

lemma isSpace_small: "isSpace c \<Longrightarrow> of_char c < (97 :: nat)"
  by (auto simp: isSpace_def)

lemma TrimSpace_around:
  assumes "list_all isSpace a" "list_all isSpace b" "s \<noteq> []" "\<not> isSpace (hd s)" "\<not> isSpace (last s)"
  shows "TrimSpace (a @ s @ b) = s"
proof -
  have "dropWhile isSpace (a @ s @ b) = s @ b"
    using assms(1,3,4) by (induction a) (cases s; simp)+
  moreover have "dropWhile isSpace (rev b @ rev s) = rev s"
  proof -
    have "dropWhile isSpace (rev b @ rev s) = dropWhile isSpace (rev s)"
      using assms(2) by (intro dropWhile_append2) (simp add: list_all_iff)
    then show ?thesis using assms(3,5) by (cases "rev s") (auto simp: last_rev hd_rev [symmetric])
  qed
  ultimately show ?thesis by (simp add: TrimSpace_def)
qed

text \<open>The units \<open>ParseSize\<close> knows.\<close>

definition sizeUnits :: "(string \<times> nat) list" where
  "sizeUnits = [([], 0), (''B'', 0), (''KB'', 10), (''MB'', 20), (''GB'', 30)]"

lemma suffix_other: "length u = length v \<Longrightarrow> suffix u (x @ v) \<longleftrightarrow> u = v"
  by (auto simp: suffix_def)

lemma suffix_KB_digit: "x \<noteq> [] \<Longrightarrow> last x \<noteq> c \<Longrightarrow> \<not> suffix [c, d] (x @ [e])"
  by (cases x rule: rev_cases) (auto simp: suffix_def)

lemma not_suffix_last: "x \<noteq> [] \<Longrightarrow> last x \<noteq> last u \<Longrightarrow> u \<noteq> [] \<Longrightarrow> \<not> suffix u x"
  by (auto simp: suffix_def)

lemma TrimSuffix_append: "TrimSuffix (x @ u) u = x"
  by (simp add: TrimSuffix_def suffix_def)

text \<open>The unit is recognised after a text that does not end in a letter.\<close>

lemma ParseSize_unit:
  assumes "(u, k) \<in> set sizeUnits" "x \<noteq> []" "last x \<notin> set ''KMGB''" "TrimSpace (ToUpper s) = x @ u"
  shows "ParseSize parseFloat oor s =
    (case parseFloat (TrimSpace x) of
       Inl e \<Rightarrow> Inl (Wrap ''humanize: bad size'' e)
     | Inr None \<Rightarrow> Inr oor
     | Inr (Some f) \<Rightarrow> Inr (toInt64 oor (f64_mul f (f64_of (2 ^ k)))))"
proof -
  have x: "\<not> suffix ''KB'' (x @ ''B'')" "\<not> suffix ''MB'' (x @ ''B'')" "\<not> suffix ''GB'' (x @ ''B'')"
    using suffix_KB_digit [OF assms(2)] assms(3) by auto
  have "\<not> suffix v x" if "last v = CHR ''B''" "v \<noteq> []" for v
    using not_suffix_last [OF assms(2) _ that(2)] assms(3) that(1) by auto
  then show ?thesis
    using assms(1) x
    by (auto simp: ParseSize_def assms(4) sizeUnits_def suffix_other TrimSuffix_append split: sum.splits option.splits)
qed

text \<open>
  Sizes are read as they are written. A positive whole number of up to 53 bits, with any of the units B,
  KB, MB and GB in any letter case or none, and blanks around either, is that number of units, exactly. The
  largest units \<open>Bytes\<close> prints are not understood: its text for a terabyte is rejected.
\<close>

theorem parse_size_units:
  assumes "(u, k) \<in> set sizeUnits" and "ToUpper v = u" and "list_all isSpace a" and "list_all isSpace b" and "list_all isSpace c"
    and "0 < n" and "n < 2 ^ 53" and "int n * 2 ^ k < 2 ^ 63"
    and "parseFloat (decimal n) = Inr (Some x)" and "fnum x = int n * fden x" and "parseFloat ''1.0 T'' = Inl e"
  shows "ParseSize parseFloat oor (a @ decimal n @ c @ v @ b) = Inr (int n * 2 ^ k) \<and>
    ParseSize parseFloat oor (Bytes (2 ^ 40)) = Inl (Wrap ''humanize: bad size'' e)"
proof
  have dig: "\<forall>ch\<in>set (decimal n). \<not> isSpace ch \<and> ch \<notin> set ''KMGB'' \<and> of_char ch < (97 :: nat)"
    using decimal_digit [of _ n] by (force simp: isSpace_def)
  have hl: "hd (decimal n) \<in> set (decimal n)" "last (decimal n) \<in> set (decimal n)" using decimal_nonempty by simp_all
  have sp: "ToUpper y = y" if "list_all isSpace y" for y using that isSpace_small by (intro ToUpper_id) (auto simp: list_all_iff)
  have up: "ToUpper (a @ decimal n @ c @ v @ b) = a @ decimal n @ c @ u @ b"
    using sp [OF assms(3)] sp [OF assms(4)] sp [OF assms(5)] assms(2) ToUpper_id [of "decimal n"] dig by (simp add: ToUpper_append)
  define y where "y = (if u = [] then decimal n else decimal n @ c)"
  have "TrimSpace (a @ decimal n @ c @ u @ b) = y @ u"
  proof (cases "u = []")
    case True
    then show ?thesis
      using TrimSpace_around [OF assms(3), of "c @ b" "decimal n"] assms(4,5) dig hl decimal_nonempty by (simp add: y_def)
  next
    case False
    then have "\<not> isSpace (last u)" using assms(1) by (auto simp: sizeUnits_def isSpace_def)
    then show ?thesis
      using TrimSpace_around [OF assms(3,4), of "decimal n @ c @ u"] dig hl decimal_nonempty False by (simp add: y_def)
  qed
  moreover have "last y \<notin> set ''KMGB''"
  proof (cases "u = [] \<or> c = []")
    case True
    then have "last y = last (decimal n)" by (auto simp: y_def)
    then show ?thesis using dig hl(2) by simp
  next
    case False
    then have "isSpace (last y)" using assms(5) by (simp add: y_def list_all_iff)
    then show ?thesis by (auto simp: isSpace_def)
  qed
  moreover have "TrimSpace y = decimal n"
    using TrimSpace_around [of "[]" "[]" "decimal n"] TrimSpace_around [of "[]" c "decimal n"] assms(5) dig hl decimal_nonempty
    by (cases "u = []") (simp_all add: y_def)
  moreover have "toInt64 oor (f64_mul x (f64_of (2 ^ k))) = int n * 2 ^ k"
    using assms(6-8,10) by (intro toInt64_holds f64_mul_power f64_of_power) (simp_all add: holds_def)
  ultimately show "ParseSize parseFloat oor (a @ decimal n @ c @ v @ b) = Inr (int n * 2 ^ k)"
    using ParseSize_unit [OF assms(1), of y] up assms(9) decimal_nonempty by (simp add: y_def)
  have "Bytes (2 ^ 40) = ''1.0 TB''" "TrimSpace (ToUpper ''1.0 TB'') = ''1.0 T'' @ ''B''" "TrimSpace ''1.0 T'' = ''1.0 T''"
    by code_simp+
  then show "ParseSize parseFloat oor (Bytes (2 ^ 40)) = Inl (Wrap ''humanize: bad size'' e)"
    using ParseSize_unit [of "''B''" 0 "''1.0 T''" "''1.0 TB''"] assms(11) by (simp add: sizeUnits_def)
qed


text \<open>The progress line never panics on counts that are not negative, whatever the total.\<close>

lemma f64_round_sign: "q > 0 \<Longrightarrow> p \<ge> 0 \<Longrightarrow> fst (f64_round p q) \<ge> 0"
proof -
  assume "q > 0" "p \<ge> 0"
  moreover have "fst (scaled \<bar>p\<bar> q e) \<ge> 0" for e by (simp add: scaled_def)
  moreover have "roundDiv a b \<ge> 0" if "a \<ge> 0" "b > 0" for a b
    using that by (simp add: roundDiv_def Let_def pos_imp_zdiv_nonneg_iff add_nonneg_nonneg)
  ultimately show ?thesis using scaled_pos [of q] by (auto simp: f64_round_def Let_def intro!: mult_nonneg_nonneg)
qed

lemma f64_nonneg:
  "n \<ge> 0 \<Longrightarrow> fst (f64_of n) \<ge> 0"
  "fst a \<ge> 0 \<Longrightarrow> fst b \<ge> 0 \<Longrightarrow> fst (f64_div a b) \<ge> 0"
  "fst a \<ge> 0 \<Longrightarrow> fst b \<ge> 0 \<Longrightarrow> fst (f64_mul a b) \<ge> 0"
proof -
  show "n \<ge> 0 \<Longrightarrow> fst (f64_of n) \<ge> 0" by (simp add: f64_of_def f64_round_sign)
  assume ab: "fst a \<ge> 0" "fst b \<ge> 0"
  have d: "fden a > 0" "fden b > 0" by (simp_all add: fden_def)
  have n: "fnum a \<ge> 0" "fnum b \<ge> 0" using ab by (simp_all add: fnum_def)
  show "fst (f64_mul a b) \<ge> 0" using n d by (simp add: f64_mul_def f64_round_sign)
  show "fst (f64_div a b) \<ge> 0"
  proof (cases "fnum b = 0")
    case True
    then show ?thesis by (simp add: f64_div_def f64_round_def)
  next
    case False
    then show ?thesis using n d by (simp add: f64_div_def f64_round_sign)
  qed
qed

theorem progress_never_panics:
  assumes "0 \<le> done"
  shows "\<exists>line. formatProgress done tot = Some line"
proof (cases "tot > 0")
  case True
  let ?pct = "f64_mul (f64_div (f64_of done) (f64_of tot)) (f64_of 100)"
  have "fst (f64_div ?pct (f64_of 5)) \<ge> 0" using assms True by (intro f64_nonneg) simp_all
  then have "f64_trunc (f64_div ?pct (f64_of 5)) \<ge> 0" by (simp add: f64_trunc_def fnum_def sgn_if fden_def pos_imp_zdiv_nonneg_iff)
  then show ?thesis using True by (simp add: formatProgress_def Let_def)
qed (simp add: formatProgress_def)

theorem parse_size_units_witness:
  "ParseSize (\<lambda>s. if s = ''10'' then Inr (Some (10, 0)) else Inl (Errorf ''invalid syntax'')) 0 ('' '' @ decimal 10 @ '' '' @ ''Mb'' @ []) = Inr (10 * 2 ^ 20)"
proof -
  have "decimal 10 = ''10''" by (simp add: decimal.simps) code_simp
  moreover have "ToUpper ''Mb'' = ''MB''" by code_simp
  ultimately show ?thesis
    using parse_size_units [of "''MB''" 20 "''Mb''" "'' ''" "[]" "'' ''" 10
      "\<lambda>s. if s = ''10'' then Inr (Some (10, 0)) else Inl (Errorf ''invalid syntax'')" "(10, 0)" "Errorf ''invalid syntax''" 0]
    by (simp add: sizeUnits_def isSpace_def fnum_def fden_def)
qed

end
