(* ===== verification/P2P_Bench.thy ===== *)
theory P2P_Bench
  imports App Humanize
begin

text \<open>
  The client's benchmark mode, \<^verbatim>\<open>cmd/p2p/bench.go\<close>: the list of sizes, the random payload files, the arguments,
  and the two sides of a benchmark session over the broker. Times are not modelled, only what is sent,
  received and reported as transferred or failed.
\<close>

section \<open>Sizes and payloads\<close>

definition defaultBenchSizes :: string where "defaultBenchSizes = ''1KB,64KB,1MB,10MB,50MB''"

fun splitComma :: "string \<Rightarrow> string list" where
  "splitComma [] = [[]]"
| "splitComma (c # cs) =
     (if c = CHR '','' then [] # splitComma cs
      else case splitComma cs of p # ps \<Rightarrow> (c # p) # ps | [] \<Rightarrow> [[c]])"

fun parseEntries :: "(string \<Rightarrow> f64 option result) \<Rightarrow> int \<Rightarrow> string list \<Rightarrow> int list result" where
  "parseEntries pf oor [] = Inr []"
| "parseEntries pf oor (p # ps) =
     (if TrimSpace p = [] then Inl (Errorf ''parseSizes: empty size entry'')
      else case ParseSize pf oor (TrimSpace p) of
             Inl e \<Rightarrow> Inl e
           | Inr n \<Rightarrow> (case parseEntries pf oor ps of Inl e \<Rightarrow> Inl e | Inr out \<Rightarrow> Inr (n # out)))"

definition parseSizes :: "(string \<Rightarrow> f64 option result) \<Rightarrow> int \<Rightarrow> string \<Rightarrow> int list result" where
  "parseSizes pf oor csv =
     (case parseEntries pf oor (splitComma csv) of
        Inl e \<Rightarrow> Inl e
      | Inr out \<Rightarrow> if out = [] then Inl (Errorf ''parseSizes: no sizes'') else Inr out)"

text \<open>
  Filling a file with random bytes in portions: \<open>rnd\<close> is the byte the generator gives for a position, \<open>rfail\<close> its
  failure at a position, \<open>wr\<close> what a write at a position fails with, after so many bytes. The contents and the error.
\<close>

definition randBuf :: nat where "randBuf = 64 * 1024"

function writeRandomLoop ::
  "(nat \<Rightarrow> byte) \<Rightarrow> (nat \<Rightarrow> error option) \<Rightarrow> (nat \<Rightarrow> write_fault) \<Rightarrow> nat \<Rightarrow> bytes \<Rightarrow> bytes \<times> error option" where
  "writeRandomLoop rnd rfail wr n written =
     (if length written \<ge> n then (written, None)
      else let want = min randBuf (n - length written);
               buf = map rnd [length written..<length written + want]
           in case rfail (length written) of
                Some e \<Rightarrow> (written, Some e)
              | None \<Rightarrow>
                  (case wr (length written) of
                     Some (k, e) \<Rightarrow> (written @ take k buf, Some e)
                   | None \<Rightarrow> writeRandomLoop rnd rfail wr n (written @ buf)))"
  by auto
termination
  by (relation "measure (\<lambda>(_, _, _, n, written). n - length written)") (auto simp: randBuf_def)

declare writeRandomLoop.simps [simp del]

definition writeRandomFile ::
  "error option \<Rightarrow> (nat \<Rightarrow> byte) \<Rightarrow> (nat \<Rightarrow> error option) \<Rightarrow> (nat \<Rightarrow> write_fault) \<Rightarrow> int \<Rightarrow> bytes \<times> error option" where
  "writeRandomFile create rnd rfail wr n =
     (case create of Some e \<Rightarrow> ([], Some e) | None \<Rightarrow> writeRandomLoop rnd rfail wr (nat n) [])"

section \<open>Arguments\<close>

text \<open>A bare first argument is the code of the other side's benchmark; otherwise a new one is generated.\<close>

definition benchRole :: "string \<Rightarrow> string list \<Rightarrow> string \<times> bool" where
  "benchRole generated args =
     (case args of
        a # _ \<Rightarrow> if \<not> prefix ''-'' a then (a, False) else (generated, True)
      | [] \<Rightarrow> (generated, True))"

fun takeDigits :: "string \<Rightarrow> nat option \<Rightarrow> nat option" where
  "takeDigits [] acc = acc"
| "takeDigits (c # cs) acc =
     (if of_char c \<ge> (48 :: nat) \<and> of_char c \<le> (57 :: nat)
      then takeDigits cs (Some (10 * (case acc of None \<Rightarrow> 0 | Some n \<Rightarrow> n) + (of_char c - 48))) else acc)"

text \<open>\<^verbatim>\<open>fmt.Sscanf\<close> with \<^verbatim>\<open>%d\<close>: a number at the start of the text, if it fits.\<close>

definition sscanfInt :: "string \<Rightarrow> int option" where
  "sscanfInt s =
     (let t = dropWhile (\<lambda>c. c = CHR '' '') s;
          (neg, ds) = (case t of c # cs \<Rightarrow> if c = CHR ''-'' then (True, cs) else if c = CHR ''+'' then (False, cs) else (False, t) | [] \<Rightarrow> (False, t))
      in case takeDigits ds None of
           None \<Rightarrow> None
         | Some n \<Rightarrow> let v = (if neg then - int n else int n) in if - (2 ^ 63) \<le> v \<and> v < 2 ^ 63 then Some v else None)"

fun scanBenchArgs :: "string list \<Rightarrow> string \<times> int \<Rightarrow> string \<times> int" where
  "scanBenchArgs [] acc = acc"
| "scanBenchArgs [a] acc = acc"
| "scanBenchArgs (a # b # rest) (sizesCSV, streamsN) =
     scanBenchArgs (b # rest)
       (if a = ''-sizes'' then b else sizesCSV,
        if a = ''-streams'' then (case sscanfInt b of Some n \<Rightarrow> n | None \<Rightarrow> streamsN) else streamsN)"

definition benchArgs :: "string list \<Rightarrow> string \<times> int" where
  "benchArgs args = scanBenchArgs args (defaultBenchSizes, 8)"

section \<open>A session over the broker\<close>

definition planMsg :: "int list \<Rightarrow> Msg" where
  "planMsg sizes = JsonMsg [(''t'', JStr ''bench''), (''sizes'', JNums sizes)]"

definition benchdone :: Msg where "benchdone = JsonMsg [(''t'', JStr ''benchdone'')]"

text \<open>Decoding a plan: the sizes, none when the field is missing.\<close>

definition unmarshalPlan :: "Msg \<Rightarrow> int list option" where
  "unmarshalPlan m =
     (case m of
        JsonMsg d \<Rightarrow>
          (case (strField d ''t'', map_of (rev d) ''sizes'') of
             (Some _, None) \<Rightarrow> Some []
           | (Some _, Some (JNums ns)) \<Rightarrow> if list_all (\<lambda>n. - (2 ^ 63) \<le> n \<and> n < 2 ^ 63) ns then Some ns else None
           | _ \<Rightarrow> None)
      | _ \<Rightarrow> None)"

definition payloadName :: "int \<Rightarrow> string" where "payloadName sz = ''payload-'' @ showInt sz @ ''.bin''"

text \<open>The inbound messages after the acknowledgement a sending has consumed.\<close>

definition afterDone :: "Msg list \<Rightarrow> Msg list" where
  "afterDone ms = tl (dropWhile (\<lambda>m. classify m \<noteq> ''done'') ms)"

text \<open>
  The initiator's transfers: for each size a payload file (its error, or what \<open>Send\<close> reads from it), then the
  transfer; the first failure ends the loop.
\<close>

fun initiatorLoop ::
  "(bytes \<Rightarrow> string) \<Rightarrow> 's sender \<Rightarrow> (int \<Rightarrow> source result) \<Rightarrow> inEnd \<Rightarrow> string \<Rightarrow> int list \<Rightarrow> Msg list \<Rightarrow> 's \<Rightarrow> 's \<times> (int \<times> Stats result) list" where
  "initiatorLoop sha256hex send file ie tmp [] inbound s = (s, [])"
| "initiatorLoop sha256hex send file ie tmp (sz # sizes) inbound s =
     (case file sz of
        Inl e \<Rightarrow> (s, [(sz, Inl e)])
      | Inr src \<Rightarrow>
          (case File_Transfer.Send sha256hex send inbound ie src [Join tmp (payloadName sz)] s of
             (s1, Inl e) \<Rightarrow> (s1, [(sz, Inl e)])
           | (s1, Inr st) \<Rightarrow>
               (case initiatorLoop sha256hex send file ie tmp sizes (afterDone inbound) s1 of
                  (s2, rs) \<Rightarrow> (s2, (sz, Inr st) # rs))))"

text \<open>A failure before the transfers ends the program.\<close>

definition runBenchInitiator ::
  "(string \<Rightarrow> f64 option result) \<Rightarrow> int \<Rightarrow> (bytes \<Rightarrow> string) \<Rightarrow> 's sender \<Rightarrow> (int \<Rightarrow> source result) \<Rightarrow> inEnd \<Rightarrow> string result \<Rightarrow> string \<Rightarrow> Msg list \<Rightarrow> 's
     \<Rightarrow> 's \<times> (int \<times> Stats result) list result" where
  "runBenchInitiator pf oor sha256hex send file ie mkTemp sizesCSV inbound s =
     (case parseSizes pf oor sizesCSV of
        Inl e \<Rightarrow> (s, Inl (Wrap ''sizes'' e))
      | Inr sizes \<Rightarrow>
          (case send s (planMsg sizes) of
             (s1, Some e) \<Rightarrow> (s1, Inl (Wrap ''plan'' e))
           | (s1, None) \<Rightarrow>
               (case mkTemp of
                  Inl e \<Rightarrow> (s1, Inl (Wrap ''tempdir'' e))
                | Inr tmp \<Rightarrow>
                    (case initiatorLoop sha256hex send file ie tmp sizes inbound s1 of
                       (s2, rs) \<Rightarrow> (fst (send s2 benchdone), Inr rs)))))"

text \<open>What a receiving leaves of the inbound messages: those after its trailer.\<close>

definition afterTrailer :: "Msg list \<Rightarrow> Msg list" where
  "afterTrailer ms = tl (dropWhile (\<lambda>m. classify m \<noteq> ''trailer'') ms)"

fun responderLoop ::
  "(bytes \<Rightarrow> string) \<Rightarrow> recvEnv \<Rightarrow> (bytes \<Rightarrow> tarEntry list \<times> error) \<Rightarrow> 's sender \<Rightarrow> string \<Rightarrow> nat \<Rightarrow> Msg list \<Rightarrow> fs \<Rightarrow> 's
     \<Rightarrow> fs \<times> 's \<times> (string \<times> Stats) result list" where
  "responderLoop sha256hex env untar send tmp 0 inbound f s = (f, s, [])"
| "responderLoop sha256hex env untar send tmp (Suc n) inbound f s =
     (case Receive sha256hex env untar (Some send) inbound tmp (Some (\<lambda>_. True)) f s of
        (f1, s1, Inl e) \<Rightarrow> (f1, s1, [Inl e])
      | (f1, s1, Inr r) \<Rightarrow>
          (case responderLoop sha256hex env untar send tmp n (afterTrailer inbound) f1 s1 of
             (f2, s2, rs) \<Rightarrow> (f2, s2, Inr r # rs)))"

datatype responderEnd = NotABench | BadPlan | NoTempDir error | Ran "(string \<times> Stats) result list"

text \<open>The responder, once a first message is there.\<close>

definition runBenchResponder ::
  "(bytes \<Rightarrow> string) \<Rightarrow> recvEnv \<Rightarrow> (bytes \<Rightarrow> tarEntry list \<times> error) \<Rightarrow> 's sender \<Rightarrow> string result \<Rightarrow> Msg \<Rightarrow> Msg list \<Rightarrow> fs \<Rightarrow> 's
     \<Rightarrow> fs \<times> 's \<times> responderEnd" where
  "runBenchResponder sha256hex env untar send mkTemp first inbound f s =
     (if classify first \<noteq> ''bench'' then (f, s, NotABench)
      else case unmarshalPlan first of
             None \<Rightarrow> (f, s, BadPlan)
           | Some sizes \<Rightarrow>
               (case mkTemp of
                  Inl e \<Rightarrow> (f, s, NoTempDir e)
                | Inr tmp \<Rightarrow>
                    (case responderLoop sha256hex env untar send tmp (length sizes) inbound f s of
                       (f1, s1, rs) \<Rightarrow> (f1, s1, Ran rs))))"

section \<open>A session over parallel streams\<close>

text \<open>Messages on stream 0 before the transfers: a ping byte, or a plan.\<close>

datatype ctlMsg = CtlBytes bytes | CtlPlan "int list"

definition pingMsg :: ctlMsg where "pingMsg = CtlBytes [80]"

definition isPing :: "ctlMsg \<Rightarrow> bool" where
  "isPing m \<longleftrightarrow> (case m of CtlBytes (b # _) \<Rightarrow> b = 80 | _ \<Rightarrow> False)"

text \<open>The results of the transfers up to the first failure.\<close>

fun parallelSends :: "(int \<Rightarrow> error option) \<Rightarrow> (int \<Rightarrow> Stats result) \<Rightarrow> int list \<Rightarrow> (int \<times> Stats result) list" where
  "parallelSends mkfile sendP [] = []"
| "parallelSends mkfile sendP (sz # sizes) =
     (case mkfile sz of
        Some e \<Rightarrow> [(sz, Inl e)]
      | None \<Rightarrow>
          (case sendP sz of
             Inl e \<Rightarrow> [(sz, Inl e)]
           | Inr st \<Rightarrow> (sz, Inr st) # parallelSends mkfile sendP sizes))"

text \<open>
  The initiator: what it writes on stream 0 and its transfers. \<open>src\<close> is what a transfer finds on disk,
  \<open>acks\<close> what it gets back. Without a plan the program ends.
\<close>

definition benchParallelInitiator ::
  "(string \<Rightarrow> f64 option result) \<Rightarrow> int \<Rightarrow> (bytes \<Rightarrow> string) \<Rightarrow> (pmsg \<Rightarrow> error option) list \<Rightarrow> error option \<Rightarrow> error option \<Rightarrow>
   (int \<Rightarrow> error option) \<Rightarrow> (int \<Rightarrow> psource) \<Rightarrow> (int \<Rightarrow> pmsg list \<times> error option) \<Rightarrow> string \<Rightarrow> string \<Rightarrow> ctlMsg list \<times> (int \<times> Stats result) list result" where
  "benchParallelInitiator pf oor sha256hex werrs pingErr planErr mkfile src acks tmp sizesCSV =
     (case parseSizes pf oor sizesCSV of
        Inl e \<Rightarrow> ([], Inl (Wrap ''sizes'' e))
      | Inr sizes \<Rightarrow>
          (let pings = (if pingErr = None then [pingMsg] else []) in
           case planErr of
             Some e \<Rightarrow> (pings, Inl (Wrap ''plan'' e))
           | None \<Rightarrow>
               (pings @ [CtlPlan sizes],
                Inr (parallelSends mkfile
                       (\<lambda>sz. snd (SendParallel sha256hex werrs (src sz) [Join tmp ''blob''] (fst (acks sz)) (snd (acks sz)))) sizes))))"

text \<open>The responder's transfers up to the first failure; \<open>None\<close> is a panic.\<close>

fun parallelReceives ::
  "(pmsg list list \<Rightarrow> fs \<Rightarrow> (fs \<times> (string \<times> Stats) result \<times> bool) option) \<Rightarrow> pmsg list list list \<Rightarrow> nat \<Rightarrow> fs
     \<Rightarrow> (fs \<times> (string \<times> Stats) result list) option" where
  "parallelReceives recv arrivals 0 f = Some (f, [])"
| "parallelReceives recv arrivals (Suc n) f =
     (case recv (case arrivals of [] \<Rightarrow> [[]] | a # _ \<Rightarrow> a) f of
        None \<Rightarrow> None
      | Some (f1, Inl e, _) \<Rightarrow> Some (f1, [Inl e])
      | Some (f1, Inr r, _) \<Rightarrow>
          map_option (\<lambda>(f2, rs). (f2, Inr r # rs)) (parallelReceives recv (tl arrivals) n f1))"

text \<open>
  The responder: whether it answered a ping, and its transfers. The first message is consumed whether or
  not it is a ping; a plan that cannot be decoded counts as empty.
\<close>

definition benchParallelResponder ::
  "(bytes \<Rightarrow> string) \<Rightarrow> recvEnv \<Rightarrow> (bytes \<Rightarrow> tarEntry list \<times> error) \<Rightarrow>
   ((nat \<times> bytes) list list \<Rightarrow> (nat \<times> bytes) list) \<Rightarrow> (Trailer list \<Rightarrow> Trailer) \<Rightarrow> error \<Rightarrow>
   ctlMsg result \<Rightarrow> ctlMsg result \<Rightarrow> pmsg list list list \<Rightarrow> string \<Rightarrow> fs
     \<Rightarrow> bool \<times> (fs \<times> (string \<times> Stats) result list) option result" where
  "benchParallelResponder sha256hex env untar schedule pick rerr first second arrivals tmp f =
     (let ponged = (case first of Inr m \<Rightarrow> isPing m | Inl _ \<Rightarrow> False) in
      case second of
        Inl e \<Rightarrow> (ponged, Inl (Wrap ''plan'' e))
      | Inr pb \<Rightarrow>
          (let sizes = (case pb of CtlPlan ns \<Rightarrow> ns | CtlBytes _ \<Rightarrow> []) in
           (ponged, Inr (parallelReceives
              (\<lambda>streams f. ReceiveParallel sha256hex env untar schedule pick rerr streams tmp (Some (\<lambda>_. True)) f)
              arrivals (length sizes) f))))"

text \<open>The parallel session is used when more than one stream is asked for.\<close>

definition benchUsesParallel :: "int \<Rightarrow> bool" where "benchUsesParallel streamsN \<longleftrightarrow> streamsN > 1"

section \<open>Payload files\<close>

lemma writeRandomLoop_fills:
  "length written \<le> n \<Longrightarrow> written = map rnd [0..<length written] \<Longrightarrow>
   writeRandomLoop rnd (\<lambda>_. None) (\<lambda>_. None) n written = (map rnd [0..<n], None)"
proof (induction "n - length written" arbitrary: written rule: less_induct)
  case less
  show ?case
  proof (cases "length written \<ge> n")
    case True
    then show ?thesis using less.prems by (subst writeRandomLoop.simps) simp
  next
    case False
    let ?want = "min randBuf (n - length written)"
    let ?w = "written @ map rnd [length written..<length written + ?want]"
    have pos: "0 < ?want" using False by (simp add: randBuf_def)
    have len: "length ?w = length written + ?want" by simp
    have "?w = map rnd [0..<length ?w]"
      unfolding len upt_add_eq_append [OF zero_le] map_append using less.prems(2) by simp
    moreover have "length ?w \<le> n" "n - length ?w < n - length written" using pos False unfolding len by auto
    ultimately have "writeRandomLoop rnd (\<lambda>_. None) (\<lambda>_. None) n ?w = (map rnd [0..<n], None)"
      using less.hyps [of ?w] by blast
    then show ?thesis using False by (subst writeRandomLoop.simps) (simp add: Let_def)
  qed
qed

section \<open>Names\<close>

lemma Base_snoc:
  assumes "proper n"
  shows "Base (mkPath r (ps @ [n])) = n"
proof -
  have n: "n \<noteq> []" "sep \<notin> set n" using assms by (auto simp: proper_def comp_def)
  obtain x where x: "mkPath r (ps @ [n]) = x @ n" "x = [] \<or> last x = sep"
  proof (cases "ps = []")
    case True
    then show thesis using that [of "if r then [sep] else []"] by (simp add: mkPath_def)
  next
    case False
    then show thesis using that [of "(if r then [sep] else []) @ joinSlash ps @ [sep]"] by (simp add: mkPath_def joinSlash_append)
  qed
  have last: "last n \<noteq> sep" using n by (metis last_in_set)
  have "dropWhile (\<lambda>c. c = sep) (rev (x @ n)) = rev (x @ n)"
    using n(1) last by (cases n rule: rev_cases) auto
  moreover have "takeWhile (\<lambda>c. c \<noteq> sep) (rev n @ rev x) = rev n"
  proof -
    have "\<forall>c\<in>set (rev n). c \<noteq> sep" using n(2) by auto
    then have "takeWhile (\<lambda>c. c \<noteq> sep) (rev n @ rev x) = rev n @ takeWhile (\<lambda>c. c \<noteq> sep) (rev x)" by (intro takeWhile_append2) simp
    then show ?thesis using x(2) by (cases x rule: rev_cases) auto
  qed
  ultimately show ?thesis using n(1) by (simp add: Base_def x(1) Let_def)
qed

lemma payloadName_proper: "proper (payloadName sz)"
proof -
  have "c \<in> set (showInt sz) \<Longrightarrow> c = CHR ''-'' \<or> (48 :: nat) \<le> of_char c" for c
    using decimal_digit [of c] by (auto simp: showInt_def split: if_splits)
  then have "sep \<notin> set (showInt sz)" by force
  then show ?thesis by (auto simp: payloadName_def proper_def comp_def dot_def dotdot_def)
qed

lemma Base_payload:
  assumes "tmp \<noteq> []"
  shows "Base (Join tmp (payloadName sz)) = payloadName sz" "Base (payloadName sz) = payloadName sz"
  using Base_snoc [OF payloadName_proper, of "isRooted tmp" "parts tmp" sz] Join_proper [OF assms payloadName_proper, of sz]
    Base_snoc [OF payloadName_proper, of False "[]" sz] by (simp_all add: mkPath_def)

section \<open>A whole session\<close>

text \<open>The header of a payload file with the portions \<open>bufs\<close>, and what \<open>Send\<close> finds on disk.\<close>

definition payloadHeader :: "int \<Rightarrow> bytes list \<Rightarrow> Header" where
  "payloadHeader sz bufs = zero_Header\<lparr>h_Kind := ''file'', h_Name := payloadName sz, h_Size := int (length (concat bufs)), h_Mode := 420\<rparr>"

definition sessionMsgs :: "(bytes \<Rightarrow> string) \<Rightarrow> (int \<Rightarrow> bytes list) \<Rightarrow> int list \<Rightarrow> Msg list" where
  "sessionMsgs sha256hex bufs sizes = concat (map (\<lambda>sz. fileMsgs sha256hex (payloadHeader sz (bufs sz)) (bufs sz)) sizes)"

abbreviation statsOf :: "(int \<Rightarrow> bytes list) \<Rightarrow> int \<Rightarrow> Stats" where
  "statsOf bufs sz \<equiv> \<lparr>st_Bytes = int (length (concat (bufs sz)))\<rparr>"

lemma initiator_sends:
  assumes "\<forall>sz\<in>set sizes. file sz = Inr (exampleSource (bufs sz))" "tmp \<noteq> []"
  shows "initiatorLoop sha256hex collect file ie tmp sizes (replicate (length sizes) marshalDone @ others) s =
    (s @ sessionMsgs sha256hex bufs sizes, map (\<lambda>sz. (sz, Inr (statsOf bufs sz))) sizes)"
  using assms(1)
proof (induction sizes arbitrary: s)
  case Nil
  then show ?case by (simp add: sessionMsgs_def)
next
  case (Cons sz sizes)
  have hdr: "sendHeader (exampleSource (bufs sz)) [Join tmp (payloadName sz)] = Inr (payloadHeader sz (bufs sz))"
    using Base_payload(1) [OF assms(2), of sz] by (simp add: sendHeader_def exampleSource_def payloadHeader_def)
  have "File_Transfer.Send sha256hex collect (marshalDone # replicate (length sizes) marshalDone @ others) ie (exampleSource (bufs sz)) [Join tmp (payloadName sz)] s =
      (s @ fileMsgs sha256hex (payloadHeader sz (bufs sz)) (bufs sz), Inr (statsOf bufs sz))"
    by (rule Send_messages [OF hdr]) (simp_all add: exampleSource_def)
  then show ?case using Cons by (simp add: afterDone_def sessionMsgs_def)
qed

lemma afterTrailer_file: "afterTrailer (fileMsgs sha256hex hdr bufs @ follow) = follow"
proof -
  have "dropWhile (\<lambda>m. classify m \<noteq> ''trailer'') (map chunkMsg (chunksAt 0 bufs) @ marshalTrailer tr # follow) = marshalTrailer tr # follow" for tr
    by (subst dropWhile_append2) (auto simp: chunkMsg_def)
  then show ?thesis by (simp add: afterTrailer_def fileMsgs_def)
qed

definition saveAll :: "string \<Rightarrow> (int \<Rightarrow> bytes list) \<Rightarrow> int list \<Rightarrow> fs \<Rightarrow> fs" where
  "saveAll tmp bufs sizes f = foldl (\<lambda>f sz. f(Join tmp (payloadName sz) \<mapsto> FileNode (concat (bufs sz)) 420)) f sizes"

lemma responder_receives:
  assumes "env_ok env" "tmp \<noteq> []"
  shows "\<forall>sz\<in>set sizes. int (length (concat (bufs sz))) < 2 ^ 63 \<and> f (Join tmp (payloadName sz)) \<noteq> Some DirNode \<Longrightarrow>
    responderLoop sha256hex env untar collect tmp (length sizes) (sessionMsgs sha256hex bufs sizes @ follow) f s =
    (saveAll tmp bufs sizes f, s @ replicate (length sizes) marshalDone, map (\<lambda>sz. Inr (Join tmp (payloadName sz), statsOf bufs sz)) sizes)"
proof (induction sizes arbitrary: f s)
  case Nil
  then show ?case by (simp add: saveAll_def)
next
  case (Cons sz sizes)
  let ?hdr = "payloadHeader sz (bufs sz)" and ?rest = "sessionMsgs sha256hex bufs sizes @ follow"
  let ?f = "f(Join tmp (payloadName sz) \<mapsto> FileNode (concat (bufs sz)) 420)"
  have pl: "placed (Some (\<lambda>_. True)) tmp (h_Name ?hdr) f = Join tmp (payloadName sz)"
    using Base_payload(2) [OF assms(2), of sz] by (simp add: placed_def payloadHeader_def)
  have fin: "finalize env untar (Some (\<lambda>_. True)) tmp ?hdr (concat (bufs sz)) f = (?f, Inr (Join tmp (payloadName sz)))"
    using finalize_file [of env ?hdr f "Some (\<lambda>_. True)" tmp untar "concat (bufs sz)"] Cons.prems assms(1) pl
    by (simp add: env_ok_def payloadHeader_def)
  have "Receive sha256hex env untar (Some collect) (fileMsgs sha256hex ?hdr (bufs sz) @ ?rest) tmp (Some (\<lambda>_. True)) f s =
      (?f, s @ [marshalDone], Inr (Join tmp (payloadName sz), statsOf bufs sz))"
    using Receive_messages [of "bufs sz" env ?hdr "map chunkMsg (chunksAt 0 (bufs sz))" sha256hex untar ?rest tmp "Some (\<lambda>_. True)" f s]
      Cons.prems assms(1) fin by (simp add: fileMsgs_def hdr_ok_def payloadHeader_def zero_Header_def)
  moreover have "responderLoop sha256hex env untar collect tmp (length sizes) ?rest ?f (s @ [marshalDone]) =
      (saveAll tmp bufs sizes ?f, (s @ [marshalDone]) @ replicate (length sizes) marshalDone,
       map (\<lambda>sz. Inr (Join tmp (payloadName sz), statsOf bufs sz)) sizes)"
    by (rule Cons.IH) (use Cons.prems in simp)
  moreover have "sessionMsgs sha256hex bufs (sz # sizes) @ follow = fileMsgs sha256hex ?hdr (bufs sz) @ ?rest" by (simp add: sessionMsgs_def)
  ultimately show ?case by (simp add: afterTrailer_file saveAll_def)
qed

text \<open>Different sizes have different names.\<close>

lemma takeDigits_decimal: "takeDigits (decimal n @ t) None = takeDigits t (Some n)"
proof (induction n arbitrary: t rule: decimal.induct)
  case (1 n)
  have d: "decimal n = (if n < 10 then [char_of (48 + n)] else decimal (n div 10) @ [char_of (48 + n mod 10)])" by (rule decimal.simps)
  have v: "10 * (n div 10) + n mod 10 = n" by simp
  show ?case
  proof (cases "n < 10")
    case True
    then show ?thesis using d by simp
  next
    case False
    have "takeDigits (decimal n @ t) None = takeDigits (char_of (48 + n mod 10) # t) (Some (n div 10))"
      using d False 1 [OF False, of "char_of (48 + n mod 10) # t"] by simp
    also have "\<dots> = takeDigits t (Some (10 * (n div 10) + n mod 10))"
    proof -
      have "n mod 10 \<le> 9" using mod_less_divisor [of 10 n] by linarith
      then show ?thesis by simp
    qed
    finally show ?thesis using v by simp
  qed
qed

lemma payloadName_inj: "payloadName a = payloadName b \<Longrightarrow> a = b"
proof -
  assume "payloadName a = payloadName b"
  then have eq: "showInt a @ ''.bin'' = showInt b @ ''.bin''" by (simp add: payloadName_def)
  have dec: "n = m" if eq: "decimal n @ ''.bin'' = decimal m @ ''.bin''" for n m
  proof -
    have "takeDigits ''.bin'' (Some n) = takeDigits ''.bin'' (Some m)"
      using takeDigits_decimal [of n "''.bin''"] takeDigits_decimal [of m "''.bin''"] unfolding eq by (rule trans [OF sym])
    then show ?thesis by simp
  qed
  have "hd (decimal n @ x) \<noteq> CHR ''-''" for n x using decimal_hd [of n] decimal_nonempty [of n] by simp
  then have sign: "decimal n @ x \<noteq> CHR ''-'' # y" for n x y by (metis list.sel(1))
  show "a = b"
  proof (cases "a < 0"; cases "b < 0")
    assume "a < 0" "b < 0"
    then show ?thesis using eq dec [of "nat (- a)" "nat (- b)"] by (simp add: showInt_def)
  next
    assume "\<not> a < 0" "\<not> b < 0"
    then show ?thesis using eq dec [of "nat a" "nat b"] by (simp add: showInt_def)
  qed (use eq sign sign [symmetric] in \<open>simp_all add: showInt_def\<close>)
qed

lemma saveAll_at:
  assumes "tmp \<noteq> []" "sz \<in> set sizes"
  shows "saveAll tmp bufs sizes f (Join tmp (payloadName sz)) = Some (FileNode (concat (bufs sz)) 420)"
proof -
  have "Join tmp (payloadName a) = Join tmp (payloadName b) \<Longrightarrow> a = b" for a b
    using Base_payload(1) [OF assms(1)] payloadName_inj by metis
  then show ?thesis using assms(2) by (induction sizes rule: rev_induct) (auto simp: saveAll_def)
qed

lemma unmarshal_planMsg: "\<forall>n\<in>set sizes. - (2 ^ 63) \<le> n \<and> n < 2 ^ 63 \<Longrightarrow> unmarshalPlan (planMsg sizes) = Some sizes"
  by (simp add: unmarshalPlan_def planMsg_def strField_def list_all_iff)

lemma classify_planMsg [simp]: "classify (planMsg sizes) = ''bench''"
  by (simp add: planMsg_def classify_def strField_def)

section \<open>Properties\<close>

text \<open>
  A benchmark session completes. If the payload files are written and the messages of the initiator arrive in
  order, the initiator announces its sizes and transfers one payload for each, the responder, which receives
  the transfers one after the other from the same channel, takes each of them exactly up to its trailer,
  acknowledges each once and saves every payload with its contents, and both sides report the sizes.
\<close>

theorem bench_session:
  assumes "parseSizes pf oor csv = Inr sizes" and "\<forall>sz\<in>set sizes. - (2 ^ 63) \<le> sz \<and> sz < 2 ^ 63"
    and "\<forall>sz\<in>set sizes. file sz = Inr (exampleSource (bufs sz)) \<and> int (length (concat (bufs sz))) < 2 ^ 63"
    and "tmpI \<noteq> []" and "tmpR \<noteq> []" and "env_ok env" and "\<forall>sz\<in>set sizes. f (Join tmpR (payloadName sz)) \<noteq> Some DirNode"
    and "runBenchInitiator pf oor sha256hex collect file ie (Inr tmpI) csv (replicate (length sizes) marshalDone @ others) [] = (sent, outcome)"
    and "runBenchResponder sha256hex env untar collect (Inr tmpR) (hd sent) (tl sent) f [] = (f', acks, fin)"
  shows "outcome = Inr (map (\<lambda>sz. (sz, Inr (statsOf bufs sz))) sizes) \<and> acks = replicate (length sizes) marshalDone \<and>
    fin = Ran (map (\<lambda>sz. Inr (Join tmpR (payloadName sz), statsOf bufs sz)) sizes) \<and>
    (\<forall>sz\<in>set sizes. f' (Join tmpR (payloadName sz)) = Some (FileNode (concat (bufs sz)) 420))"
proof -
  have "\<forall>sz\<in>set sizes. file sz = Inr (exampleSource (bufs sz))" using assms(3) by blast
  note send = initiator_sends [OF this assms(4), of sha256hex ie others "[planMsg sizes]"]
  have sent: "sent = planMsg sizes # sessionMsgs sha256hex bufs sizes @ [benchdone]" "outcome = Inr (map (\<lambda>sz. (sz, Inr (statsOf bufs sz))) sizes)"
    using assms(8) send by (simp_all add: runBenchInitiator_def assms(1) collect_def)
  have "runBenchResponder sha256hex env untar collect (Inr tmpR) (hd sent) (tl sent) f [] =
      (saveAll tmpR bufs sizes f, replicate (length sizes) marshalDone, Ran (map (\<lambda>sz. Inr (Join tmpR (payloadName sz), statsOf bufs sz)) sizes))"
    using responder_receives [OF assms(6,5), of sizes bufs f sha256hex untar "[benchdone]" "[]"] assms(3,7) unmarshal_planMsg [OF assms(2)]
    by (simp add: runBenchResponder_def sent(1))
  then show ?thesis using assms(9) sent(2) saveAll_at [OF assms(5)] by simp
qed

theorem bench_session_witness:
  "\<exists>sent f' outcome. runBenchInitiator (\<lambda>_. Inr (Some (3, 0))) 0 (\<lambda>_. ''h'') collect (\<lambda>_. Inr (exampleSource [[1, 2], [3]])) InClosed (Inr ''/a'') ''3''
      [marshalDone] [] = (sent, Inr outcome) \<and> length outcome = 1 \<and>
    runBenchResponder (\<lambda>_. ''h'') exampleEnv (\<lambda>_. ([], IoEOF)) collect (Inr ''/b'') (hd sent) (tl sent) Map.empty [] =
      (f', [marshalDone], Ran [Inr (Join ''/b'' (payloadName 3), \<lparr>st_Bytes = 3\<rparr>)]) \<and>
    f' (Join ''/b'' (payloadName 3)) = Some (FileNode [1, 2, 3] 420)"
proof -
  let ?I = "runBenchInitiator (\<lambda>_. Inr (Some (3, 0))) 0 (\<lambda>_. ''h'') collect (\<lambda>_. Inr (exampleSource [[1, 2], [3]])) InClosed (Inr ''/a'') ''3''
      (replicate (length [3 :: int]) marshalDone @ []) []"
  obtain sent outcome where I: "?I = (sent, outcome)" by force
  let ?R = "runBenchResponder (\<lambda>_. ''h'') exampleEnv (\<lambda>_. ([], IoEOF)) collect (Inr ''/b'') (hd sent) (tl sent) Map.empty []"
  obtain f' acks fin where R: "?R = (f', acks, fin)" by (cases ?R)
  have t: "TrimSpace ''3'' = ''3''" "TrimSpace (ToUpper ''3'') = ''3'' @ []" by (simp_all add: TrimSpace_def isSpace_def ToUpper_def)
  have v: "toInt64 0 (f64_mul (3, 0) (f64_of (2 ^ 0))) = 3" by code_simp
  have "ParseSize (\<lambda>_. Inr (Some (3, 0))) 0 ''3'' = Inr 3"
    using ParseSize_unit [of "[]" 0 "''3''" "''3''" "\<lambda>_. Inr (Some (3, 0))" 0] t(2) v by (simp add: sizeUnits_def)
  then have sizes: "parseSizes (\<lambda>_. Inr (Some (3, 0))) 0 ''3'' = Inr [3]" using t(1) by (simp add: parseSizes_def)
  have "outcome = Inr (map (\<lambda>sz. (sz, Inr (statsOf (\<lambda>_. [[1, 2], [3]]) sz))) [3]) \<and> acks = replicate (length [3 :: int]) marshalDone \<and>
    fin = Ran (map (\<lambda>sz. Inr (Join ''/b'' (payloadName sz), statsOf (\<lambda>_. [[1, 2], [3]]) sz)) [3]) \<and>
    (\<forall>sz\<in>set [3]. f' (Join ''/b'' (payloadName sz)) = Some (FileNode (concat [[1, 2], [3]]) 420))"
    by (rule bench_session [OF sizes _ _ _ _ env_ok_example _ I R]) simp_all
  with I R show ?thesis by simp
qed

end
