(* ===== verification/Conversation.thy ===== *)
theory Conversation
  imports Delivery
begin

text \<open>
  A conversation of two brokers: any number of calls of \<open>Send\<close>, the peer's read loop, its goroutines that
  write the acknowledgements in any order, and the sender's read loop on these.
\<close>

section \<open>Definitions\<close>

text \<open>A call of \<open>Send\<close>: the outcome of its log writes, the clock and the arguments.\<close>

record request =
  q_ioAppend :: wal_io
  q_ioAck :: wal_io
  q_now :: int
  q_ct :: ContentType
  q_pr :: Priority
  q_payload :: bytes

fun sendAll :: "'cs libs \<Rightarrow> request list \<Rightarrow> 'cs Broker \<Rightarrow> 'cs Broker \<times> u64 result option list" where
  "sendAll L [] b = (b, [])"
| "sendAll L (q # qs) b =
     (case Send L (q_ioAppend q) (q_ioAck q) (q_now q) (q_ct q) (q_pr q) (q_payload q) b of
        (b1, r) \<Rightarrow> (case sendAll L qs b1 of (b2, rs) \<Rightarrow> (b2, r # rs)))"

definition inboundOf :: "u64 \<Rightarrow> request \<Rightarrow> callback" where
  "inboundOf i q = OnInbound \<lparr>im_MsgID = i, im_ContentType = q_ct q, im_Payload = q_payload q\<rparr>"

text \<open>The bytes a broker has put on its connection since, and bytes that arrive on a plain connection.\<close>

definition newBytes :: "'cs Broker \<Rightarrow> 'cs Broker \<Rightarrow> bytes" where
  "newBytes b b' = drop (length (wire (b_conn b))) (wire (b_conn b'))"

definition arrives :: "bytes \<Rightarrow> 'cs Broker \<Rightarrow> 'cs Broker" where
  "arrives rx b =
     (case c_transport (b_conn b) of
        Plain l \<Rightarrow> b\<lparr>b_conn := (b_conn b)\<lparr>c_transport := Plain (l\<lparr>l_rx := rx\<rparr>)\<rparr>\<rparr>
      | Enc s \<Rightarrow> b)"

text \<open>Pending goroutines run in the order of the picks, until none is left.\<close>

definition runTasks :: "'cs libs \<Rightarrow> nat list \<Rightarrow> 'cs Broker \<Rightarrow> 'cs Broker" where
  "runTasks L picks b = foldl (\<lambda>b i. runTask L i b) b picks"

fun drains :: "nat list \<Rightarrow> nat \<Rightarrow> bool" where
  "drains [] n \<longleftrightarrow> n = 0"
| "drains (i # picks) n \<longleftrightarrow> i < n \<and> drains picks (n - 1)"

definition pendingOf :: "'cs Broker \<Rightarrow> u64 \<rightharpoonup> bytes" where
  "pendingOf b = (case b_wal b of None \<Rightarrow> Map.empty | Some w \<Rightarrow> wal_pending w)"

definition log_ok :: "'cs Broker \<Rightarrow> bool" where
  "log_ok b \<longleftrightarrow> (case b_wal b of None \<Rightarrow> True | Some w \<Rightarrow> wal_inv w)"

text \<open>A broker that can send and receive on a plain connection and knows nothing of the identifiers.\<close>

definition can_send :: "'cs Broker \<Rightarrow> u64 list \<Rightarrow> bool" where
  "can_send b ids \<longleftrightarrow> plain_up (b_conn b) \<and> \<not> b_stop b \<and> ring_ok (b_ring b) \<and> log_ok b \<and>
     list_all (\<lambda>i. pendingOf b i = None \<and> i \<notin># image_mset fst (inflight (b_ring b))) ids"

definition can_receive :: "'cs Broker \<Rightarrow> u64 list \<Rightarrow> bool" where
  "can_receive b ids \<longleftrightarrow> plain_up (b_conn b) \<and> \<not> b_stop b \<and> b_tasks b = [] \<and>
     card (dom (streams (b_assemb b))) < maxStreams (b_assemb b) \<and> list_all (\<lambda>i. streams (b_assemb b) i = None) ids"

section \<open>Reading on\<close>

lemma readLoop_append:
  "readLoop L hs (ts @ us) b =
     (case readLoop L hs ts b of Continue b' \<Rightarrow> readLoop L hs us b' | Return b' \<Rightarrow> Return b' | Panic \<Rightarrow> Panic)"
  by (induction ts arbitrary: b) (simp_all split: loopOutcome.split)

lemma plain_upE:
  assumes "plain_up c"
  obtains l where "c_transport c = Plain l" "\<not> l_closed l"
  using assms by (auto simp: link_up_def split: transport.splits)

lemma arrives_simps [simp]:
  "b_tasks (arrives rx b) = b_tasks b" "b_calls (arrives rx b) = b_calls b" "b_stop (arrives rx b) = b_stop b"
  "b_ring (arrives rx b) = b_ring b" "b_wal (arrives rx b) = b_wal b" "b_assemb (arrives rx b) = b_assemb b"
  "wire (b_conn (arrives rx b)) = wire (b_conn b)" "plain_up (b_conn (arrives rx b)) = plain_up (b_conn b)"
  by (simp_all add: arrives_def split: transport.split)

section \<open>Sending and receiving\<close>

lemma sendAll_received:
  assumes "zstd_roundtrip (zstdEncode L) (zstdDecode M)"
  shows "sendAll L qs a = (a', map (\<lambda>i. Some (Inr i)) ids) \<Longrightarrow> plain_up (b_conn a) \<Longrightarrow>
    plain_up (b_conn a') \<and> length ids = length qs \<and>
    (\<exists>n sent. wire (b_conn a') = wire (b_conn a) @ sent \<and>
      (\<forall>b l turns. c_transport (b_conn b) = Plain l \<longrightarrow> \<not> l_closed l \<longrightarrow> l_rx l = sent \<longrightarrow> \<not> b_stop b \<longrightarrow>
         card (dom (streams (b_assemb b))) < maxStreams (b_assemb b) \<longrightarrow> list_all (\<lambda>i. streams (b_assemb b) i = None) ids \<longrightarrow>
         length turns = n \<longrightarrow> (\<forall>t\<in>set turns. \<not> t_stopped t) \<longrightarrow>
         (\<exists>asmb. readLoop M hs turns b = Continue (b\<lparr>
             b_conn := (b_conn b)\<lparr>c_transport := Plain (l\<lparr>l_rx := []\<rparr>)\<rparr>, b_assemb := asmb,
             b_calls := b_calls b @ map2 inboundOf ids qs, b_tasks := b_tasks b @ map ackMsg ids\<rparr>))))"
proof (induction qs arbitrary: a ids)
  case Nil
  have same: "\<exists>asmb. readLoop M hs turns b = Continue (b\<lparr>b_conn := (b_conn b)\<lparr>c_transport := Plain (l\<lparr>l_rx := []\<rparr>)\<rparr>,
      b_assemb := asmb, b_calls := b_calls b @ map2 inboundOf [] [], b_tasks := b_tasks b @ map ackMsg []\<rparr>)"
    if "c_transport (b_conn b) = Plain l" "l_rx l = []" "length turns = 0" for b l turns
  proof -
    have "l\<lparr>l_rx := []\<rparr> = l" using that(2) by (cases l) simp
    then show ?thesis using that(1,3) by (intro exI [of _ "b_assemb b"]; cases b; cases "b_conn b") simp
  qed
  have "a' = a" "ids = []" using Nil.prems(1) by simp_all
  then show ?case using Nil.prems(2) same
    by (intro conjI exI [of _ 0] exI [of _ "[]"]; (blast | simp del: plain_up.simps wire.simps))
next
  case (Cons q qs)
  obtain a1 i js where a1: "Send L (q_ioAppend q) (q_ioAck q) (q_now q) (q_ct q) (q_pr q) (q_payload q) a = (a1, Some (Inr i))"
    and rest: "sendAll L qs a1 = (a', map (\<lambda>i. Some (Inr i)) js)" and ids: "ids = i # js"
    using Cons.prems(1) by (cases ids) (auto split: prod.splits)
  obtain fs where fs: "Split (zstdEncode L) i (q_ct q) (q_payload q) = Inr fs" "plain_up (b_conn a1)"
    "wire (b_conn a1) = wire (b_conn a) @ concat (map msgBytes (map (setPriority (q_pr q)) fs))"
    using Send_wire [OF a1 Cons.prems(2)] by blast
  let ?m = "concat (map msgBytes (map (setPriority (q_pr q)) fs))"
  from Cons.IH [OF rest fs(2)] obtain n sent where ih: "plain_up (b_conn a')" "length js = length qs"
    "wire (b_conn a') = wire (b_conn a1) @ sent"
    "\<And>b l turns. c_transport (b_conn b) = Plain l \<Longrightarrow> \<not> l_closed l \<Longrightarrow> l_rx l = sent \<Longrightarrow> \<not> b_stop b \<Longrightarrow>
         card (dom (streams (b_assemb b))) < maxStreams (b_assemb b) \<Longrightarrow> list_all (\<lambda>i. streams (b_assemb b) i = None) js \<Longrightarrow>
         length turns = n \<Longrightarrow> (\<forall>t\<in>set turns. \<not> t_stopped t) \<Longrightarrow>
         (\<exists>asmb. readLoop M hs turns b = Continue (b\<lparr>
             b_conn := (b_conn b)\<lparr>c_transport := Plain (l\<lparr>l_rx := []\<rparr>)\<rparr>, b_assemb := asmb,
             b_calls := b_calls b @ map2 inboundOf js qs, b_tasks := b_tasks b @ map ackMsg js\<rparr>))"
    by blast
  have "\<exists>asmb. readLoop M hs turns b = Continue (b\<lparr>
             b_conn := (b_conn b)\<lparr>c_transport := Plain (l\<lparr>l_rx := []\<rparr>)\<rparr>, b_assemb := asmb,
             b_calls := b_calls b @ map2 inboundOf ids (q # qs), b_tasks := b_tasks b @ map ackMsg ids\<rparr>)"
    if b: "c_transport (b_conn b) = Plain l" "\<not> l_closed l" "l_rx l = ?m @ sent" "\<not> b_stop b"
      "card (dom (streams (b_assemb b))) < maxStreams (b_assemb b)" "list_all (\<lambda>i. streams (b_assemb b) i = None) ids"
      and t: "length turns = length fs + n" "\<forall>t\<in>set turns. \<not> t_stopped t" for b l turns
  proof -
    define ts us where "ts = take (length fs) turns" and "us = drop (length fs) turns"
    have tu: "turns = ts @ us" "length ts = length fs" "length us = n" "\<forall>t\<in>set ts. \<not> t_stopped t" "\<forall>t\<in>set us. \<not> t_stopped t"
      using t by (auto simp: ts_def us_def dest: in_set_takeD in_set_dropD)
    have one: "streams (b_assemb b) i = None" using b(6) ids by simp
    obtain asmb where asmb: "streams asmb = streams (b_assemb b)" "maxStreams asmb = maxStreams (b_assemb b)"
      and r: "readLoop M hs ts b = Continue (b\<lparr>
           b_conn := (b_conn b)\<lparr>c_transport := Plain (l\<lparr>l_rx := sent\<rparr>)\<rparr>, b_assemb := asmb,
           b_calls := b_calls b @ [inboundOf i q], b_tasks := b_tasks b @ [ackMsg i]\<rparr>)"
      using fragments_received [OF assms fs(1) one b(5,4,1-3) tu(2,4), of hs] unfolding inboundOf_def by blast
    define b1 where "b1 = b\<lparr>b_conn := (b_conn b)\<lparr>c_transport := Plain (l\<lparr>l_rx := sent\<rparr>)\<rparr>, b_assemb := asmb,
           b_calls := b_calls b @ [inboundOf i q], b_tasks := b_tasks b @ [ackMsg i]\<rparr>"
    obtain asmb' where "readLoop M hs us b1 = Continue (b1\<lparr>
             b_conn := (b_conn b1)\<lparr>c_transport := Plain ((l\<lparr>l_rx := sent\<rparr>)\<lparr>l_rx := []\<rparr>)\<rparr>, b_assemb := asmb',
             b_calls := b_calls b1 @ map2 inboundOf js qs, b_tasks := b_tasks b1 @ map ackMsg js\<rparr>)"
      using ih(4) [of b1 "l\<lparr>l_rx := sent\<rparr>" us] b tu asmb ids by (auto simp: b1_def)
    then show ?thesis using r unfolding tu(1) readLoop_append by (auto simp: b1_def ids)
  qed
  then show ?case using ih(1-3) fs(3) ids by (intro conjI exI [of _ "length fs + n"] exI [of _ "?m @ sent"]) auto
qed

lemma Append_log:
  assumes "log_ok b" "length payload + 2 < 2 ^ 32"
    and "b_wal b' = map_option (\<lambda>w. fst (Append None None i (packWALPayload ct pr payload) w)) (b_wal b)"
  shows "log_ok b'" and "j \<noteq> i \<Longrightarrow> pendingOf b' j = pendingOf b j"
  using assms wal_log.invar_append [of _ "packWALPayload ct pr payload" i] wal_log.pend_append [of _ "packWALPayload ct pr payload" i]
  by (auto simp: log_ok_def pendingOf_def split: option.splits)

text \<open>What sending does to the ring and to the log.\<close>

lemma sendAll_state:
  "sendAll L qs a = (a', map (\<lambda>i. Some (Inr i)) ids) \<Longrightarrow> ring_ok (b_ring a) \<Longrightarrow> log_ok a \<Longrightarrow>
   \<forall>q\<in>set qs. q_ioAppend q = (None, None) \<and> length (q_payload q) + 2 < 2 ^ 32 \<Longrightarrow>
   ids = map (\<lambda>k. b_msgIDCounter a + word_of_nat (Suc k)) [0..<length qs] \<and> ring_ok (b_ring a') \<and> log_ok a' \<and>
   b_stop a' = b_stop a \<and> b_calls a' = b_calls a \<and>
   (\<exists>S. image_mset fst S = mset ids \<and> inflight (b_ring a') = inflight (b_ring a) + S) \<and>
   (\<forall>i. i \<notin> set ids \<longrightarrow> pendingOf a' i = pendingOf a i)"
proof (induction qs arbitrary: a ids)
  case Nil
  then show ?case by (auto intro: exI [of _ "{#}"])
next
  case (Cons q qs)
  obtain a1 i js where a1: "Send L (q_ioAppend q) (q_ioAck q) (q_now q) (q_ct q) (q_pr q) (q_payload q) a = (a1, Some (Inr i))"
    and rest: "sendAll L qs a1 = (a', map (\<lambda>i. Some (Inr i)) js)" and ids: "ids = i # js"
    using Cons.prems(1) by (cases ids) (auto split: prod.splits)
  have q: "q_ioAppend q = (None, None)" "length (q_payload q) + 2 < 2 ^ 32" using Cons.prems(4) by simp_all
  obtain fs r where i: "i = b_msgIDCounter a + 1" and r: "claimSlot (q_now q) i fs (b_ring a) = Some r"
    and s: "b_ring a1 = r" "b_msgIDCounter a1 = i" "b_stop a1 = b_stop a" "b_calls a1 = b_calls a"
      "b_wal a1 = map_option (\<lambda>w. fst (Append None None i (packWALPayload (q_ct q) (q_pr q) (q_payload q)) w)) (b_wal a)"
    by (rule Send_okE [OF a1]) (auto simp: q(1))
  note log = Append_log [OF Cons.prems(3) q(2) s(5)]
  note ring = ring_pool.put_Some [OF Cons.prems(2) r]
  have "ring_ok (b_ring a1)" "\<forall>q\<in>set qs. q_ioAppend q = (None, None) \<and> length (q_payload q) + 2 < 2 ^ 32"
    using ring s(1) Cons.prems(4) by simp_all
  note ih = Cons.IH [OF rest this(1) log(1) this(2)]
  then obtain S where S: "image_mset fst S = mset js" "inflight (b_ring a') = inflight (b_ring a1) + S" by blast
  have "map (\<lambda>k. b_msgIDCounter a + word_of_nat (Suc k)) [0..<length (q # qs)] =
      i # map (\<lambda>k. i + word_of_nat (Suc k)) [0..<length qs]"
    by (simp add: i upt_conv_Cons map_Suc_upt [symmetric] add.assoc del: map_Suc_upt upt_Suc)
  then have "ids = map (\<lambda>k. b_msgIDCounter a + word_of_nat (Suc k)) [0..<length (q # qs)]" using ih ids s(2) by simp
  moreover have "\<exists>S. image_mset fst S = mset ids \<and> inflight (b_ring a') = inflight (b_ring a) + S"
    using S ring s(1) ids by (intro exI [of _ "add_mset (i, fs) S"]) simp
  moreover have "\<forall>j. j \<notin> set ids \<longrightarrow> pendingOf a' j = pendingOf a j" using ih log(2) ids by simp
  moreover have "ring_ok (b_ring a') \<and> log_ok a' \<and> b_stop a' = b_stop a \<and> b_calls a' = b_calls a" using ih s by simp
  ultimately show ?case by blast
qed

lemma word_of_nat_distinct:
  assumes "n < 2 ^ 64"
  shows "distinct (map (\<lambda>k. (c :: u64) + word_of_nat (Suc k)) [0..<n])"
proof -
  have "k = m" if "(word_of_nat (Suc k) :: u64) = word_of_nat (Suc m)" "k < n" "m < n" for k m
  proof -
    have "Suc k < 2 ^ 64" "Suc m < 2 ^ 64" using that assms by linarith+
    then show ?thesis using that(1) by (simp add: word_of_nat_eq_iff take_bit_nat_eq_self)
  qed
  then show ?thesis by (auto simp: distinct_map inj_on_def)
qed

section \<open>Acknowledging\<close>

lemma ackMsg_ok: "msg_ok (ackMsg i)" "framedMsg (ackMsg i) = ackMsg i"
  by (simp_all add: ackMsg_def msg_ok_def framedMsg_def framedHeader_def zero_Header_def)

lemma runTasks_writes:
  "drains picks (length (b_tasks b)) \<Longrightarrow> plain_up (b_conn b) \<Longrightarrow>
   \<exists>ms. mset ms = mset (b_tasks b) \<and> b_tasks (runTasks L picks b) = [] \<and>
     wire (b_conn (runTasks L picks b)) = wire (b_conn b) @ concat (map msgBytes ms)"
proof (induction picks arbitrary: b)
  case Nil
  then show ?case by (simp add: runTasks_def)
next
  case (Cons i picks)
  let ?m = "b_tasks b ! i" and ?rest = "take i (b_tasks b) @ drop (Suc i) (b_tasks b)"
  have i: "i < length (b_tasks b)" using Cons.prems(1) by simp
  have "b_tasks b = take i (b_tasks b) @ ?m # drop (Suc i) (b_tasks b)" using i by (rule id_take_nth_drop)
  then have ms: "mset (b_tasks b) = add_mset ?m (mset ?rest)" by (metis mset.simps(2) mset_append union_mset_add_mset_right)
  have b1: "b_tasks (runTask L i b) = ?rest" "plain_up (b_conn (runTask L i b))"
    "wire (b_conn (runTask L i b)) = wire (b_conn b) @ msgBytes ?m"
    using i Cons.prems(2) writeAll_plain [of "b\<lparr>b_tasks := ?rest\<rparr>" L "[?m]"]
    by (simp_all add: runTask_def del: plain_up.simps wire.simps)
  have "drains picks (length (b_tasks (runTask L i b)))" using Cons.prems(1) b1(1) by simp
  from Cons.IH [OF this b1(2)] obtain ns where "mset ns = mset ?rest" "b_tasks (runTasks L picks (runTask L i b)) = []"
    "wire (b_conn (runTasks L picks (runTask L i b))) = wire (b_conn b) @ msgBytes ?m @ concat (map msgBytes ns)"
    using b1 by auto
  then show ?case using ms by (intro exI [of _ "?m # ns"]) (simp add: runTasks_def)
qed

lemma acks_permuted:
  assumes "mset ms = mset (map ackMsg ids)"
  shows "\<exists>js. ms = map ackMsg js \<and> mset js = mset ids"
proof (intro exI conjI)
  have inv: "MsgID (Hdr (ackMsg i)) = i" for i by (simp add: ackMsg_def)
  have "set ms = ackMsg ` set ids" using arg_cong [OF assms, of set_mset] by simp
  then show "ms = map ackMsg (map (\<lambda>m. MsgID (Hdr m)) ms)" by (auto simp: inv intro!: map_idI [symmetric])
  have "mset (map (\<lambda>m. MsgID (Hdr m)) ms) = mset (map (\<lambda>m. MsgID (Hdr m)) (map ackMsg ids))"
    using assms by (metis mset_map)
  then show "mset (map (\<lambda>m. MsgID (Hdr m)) ms) = mset ids" by (simp add: o_def inv)
qed

text \<open>Acknowledgements take exactly their messages out of flight and out of the log.\<close>

lemma dispatch_ackMsg:
  assumes "ring_ok (b_ring b)" "log_ok b" "inflight (b_ring b) = add_mset (i, f) R" "i \<notin># image_mset fst R"
  shows "\<exists>b' rtt. dispatch L (None, None) now (ackMsg i) b = Some b' \<and> ring_ok (b_ring b') \<and> log_ok b' \<and>
    inflight (b_ring b') = R \<and> pendingOf b' = (pendingOf b)(i := None) \<and> b_calls b' = b_calls b @ [OnAck i rtt]"
proof -
  have "(i, w) \<notin># R" for w using assms(4) by (force simp: image_iff)
  then obtain r t where r: "releaseSlot i (b_ring b) = (r, Some t)" "ring_ok r" "inflight r = R"
    using ring_pool.del_unique [OF assms(1,3)] by blast
  let ?b = "call (OnAck i (now - t)) (fst (freeSlot (None, None) i b))"
  have "dispatch L (None, None) now (ackMsg i) b = Some ?b" using r(1) by (simp add: dispatch_ack ackMsg_def)
  moreover have "log_ok ?b" "pendingOf ?b = (pendingOf b)(i := None)"
    using assms(2) r(1) wal_log.pend_ack [of _ i] wal_log.invar_ack [of _ i]
    by (auto simp: log_ok_def pendingOf_def freeSlot_wal split: option.splits)
  ultimately show ?thesis using r by auto
qed

lemma dispatchAll_acks:
  "distinct ids \<Longrightarrow> length turns = length ids \<Longrightarrow> \<forall>t\<in>set turns. t_ioAck t = (None, None) \<Longrightarrow>
   ring_ok (b_ring b) \<Longrightarrow> log_ok b \<Longrightarrow> inflight (b_ring b) = R + S \<Longrightarrow> image_mset fst S = mset ids \<Longrightarrow>
   \<forall>i\<in>set ids. i \<notin># image_mset fst R \<Longrightarrow>
   \<exists>b' rtts. dispatchAll L (zip turns (map ackMsg ids)) b = Some b' \<and> inflight (b_ring b') = R \<and>
     pendingOf b' = pendingOf b |` (- set ids) \<and> length rtts = length ids \<and> b_calls b' = b_calls b @ map2 OnAck ids rtts"
proof (induction ids arbitrary: turns b S)
  case Nil
  then show ?case by simp
next
  case (Cons i js)
  obtain t ts where turns: "turns = t # ts" "length ts = length js" using Cons.prems(2) by (cases turns) auto
  obtain f S' where S: "S = add_mset (i, f) S'" "image_mset fst S' = mset js"
    using Cons.prems(7) by (auto dest!: msed_map_invR)
  have "i \<notin># image_mset fst (R + S')" using Cons.prems(1,8) S(2) by simp
  moreover have "inflight (b_ring b) = add_mset (i, f) (R + S')" using Cons.prems(6) S(1) by simp
  ultimately obtain b1 rtt where b1: "dispatch L (None, None) (t_now t) (ackMsg i) b = Some b1" "ring_ok (b_ring b1)" "log_ok b1"
    "inflight (b_ring b1) = R + S'" "pendingOf b1 = (pendingOf b)(i := None)" "b_calls b1 = b_calls b @ [OnAck i rtt]"
    using dispatch_ackMsg [OF Cons.prems(4,5)] by blast
  have "distinct js" "\<forall>t\<in>set ts. t_ioAck t = (None, None)" "\<forall>i\<in>set js. i \<notin># image_mset fst R" "t_ioAck t = (None, None)"
    using Cons.prems turns by simp_all
  with Cons.IH [OF this(1) turns(2) this(2) b1(2-4) S(2) this(3)] obtain b' rtts where
    "dispatchAll L (zip ts (map ackMsg js)) b1 = Some b'" "inflight (b_ring b') = R"
    "pendingOf b' = pendingOf b1 |` (- set js)" "length rtts = length js" "b_calls b' = b_calls b1 @ map2 OnAck js rtts"
    "t_ioAck t = (None, None)" by blast
  moreover have "(pendingOf b)(i := None) |` (- set js) = pendingOf b |` (- set (i # js))"
    by (rule ext) (simp add: restrict_map_def)
  ultimately show ?case using b1 turns by (intro exI [of _ b'] exI [of _ "rtt # rtts"]) simp
qed

lemma acks_received:
  assumes "plain_up (b_conn a)" "\<not> b_stop a" "distinct ids" "length turns = length ids"
    and "\<forall>t\<in>set turns. \<not> t_stopped t \<and> t_ioAck t = (None, None)"
    and "ring_ok (b_ring a)" "log_ok a" "inflight (b_ring a) = R + S" "image_mset fst S = mset ids"
    and "\<forall>i\<in>set ids. i \<notin># image_mset fst R"
  shows "\<exists>a' rtts. readLoop L hs turns (arrives (concat (map msgBytes (map ackMsg ids))) a) = Continue a' \<and>
    inflight (b_ring a') = R \<and> pendingOf a' = pendingOf a |` (- set ids) \<and>
    length rtts = length ids \<and> b_calls a' = b_calls a @ map2 OnAck ids rtts"
proof -
  obtain l where l: "c_transport (b_conn a) = Plain l" "\<not> l_closed l" using assms(1) by (rule plain_upE)
  let ?rx = "concat (map msgBytes (map ackMsg ids))"
  let ?b = "arrives ?rx a"
  let ?a = "arrives [] a"
  have "pendingOf ?a = pendingOf a" "log_ok ?a" using assms(7) by (simp_all add: pendingOf_def log_ok_def)
  with dispatchAll_acks [OF assms(3,4) _ _ _ _ assms(9,10), of ?a L] assms(5,6,8)
  obtain a' rtts where a': "dispatchAll L (zip turns (map ackMsg ids)) ?a = Some a'" "inflight (b_ring a') = R"
    "pendingOf a' = pendingOf a |` (- set ids)" "length rtts = length ids" "b_calls a' = b_calls a @ map2 OnAck ids rtts"
    by auto
  have "readLoop L hs turns ?b = Continue a'"
  proof (rule readLoop_plain [where ms = "map ackMsg ids" and rest = "[]" and l = "l\<lparr>l_rx := ?rx\<rparr>"])
    have "?b\<lparr>b_conn := (b_conn ?b)\<lparr>c_transport := Plain (l\<lparr>l_rx := ?rx\<rparr>\<lparr>l_rx := []\<rparr>)\<rparr>\<rparr> = ?a"
      using l(1) by (simp add: arrives_def)
    then show "dispatchAll L (zip turns (map ackMsg ids))
        (?b\<lparr>b_conn := (b_conn ?b)\<lparr>c_transport := Plain (l\<lparr>l_rx := ?rx\<rparr>\<lparr>l_rx := []\<rparr>)\<rparr>\<rparr>) = Some a'"
      using a'(1) by (simp only:)
    show "\<forall>m\<in>set (map ackMsg ids). msg_ok m \<and> framedMsg m = m" by (simp add: ackMsg_ok)
  qed (use l assms(2,4,5) in \<open>simp_all add: arrives_def\<close>)
  with a' show ?thesis by blast
qed

section \<open>Sends that succeed\<close>

lemma Split_small:
  assumes "length payload \<le> ThresholdBytes"
  shows "\<exists>fs. Split E mid ct payload = Inr fs"
proof -
  have "length payload \<le> ChunkSize" using assms by (simp add: ThresholdBytes_def ChunkSize_def)
  then have "length (splitBytes payload) \<le> 1"
    by (cases "payload = []") (simp_all add: splitBytes_def splitLoop_step)
  then show ?thesis using assms by (simp add: Split_def Compress_def Let_def)
qed

text \<open>There is room for as many sends as there are free slots.\<close>

lemma sendAll_succeeds:
  "length qs \<le> length (freeIdx (b_ring a)) \<Longrightarrow> ring_ok (b_ring a) \<Longrightarrow> plain_up (b_conn a) \<Longrightarrow> log_ok a \<Longrightarrow>
   \<forall>q\<in>set qs. q_ioAppend q = (None, None) \<and> length (q_payload q) + 2 < 2 ^ 32 \<and>
     (\<forall>i. \<exists>fs. Split (zstdEncode L) i (q_ct q) (q_payload q) = Inr fs) \<Longrightarrow>
   \<exists>a' ids. sendAll L qs a = (a', map (\<lambda>i. Some (Inr i)) ids)"
proof (induction qs arbitrary: a)
  case Nil
  then show ?case by simp
next
  case (Cons q qs)
  have q: "q_ioAppend q = (None, None)" "length (q_payload q) + 2 < 2 ^ 32" using Cons.prems(5) by simp_all
  obtain fs where "Split (zstdEncode L) (b_msgIDCounter a + 1) (q_ct q) (q_payload q) = Inr fs"
    using Cons.prems(5) by (meson list.set_intros(1))
  moreover have "freeIdx (b_ring a) \<noteq> []" using Cons.prems(1) by auto
  moreover have "case b_wal a of None \<Rightarrow> True | Some w \<Rightarrow> wal_inv w" using Cons.prems(4) by (simp add: log_ok_def)
  ultimately obtain a1 where a1: "Send L (q_ioAppend q) (q_ioAck q) (q_now q) (q_ct q) (q_pr q) (q_payload q) a =
      (a1, Some (Inr (b_msgIDCounter a + 1)))"
    using Send_succeeds [OF _ Cons.prems(3) _ _ q(2)] q(1) by metis
  obtain fs' where up: "plain_up (b_conn a1)" using Send_wire [OF a1 Cons.prems(3)] by blast
  obtain fs r where r: "claimSlot (q_now q) (b_msgIDCounter a + 1) fs (b_ring a) = Some r" "b_ring a1 = r"
    "b_wal a1 = map_option (\<lambda>w. fst (Append None None (b_msgIDCounter a + 1) (packWALPayload (q_ct q) (q_pr q) (q_payload q)) w)) (b_wal a)"
    by (rule Send_okE [OF a1]) (auto simp: q(1))
  have "length qs \<le> length (freeIdx (b_ring a1))" "ring_ok (b_ring a1)"
    using ring_pool.put_Some [OF Cons.prems(2) r(1)] r(2) Cons.prems(1) by simp_all
  then obtain a' ids where "sendAll L qs a1 = (a', map (\<lambda>i. Some (Inr i)) ids)"
    using Cons.IH [OF _ _ up Append_log(1) [OF Cons.prems(4) q(2) r(3)]] Cons.prems(5) by auto
  then have "sendAll L (q # qs) a = (a', map (\<lambda>i. Some (Inr i)) ((b_msgIDCounter a + 1) # ids))" using a1 by simp
  then show ?case by blast
qed

text \<open>The two halves of a conversation: the messages at the receiver, and the acknowledgements at the sender.\<close>

lemma sendAll_arrives:
  assumes "zstd_roundtrip (zstdEncode L) (zstdDecode M)"
    and "sendAll L qs a = (a1, map (\<lambda>i. Some (Inr i)) ids)" and "plain_up (b_conn a)" and "can_receive b ids"
  shows "\<exists>n. \<forall>turns. length turns = n \<longrightarrow> (\<forall>t\<in>set turns. \<not> t_stopped t) \<longrightarrow>
    (\<exists>b1. readLoop M hs turns (arrives (newBytes a a1) b) = Continue b1 \<and> b_calls b1 = b_calls b @ map2 inboundOf ids qs \<and>
      b_tasks b1 = map ackMsg ids \<and> plain_up (b_conn b1))"
proof -
  have up: "plain_up (b_conn b)" "\<not> b_stop b" "b_tasks b = []" "card (dom (streams (b_assemb b))) < maxStreams (b_assemb b)"
      "list_all (\<lambda>i. streams (b_assemb b) i = None) ids"
    using assms(4) by (simp_all add: can_receive_def)
  obtain lb where lb: "c_transport (b_conn b) = Plain lb" "\<not> l_closed lb" using up(1) by (rule plain_upE)
  from sendAll_received [OF assms(1-3), of hs] obtain n sent where sent: "wire (b_conn a1) = wire (b_conn a) @ sent"
    and recv: "\<And>b l turns. c_transport (b_conn b) = Plain l \<Longrightarrow> \<not> l_closed l \<Longrightarrow> l_rx l = sent \<Longrightarrow> \<not> b_stop b \<Longrightarrow>
         card (dom (streams (b_assemb b))) < maxStreams (b_assemb b) \<Longrightarrow> list_all (\<lambda>i. streams (b_assemb b) i = None) ids \<Longrightarrow>
         length turns = n \<Longrightarrow> (\<forall>t\<in>set turns. \<not> t_stopped t) \<Longrightarrow>
         (\<exists>asmb. readLoop M hs turns b = Continue (b\<lparr>
             b_conn := (b_conn b)\<lparr>c_transport := Plain (l\<lparr>l_rx := []\<rparr>)\<rparr>, b_assemb := asmb,
             b_calls := b_calls b @ map2 inboundOf ids qs, b_tasks := b_tasks b @ map ackMsg ids\<rparr>))" by blast
  have new: "newBytes a a1 = sent" using sent by (simp add: newBytes_def)
  show ?thesis
  proof (intro exI [of _ n] allI impI)
    fix turns :: "turn list" assume turns: "length turns = n" "\<forall>t\<in>set turns. \<not> t_stopped t"
    let ?b = "arrives sent b"
    let ?l = "lb\<lparr>l_rx := sent\<rparr>"
    have "c_transport (b_conn ?b) = Plain ?l" "\<not> l_closed ?l" "l_rx ?l = sent" using lb by (simp_all add: arrives_def)
    from recv [OF this _ _ _ turns] up obtain asmb where
      "readLoop M hs turns ?b = Continue (?b\<lparr>b_conn := (b_conn ?b)\<lparr>c_transport := Plain (?l\<lparr>l_rx := []\<rparr>)\<rparr>, b_assemb := asmb,
             b_calls := b_calls ?b @ map2 inboundOf ids qs, b_tasks := b_tasks ?b @ map ackMsg ids\<rparr>)" by auto
    then show "\<exists>b1. readLoop M hs turns (arrives (newBytes a a1) b) = Continue b1 \<and> b_calls b1 = b_calls b @ map2 inboundOf ids qs \<and>
      b_tasks b1 = map ackMsg ids \<and> plain_up (b_conn b1)"
      using up(1,3) lb unfolding new by (auto simp: arrives_def link_up_def)
  qed
qed

lemma acks_return:
  assumes "sendAll L qs a = (a1, map (\<lambda>i. Some (Inr i)) ids)" and "can_send a ids"
    and "\<forall>q\<in>set qs. q_ioAppend q = (None, None) \<and> length (q_payload q) + 2 < 2 ^ 32" and "length qs < 2 ^ 64"
    and "plain_up (b_conn a1)" and "b_tasks b1 = map ackMsg ids" and "plain_up (b_conn b1)" and "drains picks (length ids)"
    and "length turns = length ids" and "\<forall>t\<in>set turns. \<not> t_stopped t \<and> t_ioAck t = (None, None)"
  shows "\<exists>a2 js rtts. readLoop L hs turns (arrives (newBytes b1 (runTasks M picks b1)) a1) = Continue a2 \<and>
    mset js = mset ids \<and> length rtts = length ids \<and> b_calls a2 = b_calls a @ map2 OnAck js rtts \<and>
    inflight (b_ring a2) = inflight (b_ring a) \<and> pendingOf a2 = pendingOf a"
proof -
  have up: "\<not> b_stop a" "ring_ok (b_ring a)" "log_ok a"
    and fresh: "\<forall>i\<in>set ids. pendingOf a i = None \<and> i \<notin># image_mset fst (inflight (b_ring a))"
    using assms(2) by (simp_all add: can_send_def list_all_iff)
  note st = sendAll_state [OF assms(1) up(2,3) assms(3)]
  then obtain S where S: "image_mset fst S = mset ids" "inflight (b_ring a1) = inflight (b_ring a) + S" by blast
  have dis: "distinct ids" using st word_of_nat_distinct [OF assms(4)] by metis
  obtain ms where ms: "mset ms = mset (b_tasks b1)"
    "wire (b_conn (runTasks M picks b1)) = wire (b_conn b1) @ concat (map msgBytes ms)"
    using runTasks_writes [of picks b1 M] assms(6-8) by auto
  obtain js where js: "ms = map ackMsg js" "mset js = mset ids" using acks_permuted [of ms ids] ms(1) assms(6) by auto
  have w: "newBytes b1 (runTasks M picks b1) = concat (map msgBytes (map ackMsg js))" using ms(2) js(1) by (simp add: newBytes_def)
  have j: "distinct js" "set js = set ids" "length js = length ids"
    using js(2) dis mset_eq_imp_distinct_iff mset_eq_setD mset_eq_length by blast+
  have "\<not> b_stop a1" using st up(1) by simp
  from acks_received [OF assms(5) this j(1) _ assms(10) _ _ S(2), of L hs] obtain a2 rtts where
    "readLoop L hs turns (arrives (concat (map msgBytes (map ackMsg js))) a1) = Continue a2"
    "inflight (b_ring a2) = inflight (b_ring a)" "pendingOf a2 = pendingOf a1 |` (- set js)" "length rtts = length js"
    "b_calls a2 = b_calls a1 @ map2 OnAck js rtts"
    using st S(1) js(2) j assms(9) fresh by auto
  moreover have "pendingOf a1 |` (- set js) = pendingOf a"
    using st fresh j(2) by (auto simp: restrict_map_def fun_eq_iff)
  ultimately show ?thesis using js(2) j(3) st unfolding w by auto
qed

section \<open>Properties\<close>

text \<open>
  C2: A conversation completes. Any number of successful sends from one broker to another over a plain connection
  are delivered to the peer's callback in the order they were sent, each exactly once with its content type
  and payload; in whatever order the peer's goroutines then write the acknowledgements, the
  sender's read loop reports each message acknowledged exactly once, and nothing of the
  conversation is left in flight or in the write-ahead log.
\<close>

theorem conversation_completes:
  assumes "zstd_roundtrip (zstdEncode L) (zstdDecode M)"
    and "sendAll L qs a = (a1, map (\<lambda>i. Some (Inr i)) ids)" and "can_send a ids" and "can_receive b ids"
    and "\<forall>q\<in>set qs. q_ioAppend q = (None, None) \<and> length (q_payload q) + 2 < 2 ^ 32" and "length qs < 2 ^ 64"
  shows "\<exists>n. \<forall>turnsB. length turnsB = n \<longrightarrow> (\<forall>t\<in>set turnsB. \<not> t_stopped t) \<longrightarrow>
    (\<exists>b1. readLoop M hsB turnsB (arrives (newBytes a a1) b) = Continue b1 \<and>
      b_calls b1 = b_calls b @ map2 inboundOf ids qs \<and>
      (\<forall>picks turnsA. drains picks (length ids) \<longrightarrow> length turnsA = length ids \<longrightarrow>
         (\<forall>t\<in>set turnsA. \<not> t_stopped t \<and> t_ioAck t = (None, None)) \<longrightarrow>
         (\<exists>a2 js rtts. readLoop L hsA turnsA (arrives (newBytes b1 (runTasks M picks b1)) a1) = Continue a2 \<and>
           mset js = mset ids \<and> length rtts = length ids \<and> b_calls a2 = b_calls a @ map2 OnAck js rtts \<and>
           inflight (b_ring a2) = inflight (b_ring a) \<and> pendingOf a2 = pendingOf a)))"
proof -
  have up: "plain_up (b_conn a)" using assms(3) by (simp add: can_send_def)
  have up1: "plain_up (b_conn a1)" using sendAll_received [OF assms(1,2) up] by blast
  obtain n where n: "\<forall>turns. length turns = n \<longrightarrow> (\<forall>t\<in>set turns. \<not> t_stopped t) \<longrightarrow>
    (\<exists>b1. readLoop M hsB turns (arrives (newBytes a a1) b) = Continue b1 \<and> b_calls b1 = b_calls b @ map2 inboundOf ids qs \<and>
      b_tasks b1 = map ackMsg ids \<and> plain_up (b_conn b1))"
    using sendAll_arrives [OF assms(1,2) up assms(4)] by (rule exE)
  note acks = acks_return [OF assms(2,3,5,6) up1, where M = M and hs = hsA]
  show ?thesis
  proof (intro exI [of _ n] allI impI)
    fix turnsB :: "turn list" assume "length turnsB = n" "\<forall>t\<in>set turnsB. \<not> t_stopped t"
    from n [THEN spec, THEN mp, THEN mp, OF this] acks show "\<exists>b1. readLoop M hsB turnsB (arrives (newBytes a a1) b) = Continue b1 \<and>
      b_calls b1 = b_calls b @ map2 inboundOf ids qs \<and>
      (\<forall>picks turnsA. drains picks (length ids) \<longrightarrow> length turnsA = length ids \<longrightarrow>
         (\<forall>t\<in>set turnsA. \<not> t_stopped t \<and> t_ioAck t = (None, None)) \<longrightarrow>
         (\<exists>a2 js rtts. readLoop L hsA turnsA (arrives (newBytes b1 (runTasks M picks b1)) a1) = Continue a2 \<and>
           mset js = mset ids \<and> length rtts = length ids \<and> b_calls a2 = b_calls a @ map2 OnAck js rtts \<and>
           inflight (b_ring a2) = inflight (b_ring a) \<and> pendingOf a2 = pendingOf a))"
      by (elim exE conjE) (intro exI conjI, assumption+, blast)
  qed
qed

text \<open>Two messages whose acknowledgements are written in the opposite order.\<close>

definition exampleRequests :: "request list" where
  "exampleRequests = map (\<lambda>n. \<lparr>q_ioAppend = (None, None), q_ioAck = (None, None), q_now = 5, q_ct = ContentText,
     q_pr = PriorityNormal, q_payload = [n]\<rparr>) [7, 8]"

theorem conversation_completes_witness:
  "\<exists>a1 n. sendAll exampleLibs exampleRequests (exampleBroker [] None) = (a1, map (\<lambda>i. Some (Inr i)) [1, 2]) \<and>
    (\<forall>turns. length turns = n \<longrightarrow> (\<forall>t\<in>set turns. \<not> t_stopped t) \<longrightarrow>
      (\<exists>b1. readLoop exampleLibs None turns (arrives (newBytes (exampleBroker [] None) a1) (exampleBroker [] None)) = Continue b1 \<and>
        b_calls b1 = [OnInbound \<lparr>im_MsgID = 1, im_ContentType = ContentText, im_Payload = [7]\<rparr>,
                      OnInbound \<lparr>im_MsgID = 2, im_ContentType = ContentText, im_Payload = [8]\<rparr>] \<and>
        (\<exists>a2. readLoop exampleLibs None (replicate 2 \<lparr>t_ioAck = (None, None), t_now = 9, t_stopped = False, t_attempts = []\<rparr>)
            (arrives (newBytes b1 (runTasks exampleLibs [1, 0] b1)) a1) = Continue a2 \<and>
          inflight (b_ring a2) = {#} \<and> length (b_calls a2) = 2)))"
proof -
  let ?a = "exampleBroker [] None"
  have z: "zstd_roundtrip (zstdEncode exampleLibs) (zstdDecode exampleLibs)"
    by (simp add: zstd_roundtrip_def exampleLibs_def)
  have io: "\<forall>q\<in>set exampleRequests. q_ioAppend q = (None, None) \<and> length (q_payload q) + 2 < 2 ^ 32"
    by (simp add: exampleRequests_def)
  have sp: "\<forall>q\<in>set exampleRequests. \<forall>i. \<exists>fs. Split (zstdEncode exampleLibs) i (q_ct q) (q_payload q) = Inr fs"
    using Split_small by (simp add: exampleRequests_def ThresholdBytes_def)
  have a: "ring_ok (b_ring ?a)" "plain_up (b_conn ?a)" "log_ok ?a" "length exampleRequests \<le> length (freeIdx (b_ring ?a))"
    using plain_up_example [of "[]"] by (simp_all add: ring_ok_new log_ok_def exampleRequests_def del: plain_up.simps)
  obtain a1 ids where s: "sendAll exampleLibs exampleRequests ?a = (a1, map (\<lambda>i. Some (Inr i)) ids)"
    using sendAll_succeeds [OF a(4,1-3), of exampleLibs] io sp by blast
  have ids: "ids = [1, 2]"
    using sendAll_state [OF s a(1,3) io] by (simp add: exampleRequests_def)
  have cs: "can_send ?a ids" "can_receive ?a ids"
    using a by (simp_all add: can_send_def can_receive_def pendingOf_def exampleBroker_def NewAssembler_def DefaultMaxStreams_def list_all_iff
        del: plain_up.simps)
  have len: "length exampleRequests < 2 ^ 64" by (simp add: exampleRequests_def)
  obtain n where n: "\<And>turns :: turn list. length turns = n \<Longrightarrow> \<forall>t\<in>set turns. \<not> t_stopped t \<Longrightarrow>
    (\<exists>b1. readLoop exampleLibs None turns (arrives (newBytes ?a a1) ?a) = Continue b1 \<and>
      b_calls b1 = b_calls ?a @ map2 inboundOf ids exampleRequests \<and>
      (\<forall>picks turnsA. drains picks (length ids) \<longrightarrow> length turnsA = length ids \<longrightarrow>
         (\<forall>t\<in>set turnsA. \<not> t_stopped t \<and> t_ioAck t = (None, None)) \<longrightarrow>
         (\<exists>a2 js rtts. readLoop exampleLibs None turnsA (arrives (newBytes b1 (runTasks exampleLibs picks b1)) a1) = Continue a2 \<and>
           mset js = mset ids \<and> length rtts = length ids \<and> b_calls a2 = b_calls ?a @ map2 OnAck js rtts \<and>
           inflight (b_ring a2) = inflight (b_ring ?a) \<and> pendingOf a2 = pendingOf ?a)))"
    using conversation_completes [OF z s cs io len] by blast
  show ?thesis
  proof (rule exI [of _ a1], rule exI [of _ n], intro conjI allI impI)
    show "sendAll exampleLibs exampleRequests ?a = (a1, map (\<lambda>i. Some (Inr i)) [1, 2])" using s ids by simp
  next
    fix turns :: "turn list"
    assume "length turns = n" "\<forall>t\<in>set turns. \<not> t_stopped t"
    from n [OF this] obtain b1 where b1: "readLoop exampleLibs None turns (arrives (newBytes ?a a1) ?a) = Continue b1"
      "b_calls b1 = b_calls ?a @ map2 inboundOf ids exampleRequests"
      and fin: "\<And>picks turnsA. drains picks (length ids) \<Longrightarrow> length turnsA = length ids \<Longrightarrow>
         (\<forall>t\<in>set turnsA. \<not> t_stopped t \<and> t_ioAck t = (None, None)) \<Longrightarrow>
         (\<exists>a2 js rtts. readLoop exampleLibs None turnsA (arrives (newBytes b1 (runTasks exampleLibs picks b1)) a1) = Continue a2 \<and>
           mset js = mset ids \<and> length rtts = length ids \<and> b_calls a2 = b_calls ?a @ map2 OnAck js rtts \<and>
           inflight (b_ring a2) = inflight (b_ring ?a) \<and> pendingOf a2 = pendingOf ?a)" by blast
    obtain a2 js rtts where a2: "readLoop exampleLibs None (replicate 2 \<lparr>t_ioAck = (None, None), t_now = 9, t_stopped = False, t_attempts = []\<rparr>)
          (arrives (newBytes b1 (runTasks exampleLibs [1, 0] b1)) a1) = Continue a2"
        "mset js = mset ids" "length rtts = length ids" "b_calls a2 = map2 OnAck js rtts" "inflight (b_ring a2) = {#}"
      using fin [of "[1, 0]" "replicate 2 \<lparr>t_ioAck = (None, None), t_now = 9, t_stopped = False, t_attempts = []\<rparr>"] ids by auto
    have "length js = length ids" using a2(2) by (rule mset_eq_length)
    then have "length (b_calls a2) = 2" using a2(3,4) ids by simp
    then show "\<exists>b1. readLoop exampleLibs None turns (arrives (newBytes ?a a1) ?a) = Continue b1 \<and>
        b_calls b1 = [OnInbound \<lparr>im_MsgID = 1, im_ContentType = ContentText, im_Payload = [7]\<rparr>,
                      OnInbound \<lparr>im_MsgID = 2, im_ContentType = ContentText, im_Payload = [8]\<rparr>] \<and>
        (\<exists>a2. readLoop exampleLibs None (replicate 2 \<lparr>t_ioAck = (None, None), t_now = 9, t_stopped = False, t_attempts = []\<rparr>)
            (arrives (newBytes b1 (runTasks exampleLibs [1, 0] b1)) a1) = Continue a2 \<and>
          inflight (b_ring a2) = {#} \<and> length (b_calls a2) = 2)"
      using b1 a2 ids by (intro exI [of _ b1]) (simp add: exampleRequests_def inboundOf_def)
  qed
qed

text \<open>A message whose bytes arrive twice, and an acknowledgement that arrives twice.\<close>

lemma twice_received:
  assumes "zstd_roundtrip (zstdEncode L) (zstdDecode M)"
    and "Send L ioAppend ioAck now ct pr payload a = (a', Some (Inr mid))" and "plain_up (b_conn a)" and "can_receive b [mid]"
  shows "\<exists>n. \<forall>turns. length turns = n \<longrightarrow> (\<forall>t\<in>set turns. \<not> t_stopped t) \<longrightarrow>
      (\<exists>b'. readLoop M hs turns (arrives (newBytes a a' @ newBytes a a') b) = Continue b' \<and>
        b_calls b' = b_calls b @ replicate 2 (OnInbound \<lparr>im_MsgID = mid, im_ContentType = ct, im_Payload = payload\<rparr>) \<and>
        b_tasks b' = replicate 2 (ackMsg mid))"
proof -
  have b: "plain_up (b_conn b)" "\<not> b_stop b" "b_tasks b = []" "card (dom (streams (b_assemb b))) < maxStreams (b_assemb b)"
    "streams (b_assemb b) mid = None" using assms(4) by (simp_all add: can_receive_def)
  obtain l where l: "c_transport (b_conn b) = Plain l" "\<not> l_closed l" using b(1) by (rule plain_upE)
  obtain fs where fs: "Split (zstdEncode L) mid ct payload = Inr fs"
    "wire (b_conn a') = wire (b_conn a) @ concat (map msgBytes (map (setPriority pr) fs))"
    using Send_wire [OF assms(2,3)] by blast
  let ?m = "concat (map msgBytes (map (setPriority pr) fs))"
  let ?in = "OnInbound \<lparr>im_MsgID = mid, im_ContentType = ct, im_Payload = payload\<rparr>"
  have new: "newBytes a a' = ?m" using fs(2) by (simp add: newBytes_def)
  note recv = fragments_received [OF assms(1) fs(1), of _ _ pr, where hs = hs]
  show "\<exists>n. \<forall>turns. length turns = n \<longrightarrow> (\<forall>t\<in>set turns. \<not> t_stopped t) \<longrightarrow>
      (\<exists>b'. readLoop M hs turns (arrives (newBytes a a' @ newBytes a a') b) = Continue b' \<and>
        b_calls b' = b_calls b @ replicate 2 ?in \<and> b_tasks b' = replicate 2 (ackMsg mid))"
  proof (intro exI [of _ "length fs + length fs"] allI impI)
    fix turns :: "turn list"
    assume t: "length turns = length fs + length fs" "\<forall>t\<in>set turns. \<not> t_stopped t"
    define ts us where "ts = take (length fs) turns" and "us = drop (length fs) turns"
    have tu: "turns = ts @ us" "length ts = length fs" "length us = length fs" "\<forall>t\<in>set ts. \<not> t_stopped t" "\<forall>t\<in>set us. \<not> t_stopped t"
      using t by (auto simp: ts_def us_def dest: in_set_takeD in_set_dropD)
    let ?b = "arrives (?m @ ?m) b"
    have lb: "c_transport (b_conn ?b) = Plain (l\<lparr>l_rx := ?m @ ?m\<rparr>)" using l(1) by (simp add: arrives_def)
    obtain x where x: "streams x = streams (b_assemb b)" "maxStreams x = maxStreams (b_assemb b)"
      "readLoop M hs ts ?b = Continue (?b\<lparr>b_conn := (b_conn ?b)\<lparr>c_transport := Plain (l\<lparr>l_rx := ?m @ ?m\<rparr>\<lparr>l_rx := ?m\<rparr>)\<rparr>,
           b_assemb := x, b_calls := b_calls ?b @ [?in], b_tasks := b_tasks ?b @ [ackMsg mid]\<rparr>)"
      using recv [of ?b "l\<lparr>l_rx := ?m @ ?m\<rparr>" ?m ts] lb l(2) b tu(2,4) by auto
    define b1 where "b1 = ?b\<lparr>b_conn := (b_conn ?b)\<lparr>c_transport := Plain (l\<lparr>l_rx := ?m @ ?m\<rparr>\<lparr>l_rx := ?m\<rparr>)\<rparr>,
           b_assemb := x, b_calls := b_calls ?b @ [?in], b_tasks := b_tasks ?b @ [ackMsg mid]\<rparr>"
    have b1: "c_transport (b_conn b1) = Plain (l\<lparr>l_rx := ?m\<rparr>)" "b_assemb b1 = x" "\<not> b_stop b1" "b_calls b1 = b_calls b @ [?in]"
      "b_tasks b1 = [ackMsg mid]" using b(2,3) by (simp_all add: b1_def)
    have x3: "readLoop M hs ts ?b = Continue b1" using x(3) by (simp only: b1_def)
    obtain y b2 where "readLoop M hs us b1 = Continue b2" "b_calls b2 = b_calls b1 @ [?in]" "b_tasks b2 = b_tasks b1 @ [ackMsg mid]"
      using recv [of b1 "l\<lparr>l_rx := ?m\<rparr>" "[]" us] b1 x(1,2) l(2) b(4,5) tu(3,5) by auto
    then show "\<exists>b'. readLoop M hs turns (arrives (newBytes a a' @ newBytes a a') b) = Continue b' \<and>
        b_calls b' = b_calls b @ replicate 2 ?in \<and> b_tasks b' = replicate 2 (ackMsg mid)"
      using x3 b1(4,5) unfolding new tu(1) readLoop_append by (simp add: numeral_2_eq_2)
  qed
qed

lemma twice_acknowledged:
  assumes "Send L ioAppend ioAck now ct pr payload a = (a', Some (Inr mid))"
    and "ring_ok (b_ring a)" and "mid \<notin># image_mset fst (inflight (b_ring a))"
  shows "\<forall>t1 t2. \<exists>a2 rtt. dispatchAll L [(t1, ackMsg mid), (t2, ackMsg mid)] a' = Some a2 \<and>
      b_calls a2 = b_calls a @ [OnAck mid rtt] \<and> inflight (b_ring a2) = inflight (b_ring a)"
proof -
  obtain fs' r where r: "claimSlot now mid (map (setPriority pr) fs') (b_ring a) = Some r" "b_ring a' = r" "b_calls a' = b_calls a"
    by (rule Send_okE [OF assms(1)]) auto
  have free: "(mid, w) \<notin># inflight (b_ring a)" for w using assms(3) by (force simp: image_iff)
  obtain r2 where r2: "releaseSlot mid r = (r2, Some now)" "ring_ok r2" "inflight r2 = inflight (b_ring a)"
    using release_claimed [OF assms(2) r(1) free] by blast
  have again: "releaseSlot mid r2 = (r2, None)"
    using r2(2) by (cases rule: ring_pool.del_cases [of r2 mid]) (use r2(3) free in auto)
  show "\<forall>t1 t2. \<exists>a2 rtt. dispatchAll L [(t1, ackMsg mid), (t2, ackMsg mid)] a' = Some a2 \<and>
      b_calls a2 = b_calls a @ [OnAck mid rtt] \<and> inflight (b_ring a2) = inflight (b_ring a)"
    using r r2 again by (simp add: dispatch_ack ackMsg_def)
qed

text \<open>
  C14: Delivery is at least once, acknowledgement once. If the fragments of a message reach the peer twice, as after a
  time-out whose acknowledgement was only late, the peer's callback gets the message twice under the same
  identifier and two acknowledgements are queued; at the sender the first of them completes the message
  and the second has no effect.
\<close>

theorem duplicate_delivered_again:
  assumes "zstd_roundtrip (zstdEncode L) (zstdDecode M)"
    and "Send L ioAppend ioAck now ct pr payload a = (a', Some (Inr mid))" and "can_send a [mid]" and "can_receive b [mid]"
  shows "(\<exists>n. \<forall>turns. length turns = n \<longrightarrow> (\<forall>t\<in>set turns. \<not> t_stopped t) \<longrightarrow>
      (\<exists>b'. readLoop M hs turns (arrives (newBytes a a' @ newBytes a a') b) = Continue b' \<and>
        b_calls b' = b_calls b @ replicate 2 (OnInbound \<lparr>im_MsgID = mid, im_ContentType = ct, im_Payload = payload\<rparr>) \<and>
        b_tasks b' = replicate 2 (ackMsg mid))) \<and>
    (\<forall>t1 t2. \<exists>a2 rtt. dispatchAll L [(t1, ackMsg mid), (t2, ackMsg mid)] a' = Some a2 \<and>
      b_calls a2 = b_calls a @ [OnAck mid rtt] \<and> inflight (b_ring a2) = inflight (b_ring a))"
proof
  have a: "plain_up (b_conn a)" "ring_ok (b_ring a)" "mid \<notin># image_mset fst (inflight (b_ring a))"
    using assms(3) by (simp_all add: can_send_def)
  show "\<exists>n. \<forall>turns. length turns = n \<longrightarrow> (\<forall>t\<in>set turns. \<not> t_stopped t) \<longrightarrow>
      (\<exists>b'. readLoop M hs turns (arrives (newBytes a a' @ newBytes a a') b) = Continue b' \<and>
        b_calls b' = b_calls b @ replicate 2 (OnInbound \<lparr>im_MsgID = mid, im_ContentType = ct, im_Payload = payload\<rparr>) \<and>
        b_tasks b' = replicate 2 (ackMsg mid))"
    by (rule twice_received [OF assms(1,2) a(1) assms(4)])
  show "\<forall>t1 t2. \<exists>a2 rtt. dispatchAll L [(t1, ackMsg mid), (t2, ackMsg mid)] a' = Some a2 \<and>
      b_calls a2 = b_calls a @ [OnAck mid rtt] \<and> inflight (b_ring a2) = inflight (b_ring a)"
    by (rule twice_acknowledged [OF assms(2) a(2,3)])
qed

theorem duplicate_delivered_again_witness:
  "\<exists>a' n b'. Send exampleLibs (None, None) (None, None) 5 ContentText PriorityHigh [1, 2, 3] (exampleBroker [] None) = (a', Some (Inr 1)) \<and>
    readLoop exampleLibs None (replicate n \<lparr>t_ioAck = (None, None), t_now = 9, t_stopped = False, t_attempts = []\<rparr>)
      (arrives (newBytes (exampleBroker [] None) a' @ newBytes (exampleBroker [] None) a') (exampleBroker [] None)) = Continue b' \<and>
    length (b_calls b') = 2"
proof -
  let ?a = "exampleBroker [] None" and ?t = "\<lparr>t_ioAck = (None, None), t_now = 9, t_stopped = False, t_attempts = []\<rparr> :: turn"
  obtain a' where a': "Send exampleLibs (None, None) (None, None) 5 ContentText PriorityHigh [1, 2, 3] ?a = (a', Some (Inr 1))"
    using example_send [of None] by auto
  have z: "zstd_roundtrip (zstdEncode exampleLibs) (zstdDecode exampleLibs)" by (simp add: zstd_roundtrip_def exampleLibs_def)
  have cs: "can_send ?a [1]" "can_receive ?a [1]"
    using plain_up_example [of "[]"]
    by (simp_all add: can_send_def can_receive_def pendingOf_def log_ok_def ring_ok_new exampleBroker_def NewAssembler_def DefaultMaxStreams_def
        del: plain_up.simps)
  obtain n where n: "\<And>turns :: turn list. length turns = n \<Longrightarrow> \<forall>t\<in>set turns. \<not> t_stopped t \<Longrightarrow>
      \<exists>b'. readLoop exampleLibs None turns (arrives (newBytes ?a a' @ newBytes ?a a') ?a) = Continue b' \<and>
        b_calls b' = b_calls ?a @ replicate 2 (OnInbound \<lparr>im_MsgID = 1, im_ContentType = ContentText, im_Payload = [1, 2, 3]\<rparr>) \<and>
        b_tasks b' = replicate 2 (ackMsg 1)"
    using duplicate_delivered_again [OF z a' cs, of None, THEN conjunct1] by (elim exE) meson
  have "\<forall>t\<in>set (replicate n ?t). \<not> t_stopped t" by simp
  from n [OF length_replicate this] obtain b' where
    r: "readLoop exampleLibs None (replicate n ?t) (arrives (newBytes ?a a' @ newBytes ?a a') ?a) = Continue b'"
    and c: "b_calls b' = b_calls ?a @ replicate 2 (OnInbound \<lparr>im_MsgID = 1, im_ContentType = ContentText, im_Payload = [1, 2, 3]\<rparr>)" by (elim exE conjE)
  have "length (b_calls b') = 2" using c by simp
  then show ?thesis by (intro exI conjI) (rule a', rule r)
qed

end
