(* ===== verification/Client_Session.thy ===== *)
theory Client_Session
  imports P2P_Bench Conversation
begin

text \<open>
  A session of the command-line client: the start of \<^verbatim>\<open>main\<close> in \<^verbatim>\<open>cmd/p2p/main.go\<close> and of \<open>runBench\<close> in
  \<^verbatim>\<open>cmd/p2p/bench.go\<close> up to the running broker, the callbacks, what either side of a chat shows, and how the
  program ends. Chat is composed with the brokers of \<^verbatim>\<open>Conversation\<close>. Printing is left out except for the notices
  and the peer's messages.
\<close>

section \<open>Start\<close>

record clientFlags =
  cf_noCrypto :: bool
  cf_id :: string
  cf_known :: string
  cf_streams :: int

text \<open>The files, the first call of the session's dial function, and the handshake on its connection.\<close>

record 'cs clientEnv =
  ce_id :: idEnv
  ce_files :: files
  ce_dial :: "link result"
  ce_shake :: "HandshakeConfig \<Rightarrow> KnownPeers option \<Rightarrow> files \<Rightarrow> link \<Rightarrow> 'cs Session result"

definition clientCrypto ::
  "(string \<Rightarrow> bytes) \<Rightarrow> 'cs clientEnv \<Rightarrow> bool \<Rightarrow> string \<Rightarrow> string \<Rightarrow> string \<Rightarrow> bool \<Rightarrow> (HandshakeConfig \<times> KnownPeers option \<times> files) option result" where
  "clientCrypto sha256 env noCrypto idPath knownPath code initiator =
     (if noCrypto then Inr None
      else case LoadOrGenerateIdentity (ce_id env) idPath (ce_files env) of
             (fs, Inl e) \<Rightarrow> Inl (Wrap ''identity'' e)
           | (fs, Inr ident) \<Rightarrow>
               (case LoadKnownPeers (ce_id env) knownPath fs of
                  (_, Some e) \<Rightarrow> Inl (Wrap ''known_peers'' e)
                | (kp, None) \<Rightarrow> Inr (Some (mainConfig sha256 ident code initiator, kp, fs))))"

text \<open>
  The start ends with an exit code, a fatal error, the benchmark, or a broker with the handshake configuration
  for reconnects and the mode. A broker without a log never waits when it starts.
\<close>

datatype 'cs clientStart =
    ExitCode nat
  | Fatal error
  | StartBench "string list"
  | Started "'cs Broker" "HandshakeConfig option" sendMode

definition clientBroker ::
  "'cs libs \<Rightarrow> 'cs clientEnv \<Rightarrow> (HandshakeConfig \<times> KnownPeers option \<times> files) option \<Rightarrow> 'cs Broker result" where
  "clientBroker L env hsCfg =
     (case New (ce_dial env) (map_option (\<lambda>(cfg, kp, fs). ce_shake env cfg kp fs) hsCfg) True 0 of
        Inl e \<Rightarrow> Inl (Wrap ''connect'' e)
      | Inr c \<Rightarrow>
          (case NewBroker L 0 None IoEOF (Some c) None \<lparr>RetryBuffer = 0, ACKTimeout = 30 * 10 ^ 9, MaxRetries = 0\<rparr> of
             Some (Inr b) \<Rightarrow> Inr b
           | Some (Inl e) \<Rightarrow> Inl (Wrap ''broker'' e)
           | None \<Rightarrow> Inl (Errorf ''waits'')))"

definition clientMain ::
  "(string \<Rightarrow> bytes) \<Rightarrow> 'cs libs \<Rightarrow> 'cs clientEnv \<Rightarrow> clientFlags \<Rightarrow> string \<Rightarrow> string list \<Rightarrow> 'cs clientStart" where
  "clientMain sha256 L env fl generated args =
     (case parseCommand generated args of
        Usage \<Rightarrow> ExitCode 2
      | RelayHint \<Rightarrow> ExitCode 2
      | BenchMode rest \<Rightarrow> StartBench rest
      | Session code initiator sendPaths \<Rightarrow>
          (case clientCrypto sha256 env (cf_noCrypto fl) (cf_id fl) (cf_known fl) code initiator of
             Inl e \<Rightarrow> Fatal e
           | Inr hsCfg \<Rightarrow>
               (case clientBroker L env hsCfg of
                  Inl e \<Rightarrow> Fatal e
                | Inr b \<Rightarrow>
                    Started b (map_option (\<lambda>(cfg, kp, fs). afterConnect cfg) hsCfg)
                      (chooseMode sendPaths (parallelOK (cf_noCrypto fl) (cf_streams fl)) initiator))))"

text \<open>The start of the benchmark: parallel sessions, or one session like that of \<open>main\<close>, always encrypted.\<close>

datatype 'cs benchStart =
    BenchFatal error
  | BenchParallel HandshakeConfig "KnownPeers option" int string bool
  | BenchSession "'cs Broker" HandshakeConfig string bool

definition runBench ::
  "(string \<Rightarrow> bytes) \<Rightarrow> 'cs libs \<Rightarrow> 'cs clientEnv \<Rightarrow> clientFlags \<Rightarrow> string \<Rightarrow> string list \<Rightarrow> 'cs benchStart" where
  "runBench sha256 L env fl generated args =
     (let (code, initiator) = benchRole generated args; (sizesCSV, streamsN) = benchArgs args in
      case clientCrypto sha256 env False (cf_id fl) (cf_known fl) code initiator of
        Inl e \<Rightarrow> BenchFatal e
      | Inr None \<Rightarrow> BenchFatal (Errorf ''no identity'')
      | Inr (Some (cfg, kp, fs)) \<Rightarrow>
          if benchUsesParallel streamsN then BenchParallel cfg kp streamsN sizesCSV initiator
          else (case clientBroker L env (Some (cfg, kp, fs)) of
                  Inl e \<Rightarrow> BenchFatal e
                | Inr b \<Rightarrow> BenchSession b (afterConnect cfg) sizesCSV initiator))"

text \<open>
  The benchmark's acknowledgement times go into a channel of eight, when there is room; the latency is the first
  time that comes in after the channel was drained, zero when none does.
\<close>

definition rttAck :: "int \<Rightarrow> int list \<Rightarrow> int list" where
  "rttAck d rtt = (if length rtt < 8 then rtt @ [d] else rtt)"

definition benchLatency :: "int list \<Rightarrow> int" where
  "benchLatency acks = (case foldl (\<lambda>q d. rttAck d q) [] acks of [] \<Rightarrow> 0 | latency # _ \<Rightarrow> latency)"

section \<open>Callbacks\<close>

text \<open>
  What the callbacks share with \<^verbatim>\<open>main\<close>: the messages for it, the notices printed, whether the peer was given
  up, and whether a transfer silences the notices. Closing a closed channel panics, which is \<open>None\<close>.
\<close>

datatype notice = PeerOffline | PeerOnline string | PeerLost | Delivered int

record clientState =
  cl_inbound :: "InboundMsg list"
  cl_notices :: "notice list"
  cl_dropped :: bool
  cl_inTransfer :: bool

fun clientCallback :: "bool \<Rightarrow> string \<Rightarrow> callback \<Rightarrow> clientState \<Rightarrow> clientState option" where
  "clientCallback debug mode (OnInbound m) s = Some (s\<lparr>cl_inbound := cl_inbound s @ [m]\<rparr>)"
| "clientCallback debug mode OnDisconnected s =
     Some (if cl_inTransfer s then s else s\<lparr>cl_notices := cl_notices s @ [PeerOffline]\<rparr>)"
| "clientCallback debug mode OnReconnected s =
     Some (if cl_inTransfer s then s else s\<lparr>cl_notices := cl_notices s @ [PeerOnline mode]\<rparr>)"
| "clientCallback debug mode OnReconnectFailed s =
     (if cl_dropped s then None else Some (s\<lparr>cl_notices := cl_notices s @ [PeerLost], cl_dropped := True\<rparr>))"
| "clientCallback debug mode (OnAck i rtt) s =
     Some (if debug \<and> \<not> cl_inTransfer s then s\<lparr>cl_notices := cl_notices s @ [Delivered rtt]\<rparr> else s)"
| "clientCallback debug mode (OnDead i e) s = Some s"

fun clientCallbacks :: "bool \<Rightarrow> string \<Rightarrow> callback list \<Rightarrow> clientState \<Rightarrow> clientState option" where
  "clientCallbacks debug mode [] s = Some s"
| "clientCallbacks debug mode (c # cs) s =
     (case clientCallback debug mode c s of None \<Rightarrow> None | Some s' \<Rightarrow> clientCallbacks debug mode cs s')"

section \<open>Chat\<close>

text \<open>A received message as the transfer layer sees it; \<open>parse\<close> reads JSON.\<close>

definition toMsg :: "(bytes \<Rightarrow> doc option) \<Rightarrow> InboundMsg \<Rightarrow> Msg" where
  "toMsg parse m =
     (if im_ContentType m = ContentBinary then BinaryMsg (im_Payload m)
      else if im_ContentType m = ContentJSON
      then (case parse (im_Payload m) of Some d \<Rightarrow> JsonMsg d | None \<Rightarrow> OtherMsg)
      else OtherMsg)"

text \<open>What the chat initiator shows, and what the joiner shows, whose first message has chosen chat.\<close>

definition initiatorShows :: "(bytes \<Rightarrow> doc option) \<Rightarrow> InboundMsg list \<Rightarrow> bytes list" where
  "initiatorShows parse ms = map im_Payload (filter (\<lambda>m. classify (toMsg parse m) \<noteq> ''chat'') ms)"

definition joinerShows :: "(bytes \<Rightarrow> doc option) \<Rightarrow> InboundMsg \<Rightarrow> InboundMsg list \<Rightarrow> bytes list" where
  "joinerShows parse first rest =
     (case joinerMode (toMsg parse first) of
        JoinChat shown \<Rightarrow> (if shown \<noteq> None then [im_Payload first] else []) @ map im_Payload rest
      | _ \<Rightarrow> [])"

text \<open>A typed line is sent as text; waiting for a slot is not modelled here.\<close>

definition textRequest :: "string \<Rightarrow> request" where
  "textRequest line = \<lparr>q_ioAppend = (None, None), q_ioAck = (None, None), q_now = 0, q_ct = ContentText, q_pr = PriorityNormal,
     q_payload = asBytes line\<rparr>"

definition helloRequest :: "bytes \<Rightarrow> request" where
  "helloRequest hello = \<lparr>q_ioAppend = (None, None), q_ioAck = (None, None), q_now = 0, q_ct = ContentJSON, q_pr = PriorityNormal,
     q_payload = hello\<rparr>"

definition sendText :: "'cs libs \<Rightarrow> 'cs Broker \<Rightarrow> string \<Rightarrow> 'cs Broker \<times> error option" where
  "sendText L b line =
     (case Broker.Send L (None, None) (None, None) 0 ContentText PriorityNormal (asBytes line) b of
        (b', Some (Inl e)) \<Rightarrow> (b', Some e)
      | (b', _) \<Rightarrow> (b', None))"

definition chatInitiator :: "'cs libs \<Rightarrow> bytes \<Rightarrow> string list \<Rightarrow> 'cs Broker \<Rightarrow> 'cs Broker \<times> bool" where
  "chatInitiator L hello typed b =
     (case Broker.Send L (None, None) (None, None) 0 ContentJSON PriorityNormal hello b of
        (b', _) \<Rightarrow> chatLoop (sendText L) typed b')"

section \<open>The end\<close>

text \<open>The first of the events that end the program; after it the broker is closed.\<close>

datatype clientEvent = SignalCaught | QuitClosed | DroppedClosed

fun clientEnd :: "'cs libs \<Rightarrow> clientEvent list \<Rightarrow> 'cs Broker \<Rightarrow> ('cs Broker \<times> bool) option" where
  "clientEnd L [] b = None"
| "clientEnd L (ev # evs) b = Some (fst (CloseBroker L b), ev = QuitClosed)"

section \<open>Starting\<close>

text \<open>A session that starts: the mode is the one chosen, and the pass code is not used for reconnects.\<close>

lemma clientMain_started:
  assumes "clientMain sha256 L env fl generated args = Started b cfg mode"
  shows "\<exists>code initiator paths. parseCommand generated args = Session code initiator paths \<and>
    mode = chooseMode paths (parallelOK (cf_noCrypto fl) (cf_streams fl)) initiator \<and>
    (cfg = None \<longleftrightarrow> cf_noCrypto fl) \<and>
    (\<forall>c. cfg = Some c \<longrightarrow> hc_PAKECode c = [] \<and> hc_PeerName c = SessionIDOf sha256 code \<and> hc_Initiator c = initiator) \<and>
    b_wal b = None \<and> b_msgIDCounter b = 0 \<and> ring_ok (b_ring b) \<and> length (freeIdx (b_ring b)) = 10000"
  using assms
  by (auto simp: clientMain_def clientCrypto_def clientBroker_def NewBroker_def withDefaults_def DefaultRetryBuffer_def ring_ok_new
      afterConnect_def mainConfig_def Let_def split: command.splits sum.splits option.splits if_splits prod.splits)

section \<open>Lines of a chat\<close>

definition quits :: "string \<Rightarrow> bool" where "quits line \<longleftrightarrow> line = ''/quit'' \<or> line = ''/exit''"

lemma chatLoop_sends:
  "chatLoop (sendText L) typed b =
     (fst (sendAll L (map textRequest (takeWhile (\<lambda>l. \<not> quits l) typed)) b), \<exists>l\<in>set typed. quits l)"
proof (induction typed arbitrary: b)
  case (Cons l ls)
  have "fst (sendText L b l) =
      fst (Broker.Send L (None, None) (None, None) 0 ContentText PriorityNormal (asBytes l) b)"
    by (auto simp: sendText_def split: prod.splits option.splits sum.splits)
  then show ?case using Cons.IH by (simp add: quits_def textRequest_def split: prod.split)
qed simp

lemma clientCallbacks_inbound:
  "clientCallbacks debug mode (map OnInbound ms) s = Some (s\<lparr>cl_inbound := cl_inbound s @ ms\<rparr>)"
  by (induction ms arbitrary: s) simp_all

lemma map2_inboundOf:
  "length ids = length qs \<Longrightarrow>
   map2 inboundOf ids qs = map OnInbound (map2 (\<lambda>i q. \<lparr>im_MsgID = i, im_ContentType = q_ct q, im_Payload = q_payload q\<rparr>) ids qs)"
  by (induction ids qs rule: list_induct2) (simp_all add: inboundOf_def)

lemma payloads_map2:
  "length ids = length qs \<Longrightarrow>
   map im_Payload (map2 (\<lambda>i q. \<lparr>im_MsgID = i, im_ContentType = q_ct q, im_Payload = q_payload q\<rparr>) ids qs) = map q_payload qs"
  by (induction ids qs rule: list_induct2) simp_all

text \<open>What the two ends of a chat take a message for: the announcement is a chat, a typed line is nothing else.\<close>

lemma first_is_chat:
  assumes "parse hello = Some [(''t'', JStr ''chat'')]"
  shows "joinerMode (toMsg parse \<lparr>im_MsgID = i, im_ContentType = ContentJSON, im_Payload = hello\<rparr>) = JoinChat None"
  using assms by (simp add: joinerMode_def toMsg_def classify_def strField_def)

lemma typed_lines_shown:
  assumes "joinerMode (toMsg parse first) = JoinChat None" and "length js = length (map textRequest ls)"
  defines "rest \<equiv> map2 (\<lambda>i q. \<lparr>im_MsgID = i, im_ContentType = q_ct q, im_Payload = q_payload q\<rparr>) js (map textRequest ls)"
  shows "map asText (joinerShows parse first rest) = ls" and "initiatorShows parse rest = map im_Payload rest"
proof -
  have pay: "map im_Payload rest = map asBytes ls"
    using payloads_map2 [OF assms(2)] by (simp add: rest_def textRequest_def o_def)
  have other: "classify (toMsg parse m) = ''other''" if "m \<in> set rest" for m
    using that by (auto simp: rest_def textRequest_def toMsg_def classify_def dest!: set_zip_rightD)
  show "map asText (joinerShows parse first rest) = ls"
    unfolding joinerShows_def assms(1) using pay by (simp add: o_def)
  have "filter (\<lambda>m. classify (toMsg parse m) \<noteq> ''chat'') rest = rest" by (rule filter_True) (simp add: other)
  then show "initiatorShows parse rest = map im_Payload rest" by (simp only: initiatorShows_def)
qed

section \<open>Properties\<close>

text \<open>
  C22: What is typed is what is read. A client that starts a chat announces it and sends the lines typed until
  \<^verbatim>\<open>/quit\<close> or \<^verbatim>\<open>/exit\<close>. If its sends succeed on a working connection, the joining client, after reading what was
  sent, has entered the chat without a notice, and shows exactly these lines in the order they were
  typed and not the announcement; a line is never taken for an announcement, so the initiator would show
  every line of the joiner as well.
\<close>

theorem chat_shows_typed_lines:
  assumes "zstd_roundtrip (zstdEncode L) (zstdDecode M)" and "parse hello = Some [(''t'', JStr ''chat'')]"
    and "sendAll L (helloRequest hello # map textRequest (takeWhile (\<lambda>l. l \<noteq> ''/quit'' \<and> l \<noteq> ''/exit'') typed)) a =
      (a1, map (\<lambda>i. Some (Inr i)) ids)"
    and "plain_up (b_conn a)" and "can_receive b ids" and "b_calls b = []"
  shows "chatInitiator L hello typed a = (a1, ''/quit'' \<in> set typed \<or> ''/exit'' \<in> set typed) \<and>
    (\<exists>n. \<forall>turns. length turns = n \<longrightarrow> (\<forall>t\<in>set turns. \<not> t_stopped t) \<longrightarrow>
       (\<exists>b1 first rest. readLoop M hs turns (arrives (newBytes a a1) b) = Continue b1 \<and>
          clientCallbacks debug mode (b_calls b1) \<lparr>cl_inbound = [], cl_notices = [], cl_dropped = False, cl_inTransfer = False\<rparr> =
            Some \<lparr>cl_inbound = first # rest, cl_notices = [], cl_dropped = False, cl_inTransfer = False\<rparr> \<and>
          joinerMode (toMsg parse first) = JoinChat None \<and>
          map asText (joinerShows parse first rest) = takeWhile (\<lambda>l. l \<noteq> ''/quit'' \<and> l \<noteq> ''/exit'') typed \<and>
          initiatorShows parse rest = map im_Payload rest))"
proof
  let ?lines = "takeWhile (\<lambda>l. l \<noteq> ''/quit'' \<and> l \<noteq> ''/exit'') typed"
  let ?qs = "helloRequest hello # map textRequest ?lines"
  have keep: "(\<lambda>l. \<not> quits l) = (\<lambda>l. l \<noteq> ''/quit'' \<and> l \<noteq> ''/exit'')" by (auto simp: quits_def)
  show "chatInitiator L hello typed a = (a1, ''/quit'' \<in> set typed \<or> ''/exit'' \<in> set typed)"
    using assms(3) by (auto simp: chatInitiator_def chatLoop_sends keep helloRequest_def quits_def split: prod.splits)
  have len: "length ids = length ?qs" by (rule sendAll_received [OF assms(1,3,4), THEN conjunct2, THEN conjunct1])
  obtain n where n: "\<forall>turns. length turns = n \<longrightarrow> (\<forall>t\<in>set turns. \<not> t_stopped t) \<longrightarrow>
      (\<exists>b1. readLoop M hs turns (arrives (newBytes a a1) b) = Continue b1 \<and> b_calls b1 = b_calls b @ map2 inboundOf ids ?qs \<and>
        b_tasks b1 = map ackMsg ids \<and> plain_up (b_conn b1))"
    using sendAll_arrives [OF assms(1,3-5)] by (rule exE)
  obtain i js where ids: "ids = i # js" using len by (cases ids) auto
  let ?first = "\<lparr>im_MsgID = i, im_ContentType = ContentJSON, im_Payload = hello\<rparr>"
  let ?rest = "map2 (\<lambda>i q. \<lparr>im_MsgID = i, im_ContentType = q_ct q, im_Payload = q_payload q\<rparr>) js (map textRequest ?lines)"
  have js: "length js = length (map textRequest ?lines)" using len ids by simp
  have calls: "map2 inboundOf ids ?qs = map OnInbound (?first # ?rest)"
    using map2_inboundOf [OF js] by (simp add: ids inboundOf_def helloRequest_def)
  note first = first_is_chat [of parse hello i, OF assms(2)]
  note showing = first typed_lines_shown [OF first js]
  show "\<exists>n. \<forall>turns. length turns = n \<longrightarrow> (\<forall>t\<in>set turns. \<not> t_stopped t) \<longrightarrow>
       (\<exists>b1 first rest. readLoop M hs turns (arrives (newBytes a a1) b) = Continue b1 \<and>
          clientCallbacks debug mode (b_calls b1) \<lparr>cl_inbound = [], cl_notices = [], cl_dropped = False, cl_inTransfer = False\<rparr> =
            Some \<lparr>cl_inbound = first # rest, cl_notices = [], cl_dropped = False, cl_inTransfer = False\<rparr> \<and>
          joinerMode (toMsg parse first) = JoinChat None \<and>
          map asText (joinerShows parse first rest) = ?lines \<and> initiatorShows parse rest = map im_Payload rest)"
  proof (rule exI [of _ n], intro allI impI)
    fix turns :: "turn list"
    assume t: "length turns = n" "\<forall>t\<in>set turns. \<not> t_stopped t"
    obtain b1 where b1: "readLoop M hs turns (arrives (newBytes a a1) b) = Continue b1"
      "b_calls b1 = b_calls b @ map2 inboundOf ids ?qs" using n [THEN spec, THEN mp, THEN mp, OF t] by (elim exE conjE)
    have cb: "clientCallbacks debug mode (b_calls b1) \<lparr>cl_inbound = [], cl_notices = [], cl_dropped = False, cl_inTransfer = False\<rparr> =
            Some \<lparr>cl_inbound = ?first # ?rest, cl_notices = [], cl_dropped = False, cl_inTransfer = False\<rparr>"
      unfolding b1(2) calls assms(6) append_Nil clientCallbacks_inbound by simp
    show "\<exists>b1 first rest. readLoop M hs turns (arrives (newBytes a a1) b) = Continue b1 \<and>
          clientCallbacks debug mode (b_calls b1) \<lparr>cl_inbound = [], cl_notices = [], cl_dropped = False, cl_inTransfer = False\<rparr> =
            Some \<lparr>cl_inbound = first # rest, cl_notices = [], cl_dropped = False, cl_inTransfer = False\<rparr> \<and>
          joinerMode (toMsg parse first) = JoinChat None \<and>
          map asText (joinerShows parse first rest) = ?lines \<and> initiatorShows parse rest = map im_Payload rest"
      using b1(1) cb showing by blast
  qed
qed

theorem chat_shows_typed_lines_witness:
  "\<exists>a1 n b1 first rest. chatInitiator exampleLibs [1] [''hi'', ''/quit'', ''x''] (exampleBroker [] None) = (a1, True) \<and>
    readLoop exampleLibs None (replicate n \<lparr>t_ioAck = (None, None), t_now = 9, t_stopped = False, t_attempts = []\<rparr>)
      (arrives (newBytes (exampleBroker [] None) a1) (exampleBroker [] None)) = Continue b1 \<and>
    map asText (joinerShows (\<lambda>_. Some [(''t'', JStr ''chat'')]) first rest) = [''hi'']"
proof -
  let ?a = "exampleBroker [] None"
  let ?keep = "takeWhile (\<lambda>l. l \<noteq> ''/quit'' \<and> l \<noteq> ''/exit'') [''hi'', ''/quit'', ''x'']"
  let ?qs = "helloRequest [1] # map textRequest ?keep"
  let ?t = "\<lparr>t_ioAck = (None, None), t_now = 9, t_stopped = False, t_attempts = []\<rparr> :: turn"
  have keep: "?keep = [''hi'']" by simp
  have z: "zstd_roundtrip (zstdEncode exampleLibs) (zstdDecode exampleLibs)" by (simp add: zstd_roundtrip_def exampleLibs_def)
  have sp: "\<forall>q\<in>set ?qs. q_ioAppend q = (None, None) \<and> length (q_payload q) + 2 < 2 ^ 32 \<and>
      (\<forall>i. \<exists>fs. Split (zstdEncode exampleLibs) i (q_ct q) (q_payload q) = Inr fs)"
    using Split_small by (simp add: keep helloRequest_def textRequest_def asBytes_def ThresholdBytes_def)
  have a: "ring_ok (b_ring ?a)" "plain_up (b_conn ?a)" "log_ok ?a" "length ?qs \<le> length (freeIdx (b_ring ?a))" "b_calls ?a = []"
    using plain_up_example [of "[]"] by (simp_all add: ring_ok_new log_ok_def del: plain_up.simps)
  obtain a1 ids where s: "sendAll exampleLibs ?qs ?a = (a1, map (\<lambda>i. Some (Inr i)) ids)"
    using sendAll_succeeds [OF a(4,1-3), of exampleLibs] sp by blast
  have rcv: "can_receive ?a ids"
    using a(2) by (simp add: can_receive_def exampleBroker_def NewAssembler_def DefaultMaxStreams_def list_all_iff del: plain_up.simps)
  note ex = chat_shows_typed_lines [where hs = None, OF z _ s a(2) rcv a(5)]
  have c: "chatInitiator exampleLibs [1] [''hi'', ''/quit'', ''x''] ?a = (a1, True)"
    using ex [of "\<lambda>_. Some [(''t'', JStr ''chat'')]"] by simp
  obtain n where n: "\<And>turns :: turn list. length turns = n \<Longrightarrow> \<forall>t\<in>set turns. \<not> t_stopped t \<Longrightarrow>
      \<exists>b1 first rest. readLoop exampleLibs None turns (arrives (newBytes ?a a1) ?a) = Continue b1 \<and>
        map asText (joinerShows (\<lambda>_. Some [(''t'', JStr ''chat'')]) first rest) = [''hi'']"
    using ex [where debug = False and mode = "[]" and parse = "\<lambda>_. Some [(''t'', JStr ''chat'')]", THEN conjunct2]
    unfolding keep by (meson refl)
  have "\<forall>t\<in>set (replicate n ?t). \<not> t_stopped t" by simp
  from n [OF length_replicate this] obtain b1 first rest where
    r: "readLoop exampleLibs None (replicate n ?t) (arrives (newBytes ?a a1) ?a) = Continue b1"
    and w: "map asText (joinerShows (\<lambda>_. Some [(''t'', JStr ''chat'')]) first rest) = [''hi'']" by (elim exE conjE)
  show ?thesis by (intro exI conjI) (rule c, rule r, rule w)
qed

end
