(* ===== verification/Punch_Sockets.thy ===== *)
theory Punch_Sockets
  imports Holepunch
begin

text \<open>
  The sockets of a punch attempt, \<^verbatim>\<open>pkg/holepunch\<close>: the option that lets one port be listened on and dialled from,
  the listener that accepts one connection until the context ends, the dialler, and the attempt over
  them. What the operating system answers is the record \<open>punchNet\<close>.
\<close>

section \<open>Definitions\<close>

text \<open>
  \<open>reuseControl\<close> on Unix: giving access to the descriptor may fail, then either option; on Windows
  nothing is set.
\<close>

definition reuseControl :: "error option \<Rightarrow> error option \<Rightarrow> error option \<Rightarrow> error option" where
  "reuseControl control setAddr setPort =
     (let setSockOptErr =
        (case setAddr of
           Some e \<Rightarrow> Some (Wrap ''SO_REUSEADDR'' e)
         | None \<Rightarrow> (case setPort of Some e \<Rightarrow> Some (Wrap ''SO_REUSEPORT'' e) | None \<Rightarrow> None))
      in case control of Some e \<Rightarrow> Some e | None \<Rightarrow> setSockOptErr)"

definition reuseControlWindows :: "error option" where "reuseControlWindows = None"

text \<open>
  The listening socket: its options, binding, what \<^verbatim>\<open>Accept\<close> has put into the channel when the wait ends, and
  whether the wait ends with the context (if both are ready, either may be chosen); the dialling sockets.
\<close>

record 'c punchNet =
  pn_control :: "error option"
  pn_bind :: "error option"
  pn_accepted :: "'c result option"
  pn_ctxDone :: bool
  pn_ctxErr :: error
  pn_dialControl :: "string \<Rightarrow> error option"
  pn_connect :: "string \<Rightarrow> 'c result"

text \<open>
  \<open>listenDirect\<close>: the result, and the connections that stay in its channel when it returns, which nobody will
  close.
\<close>

definition listenDirect :: "'c punchNet \<Rightarrow> 'c result \<times> 'c list" where
  "listenDirect net =
     (case (case pn_control net of Some e \<Rightarrow> Some e | None \<Rightarrow> pn_bind net) of
        Some e \<Rightarrow> (Inl (Wrap ''listen'' e), [])
      | None \<Rightarrow>
          (case pn_accepted net of
             None \<Rightarrow> (Inl (pn_ctxErr net), [])
           | Some r \<Rightarrow>
               if pn_ctxDone net then (Inl (pn_ctxErr net), case r of Inr c \<Rightarrow> [c] | Inl _ \<Rightarrow> [])
               else (r, [])))"

definition dialDirectReuse :: "'c punchNet \<Rightarrow> string \<Rightarrow> 'c result" where
  "dialDirectReuse net remoteAddr =
     (case pn_dialControl net remoteAddr of Some e \<Rightarrow> Inl e | None \<Rightarrow> pn_connect net remoteAddr)"

definition DialReuse :: "'c punchNet \<Rightarrow> string \<Rightarrow> 'c result" where
  "DialReuse net remoteAddr = dialDirectReuse net remoteAddr"

definition punchOver :: "('c result list \<Rightarrow> 'c result list) \<Rightarrow> 'c punchNet \<Rightarrow> Info \<Rightarrow> int \<Rightarrow> 'c result \<times> 'c list" where
  "punchOver arrival net remote timeout =
     AttemptPunch arrival (\<lambda>_. fst (listenDirect net)) (\<lambda>_. dialDirectReuse net) remote timeout"

section \<open>Connections made\<close>

text \<open>The connections the operating system made: accepted ones, and dialled ones per address.\<close>

definition accepted :: "'c punchNet \<Rightarrow> 'c multiset" where
  "accepted net =
     (if pn_control net = None \<and> pn_bind net = None then (case pn_accepted net of Some (Inr c) \<Rightarrow> {#c#} | _ \<Rightarrow> {#}) else {#})"

definition dialled :: "'c punchNet \<Rightarrow> string set \<Rightarrow> 'c multiset" where
  "dialled net A = image_mset projr (filter_mset (Not \<circ> isl) (image_mset (dialDirectReuse net) (mset_set A)))"

lemma listenDirect_accounts:
  "accepted net = image_mset projr (filter_mset (Not \<circ> isl) {#fst (listenDirect net)#}) + mset (snd (listenDirect net))"
  by (auto simp: accepted_def listenDirect_def split: option.splits sum.splits)

lemma collectPunch_mset:
  assumes "collectPunch rs fe = (r, shut)"
  shows "image_mset projr (filter_mset (Not \<circ> isl) (mset rs)) = (case r of Inl _ \<Rightarrow> {#} | Inr c \<Rightarrow> {#c#}) + mset shut"
    and "(\<exists>e. r = Inl e) \<longleftrightarrow> (\<forall>x\<in>set rs. isl x)"
proof -
  have m: "mset (successes rs) = (case r of Inl _ \<Rightarrow> {#} | Inr c \<Rightarrow> {#c#}) + mset shut"
    using collectPunch_spec [OF assms] by (auto split: sum.splits)
  then show "image_mset projr (filter_mset (Not \<circ> isl) (mset rs)) = (case r of Inl _ \<Rightarrow> {#} | Inr c \<Rightarrow> {#c#}) + mset shut"
    by (simp add: mset_successes)
  have "(\<exists>e. r = Inl e) \<longleftrightarrow> mset (successes rs) = {#}"
    using collectPunch_spec [OF assms] by (auto split: sum.splits)
  then show "(\<exists>e. r = Inl e) \<longleftrightarrow> (\<forall>x\<in>set rs. isl x)"
    unfolding mset_successes by (auto simp: filter_mset_eq_mempty_iff)
qed

section \<open>Properties\<close>

text \<open>
  C39: Where the connections of a punch end up. Whichever attempts succeed and in whatever order they report, each
  connection made is returned, closed, or left behind by the listener; the last happens to one connection
  at most, and only if it was accepted when the context ended as well. Only if no attempt reported a
  success is an error returned. One dial is made per distinct non-empty address.
\<close>

theorem punch_accounts:
  assumes "\<And>rs. mset (arrival rs) = mset rs" and "punchOver arrival net remote timeout = (r, shut)"
    and "listenDirect net = (lr, behind)"
  shows "accepted net + dialled net (insert (PublicAddr remote) (set (LocalAddrs remote)) - {[]}) =
      (case r of Inl _ \<Rightarrow> {#} | Inr c \<Rightarrow> {#c#}) + mset shut + mset behind \<and>
    length behind \<le> 1 \<and> (behind \<noteq> [] \<longrightarrow> pn_ctxDone net) \<and>
    ((\<exists>e. r = Inl e) \<longleftrightarrow> isl lr \<and> (\<forall>a\<in>insert (PublicAddr remote) (set (LocalAddrs remote)) - {[]}. isl (dialDirectReuse net a)))"
proof -
  let ?A = "insert (PublicAddr remote) (set (LocalAddrs remote)) - {[]}"
  let ?rs = "lr # map (dialDirectReuse net) (buildTargets remote)"
  have c: "collectPunch (arrival ?rs) None = (r, shut)"
    using assms(2,3) by (simp add: punchOver_def AttemptPunch_def Let_def)
  have "mset (buildTargets remote) = mset_set ?A"
    using buildTargets_spec(1,2) [of remote] by (metis mset_set_set)
  then have m: "mset (arrival ?rs) = add_mset lr (image_mset (dialDirectReuse net) (mset_set ?A))"
    using assms(1) by (simp add: mset_map)
  have "set (arrival ?rs) = insert lr (dialDirectReuse net ` ?A)"
    using arg_cong [OF m, of set_mset] by simp
  then have e: "(\<exists>e. r = Inl e) \<longleftrightarrow> isl lr \<and> (\<forall>a\<in>?A. isl (dialDirectReuse net a))"
    using collectPunch_mset(2) [OF c] by auto
  have b: "length behind \<le> 1" "behind \<noteq> [] \<longrightarrow> pn_ctxDone net"
    using assms(3) by (auto simp: listenDirect_def split: option.splits sum.splits if_splits)
  have "accepted net + dialled net ?A = image_mset projr (filter_mset (Not \<circ> isl) (mset (arrival ?rs))) + mset behind"
    unfolding m listenDirect_accounts [of net] assms(3) dialled_def by simp
  then show ?thesis using collectPunch_mset(1) [OF c] e b by simp
qed

text \<open>Both addresses connect and the peer's connection comes in just as the context ends.\<close>

definition examplePunchNet :: "nat punchNet" where
  "examplePunchNet = \<lparr>pn_control = None, pn_bind = None, pn_accepted = Some (Inr 0), pn_ctxDone = True, pn_ctxErr = NetErrClosed,
     pn_dialControl = (\<lambda>_. None), pn_connect = (\<lambda>a. Inr (length a))\<rparr>"

theorem punch_accounts_witness:
  "punchOver rev examplePunchNet \<lparr>PublicAddr = ''p'', LocalAddrs = [''p'', ''lo'']\<rparr> 0 = (Inr 2, [1]) \<and>
   listenDirect examplePunchNet = (Inl NetErrClosed, [0]) \<and> accepted examplePunchNet + dialled examplePunchNet {''p'', ''lo''} = {#2, 1, 0#}"
proof -
  let ?r = "\<lparr>PublicAddr = ''p'', LocalAddrs = [''p'', ''lo'']\<rparr>"
  have a: "punchOver rev examplePunchNet ?r 0 = (Inr 2, [1])" by code_simp
  have b: "listenDirect examplePunchNet = (Inl NetErrClosed, [0])" by (simp add: listenDirect_def examplePunchNet_def)
  have "insert ''p'' {''p'', ''lo''} - {[]} = {''p'', ''lo''}" by auto
  then show ?thesis using punch_accounts [OF _ a b] a b by (simp add: add_mset_commute)
qed

end
