(* ===== verification/Relay_Server.thy ===== *)
theory Relay_Server
  imports Relay
begin

text \<open>
  The relay's start-up and accept loop, \<^verbatim>\<open>cmd/relay/main.go\<close>: repeatable flags, the listener with or without TLS,
  and one goroutine per accepted connection; and the plain bridge the program has but does not call.
\<close>

section \<open>Definitions\<close>

type_synonym multiFlag = "string list"

fun joinComma :: "string list \<Rightarrow> string" where
  "joinComma [] = []"
| "joinComma [s] = s"
| "joinComma (s # ss) = s @ '','' @ joinComma ss"

definition multiFlagString :: "multiFlag \<Rightarrow> string" where "multiFlagString m = joinComma m"

definition multiFlagSet :: "multiFlag \<Rightarrow> string \<Rightarrow> multiFlag" where "multiFlagSet m v = m @ [v]"

text \<open>A listener is plain or hands out TLS connections with given certificates.\<close>

datatype 'cert listener = PlainListener | TLSListener "'cert list"

definition wrapTLS :: "'cert list option \<Rightarrow> 'cert listener" where
  "wrapTLS cfg = (case cfg of None \<Rightarrow> PlainListener | Some certs \<Rightarrow> TLSListener certs)"

fun loadCerts :: "(string \<Rightarrow> string \<Rightarrow> 'cert result) \<Rightarrow> string list \<Rightarrow> string list \<Rightarrow> 'cert list result" where
  "loadCerts load (c # cs) (k # ks) =
     (case load c k of
        Inl e \<Rightarrow> Inl (Wrap ''load cert'' e)
      | Inr cert \<Rightarrow> (case loadCerts load cs ks of Inl e \<Rightarrow> Inl e | Inr certs \<Rightarrow> Inr (cert # certs)))"
| "loadCerts load _ _ = Inr []"

text \<open>\<open>main\<close> up to the accept loop; an error ends the program.\<close>

definition relayListener ::
  "(string \<Rightarrow> error option) \<Rightarrow> (string \<Rightarrow> string \<Rightarrow> 'cert result) \<Rightarrow> string \<Rightarrow> bool \<Rightarrow> multiFlag \<Rightarrow> multiFlag \<Rightarrow> 'cert listener result" where
  "relayListener listen load addr useTLS certPaths keyPaths =
     (case listen addr of
        Some e \<Rightarrow> Inl (Wrap ''listen error'' e)
      | None \<Rightarrow>
          if useTLS then
            (if length certPaths = 0 \<or> length certPaths \<noteq> length keyPaths
             then Inl (Errorf ''-tls requires matching -tls-cert and -tls-key (repeatable)'')
             else case loadCerts load certPaths keyPaths of Inl e \<Rightarrow> Inl e | Inr certs \<Rightarrow> Inr (wrapTLS (Some certs)))
          else Inr PlainListener)"

text \<open>The accept loop: a failed accept is logged, every connection gets a goroutine.\<close>

fun acceptLoop :: "'c result list \<Rightarrow> 'c list" where
  "acceptLoop [] = []"
| "acceptLoop (Inl e # accepts) = acceptLoop accepts"
| "acceptLoop (Inr conn # accepts) = conn # acceptLoop accepts"

text \<open>\<open>bridge\<close> copies what each connection delivers to the other.\<close>

definition bridge :: "string \<Rightarrow> string \<Rightarrow> verdict" where
  "bridge fromA fromB = Bridged fromB fromA"

section \<open>Certificates\<close>

lemma loadCerts_pairs:
  "loadCerts load cs ks = Inr certs \<Longrightarrow> length cs = length ks \<Longrightarrow>
   length certs = length cs \<and> (\<forall>i<length cs. load (cs ! i) (ks ! i) = Inr (certs ! i))"
proof (induction load cs ks arbitrary: certs rule: loadCerts.induct)
  case (1 load c cs k ks)
  then obtain cert cts where ct: "load c k = Inr cert" "loadCerts load cs ks = Inr cts" "certs = cert # cts"
    by (auto split: sum.splits)
  with 1 show ?case by (auto simp: nth_Cons split: nat.splits)
qed auto

lemma loadCerts_fails: "loadCerts load cs ks = Inl e \<Longrightarrow> \<exists>i e'. i < length cs \<and> i < length ks \<and> load (cs ! i) (ks ! i) = Inl e' \<and> e = Wrap ''load cert'' e'"
proof (induction load cs ks rule: loadCerts.induct)
  case (1 load c cs k ks)
  show ?case
  proof (cases "load c k")
    case (Inl e')
    then show ?thesis using 1 by (intro exI [of _ 0]) auto
  next
    case (Inr cert)
    then obtain i e' where "i < length cs" "i < length ks" "load (cs ! i) (ks ! i) = Inl e'" "e = Wrap ''load cert'' e'"
      using 1 by (auto split: sum.splits)
    then show ?thesis by (intro exI [of _ "Suc i"]) auto
  qed
qed auto

section \<open>Properties\<close>

text \<open>
  The relay never falls back to plain connections when TLS is asked for: if it starts, the flags came in pairs, the
  listener holds one certificate per pair in the order they were given, and every connection accepted
  gets its goroutine whatever accepts fail in between.
\<close>

theorem relay_start:
  assumes "relayListener listen load addr useTLS (foldl multiFlagSet [] cs) (foldl multiFlagSet [] ks) = Inr ln"
  shows "listen addr = None \<and>
    (if useTLS then \<exists>certs. ln = TLSListener certs \<and> cs \<noteq> [] \<and> length cs = length ks \<and> length certs = length cs \<and>
        (\<forall>i<length cs. load (cs ! i) (ks ! i) = Inr (certs ! i))
     else ln = PlainListener) \<and>
    acceptLoop accepts = map projr (filter (Not \<circ> isl) accepts)"
proof -
  have flags: "foldl multiFlagSet xs ys = xs @ ys" for xs ys
    by (induction ys arbitrary: xs) (simp_all add: multiFlagSet_def)
  have "acceptLoop accepts = map projr (filter (Not \<circ> isl) accepts)"
    by (induction accepts rule: acceptLoop.induct) simp_all
  then show ?thesis using assms loadCerts_pairs [of load cs ks]
    by (auto simp: relayListener_def wrapTLS_def flags split: option.splits if_splits sum.splits)
qed

theorem relay_start_witness:
  "relayListener (\<lambda>_. None) (\<lambda>c k. Inr (c, k)) '':9009'' True (foldl multiFlagSet [] [''c1'', ''c2'']) (foldl multiFlagSet [] [''k1'', ''k2'']) =
     Inr (TLSListener [(''c1'', ''k1''), (''c2'', ''k2'')])"
proof -
  let ?l = "relayListener (\<lambda>_. None) (\<lambda>c k. Inr (c, k)) '':9009'' True (foldl multiFlagSet [] [''c1'', ''c2'']) (foldl multiFlagSet [] [''k1'', ''k2''])"
  have l: "?l = Inr (TLSListener [(''c1'', ''k1''), (''c2'', ''k2'')])" by (simp add: relayListener_def wrapTLS_def multiFlagSet_def)
  then show ?thesis using relay_start [OF l, of "[]"] by simp
qed

end
