(* ===== verification/Examples.thy ===== *)
theory Examples
  imports Conversation Text_Lines
begin

text \<open>
  The three example programs, \<^verbatim>\<open>examples/pubsub\<close>, \<^verbatim>\<open>examples/json_send\<close> and \<^verbatim>\<open>examples/binary_send\<close>: each connects
  brokers over pipes in one process, sends from one end and waits until the callback of the other end has
  been called often enough. The read loop of the receiving broker takes the turns given.
\<close>

section \<open>Pairs of brokers\<close>

definition pipeEnd :: link where "pipeEnd = new_link [] IoEOF"

text \<open>A connection on one end of a pipe; \<open>None\<close> is a panic.\<close>

definition pipeConn :: "'cs Conn option" where
  "pipeConn = (case New (Inr pipeEnd) None False 0 of Inl e \<Rightarrow> None | Inr c \<Rightarrow> Some c)"

definition makeConnPair :: "('cs Conn \<times> 'cs Conn) option" where
  "makeConnPair =
     (case pipeConn of
        None \<Rightarrow> None
      | Some connA \<Rightarrow> (case pipeConn of None \<Rightarrow> None | Some connB \<Rightarrow> Some (connA, connB)))"

definition pipeBroker :: "'cs libs \<Rightarrow> int \<Rightarrow> 'cs Conn \<Rightarrow> 'cs Broker option" where
  "pipeBroker L ackTimeout c =
     (case NewBroker L 0 None IoEOF (Some c) None \<lparr>RetryBuffer = 0, ACKTimeout = ackTimeout, MaxRetries = 3\<rparr> of
        Some (Inr b) \<Rightarrow> Some b
      | _ \<Rightarrow> None)"

definition makeBrokerPair :: "'cs libs \<Rightarrow> int \<Rightarrow> ('cs Broker \<times> 'cs Broker) option" where
  "makeBrokerPair L ackTimeout =
     (case makeConnPair of
        None \<Rightarrow> None
      | Some (pubConn, subConn) \<Rightarrow>
          (case pipeBroker L ackTimeout subConn of
             None \<Rightarrow> None
           | Some sub \<Rightarrow> (case pipeBroker L ackTimeout pubConn of None \<Rightarrow> None | Some pub \<Rightarrow> Some (pub, sub))))"

text \<open>How a program ends: all its brokers closed, a panic, or still waiting.\<close>

datatype 'cs exampleEnd = Done "'cs Broker list" | Panics | Waits

section \<open>Publish and subscribe\<close>

definition numMessages :: nat where "numMessages = 5"

definition msgRequest :: "ContentType \<Rightarrow> bytes \<Rightarrow> request" where
  "msgRequest ct payload = \<lparr>q_ioAppend = (None, None), q_ioAck = (None, None), q_now = 0, q_ct = ct, q_pr = PriorityNormal, q_payload = payload\<rparr>"

definition newsPayload :: "nat \<Rightarrow> bytes" where
  "newsPayload i = asBytes (''{\"topic\":\"news\",\"seq\":'' @ decimal i @ ''}'')"

text \<open>The publishing goroutine: each message to every publisher; errors are only printed.\<close>

definition publishOne :: "'cs libs \<Rightarrow> bytes \<Rightarrow> 'cs Broker list \<Rightarrow> 'cs Broker list" where
  "publishOne L payload publishers =
     map (\<lambda>pub. fst (Send L (None, None) (None, None) 0 ContentJSON PriorityNormal payload pub)) publishers"

definition publishAll :: "'cs libs \<Rightarrow> 'cs Broker list \<Rightarrow> 'cs Broker list" where
  "publishAll L publishers = foldl (\<lambda>pubs i. publishOne L (newsPayload i) pubs) publishers [1..<numMessages + 1]"

text \<open>The counter of the wait group; below zero it panics.\<close>

fun wgCount :: "callback list \<Rightarrow> int \<Rightarrow> int option" where
  "wgCount [] n = Some n"
| "wgCount (OnInbound m # cs) n = (if n - 1 < 0 then None else wgCount cs (n - 1))"
| "wgCount (c # cs) n = wgCount cs n"

text \<open>\<open>merge\<close> is the order in which the callbacks of the two subscribers run.\<close>

definition pubsubMain :: "'cs libs \<Rightarrow> turn list \<Rightarrow> turn list \<Rightarrow> (callback list \<Rightarrow> callback list \<Rightarrow> callback list) \<Rightarrow> 'cs exampleEnd" where
  "pubsubMain L turns1 turns2 merge =
     (case (makeBrokerPair L (30 * 10 ^ 9), makeBrokerPair L (30 * 10 ^ 9)) of
        (Some (pub1, sub1), Some (pub2, sub2)) \<Rightarrow>
          (let publishers = publishAll L [pub1, pub2] in
           case (readLoop L None turns1 (arrives (newBytes pub1 (publishers ! 0)) sub1),
                 readLoop L None turns2 (arrives (newBytes pub2 (publishers ! 1)) sub2)) of
             (Continue s1, Continue s2) \<Rightarrow>
               (case wgCount (merge (b_calls s1) (b_calls s2)) (2 * int numMessages) of
                  None \<Rightarrow> Panics
                | Some n \<Rightarrow> if n = 0 then Done (map (\<lambda>b. fst (CloseBroker L b)) (publishers @ [s1, s2])) else Waits)
           | _ \<Rightarrow> Waits)
      | _ \<Rightarrow> Panics)"

section \<open>Sending JSON\<close>

definition jsonMessages :: "bytes list" where
  "jsonMessages = map (\<lambda>n. asBytes (''{\"event\":\"hello\",\"seq\":'' @ decimal n @ ''}'')) [1, 2, 3]"

text \<open>
  Calls of the callback put a token into a channel of three; a goroutine takes three tokens, each as
  soon as it is there. The values taken and buffered; \<open>None\<close> is a callback that blocks for ever.
\<close>

fun jsonReceived :: "callback list \<Rightarrow> nat \<times> nat \<Rightarrow> (nat \<times> nat) option" where
  "jsonReceived [] s = Some s"
| "jsonReceived (OnInbound m # cs) (taken, buffered) =
     (if taken < 3 then jsonReceived cs (taken + 1, buffered)
      else if buffered < 3 then jsonReceived cs (taken, buffered + 1) else None)"
| "jsonReceived (c # cs) s = jsonReceived cs s"

definition jsonMain :: "'cs libs \<Rightarrow> turn list \<Rightarrow> 'cs exampleEnd" where
  "jsonMain L turns =
     (case makeBrokerPair L (10 * 10 ^ 9) of
        None \<Rightarrow> Panics
      | Some (brokerA, brokerB) \<Rightarrow>
          (let a1 = fst (sendAll L (map (msgRequest ContentJSON) jsonMessages) brokerA) in
           case readLoop L None turns (arrives (newBytes brokerA a1) brokerB) of
             Continue b1 \<Rightarrow>
               (case jsonReceived (b_calls b1) (0, 0) of
                  Some (taken, buffered) \<Rightarrow>
                    if taken = 3 then Done [fst (CloseBroker L b1), fst (CloseBroker L a1)] else Waits
                | None \<Rightarrow> Waits)
           | _ \<Rightarrow> Waits))"

section \<open>Sending a large payload\<close>

definition twoMB :: nat where "twoMB = 2 * 1024 * 1024"

text \<open>The callback prints whether the size is right and closes a channel; closing it twice panics.\<close>

fun binaryReceived :: "callback list \<Rightarrow> bool list \<times> bool \<Rightarrow> (bool list \<times> bool) option" where
  "binaryReceived [] s = Some s"
| "binaryReceived (OnInbound m # cs) (oks, shut) =
     (if shut then None else binaryReceived cs (oks @ [length (im_Payload m) = twoMB], True))"
| "binaryReceived (c # cs) s = binaryReceived cs s"

definition binaryMain :: "'cs libs \<Rightarrow> bytes \<Rightarrow> turn list \<Rightarrow> bool list \<times> 'cs exampleEnd" where
  "binaryMain L payload turns =
     (case makeBrokerPair L (60 * 10 ^ 9) of
        None \<Rightarrow> ([], Panics)
      | Some (brokerA, brokerB) \<Rightarrow>
          (let a1 = fst (sendAll L [msgRequest ContentBinary payload] brokerA) in
           case readLoop L None turns (arrives (newBytes brokerA a1) brokerB) of
             Continue b1 \<Rightarrow>
               (case binaryReceived (b_calls b1) ([], False) of
                  None \<Rightarrow> ([], Panics)
                | Some (oks, shut) \<Rightarrow>
                    (oks, if shut then Done [fst (CloseBroker L a1), fst (CloseBroker L b1)] else Waits))
           | _ \<Rightarrow> ([], Waits)))"

section \<open>What the pairs do\<close>

definition fresh :: "'cs Broker \<Rightarrow> bool" where
  "fresh b \<longleftrightarrow> plain_up (b_conn b) \<and> \<not> b_stop b \<and> b_tasks b = [] \<and> b_calls b = [] \<and> b_wal b = None \<and>
     b_ring b = newRing 10000 \<and> b_assemb b = NewAssembler \<and> b_msgIDCounter b = 0"

lemma makeBrokerPair_fresh: "\<exists>p s. makeBrokerPair L t = Some (p, s) \<and> fresh p \<and> fresh s"
  by (auto simp: makeBrokerPair_def makeConnPair_def pipeConn_def pipeEnd_def pipeBroker_def New_def buildTransport_def NewBroker_def
      withDefaults_def DefaultRetryBuffer_def fresh_def new_link_def link_up_def Let_def)

definition sendable :: "'cs libs \<Rightarrow> request \<Rightarrow> bool" where
  "sendable L q \<longleftrightarrow> q_ioAppend q = (None, None) \<and> length (q_payload q) + 2 < 2 ^ 32 \<and>
     (\<forall>i. \<exists>fs. Split (zstdEncode L) i (q_ct q) (q_payload q) = Inr fs)"

lemma sendable_small: "length payload \<le> ThresholdBytes \<Longrightarrow> sendable L (msgRequest ct payload)"
  using Split_small [of payload] by (simp add: sendable_def msgRequest_def ThresholdBytes_def)

text \<open>Everything sent into a fresh pair comes out at the other end in order.\<close>

lemma pair_exchange:
  assumes "zstd_roundtrip (zstdEncode L) (zstdDecode L)" and "fresh p" "fresh s" and "length qs \<le> 10000" "\<forall>q\<in>set qs. sendable L q"
  shows "\<exists>n. \<forall>turns. length turns = n \<longrightarrow> (\<forall>t\<in>set turns. \<not> t_stopped t) \<longrightarrow>
    (\<exists>s'. readLoop L None turns (arrives (newBytes p (fst (sendAll L qs p))) s) = Continue s' \<and>
      b_calls s' = map2 inboundOf (map (\<lambda>k. word_of_nat (Suc k)) [0..<length qs]) qs)"
proof -
  have p: "plain_up (b_conn p)" "ring_ok (b_ring p)" "log_ok p" "length qs \<le> length (freeIdx (b_ring p))"
    using assms(2,4) by (simp_all add: fresh_def ring_ok_new log_ok_def)
  have q: "\<forall>q\<in>set qs. q_ioAppend q = (None, None) \<and> length (q_payload q) + 2 < 2 ^ 32 \<and>
     (\<forall>i. \<exists>fs. Split (zstdEncode L) i (q_ct q) (q_payload q) = Inr fs)"
    "\<forall>q\<in>set qs. q_ioAppend q = (None, None) \<and> length (q_payload q) + 2 < 2 ^ 32"
    using assms(5) by (simp_all add: sendable_def)
  obtain a1 ids where a1: "sendAll L qs p = (a1, map (\<lambda>i. Some (Inr i)) ids)"
    using sendAll_succeeds [OF p(4,2,1,3) q(1)] by blast
  have ids: "ids = map (\<lambda>k. word_of_nat (Suc k)) [0..<length qs]"
    using sendAll_state [OF a1 p(2,3) q(2)] assms(2) by (simp add: fresh_def)
  have "can_receive s ids" using assms(3) by (simp add: can_receive_def fresh_def NewAssembler_def DefaultMaxStreams_def list_all_iff)
  from sendAll_arrives [OF assms(1) a1 p(1) this, of None]
  show ?thesis using a1 ids assms(3) by (elim exE) (rule exI, auto simp: fresh_def)
qed

lemma sendAll_append: "fst (sendAll L (qs @ rs) b) = fst (sendAll L rs (fst (sendAll L qs b)))"
proof (induction qs arbitrary: b)
  case (Cons q qs)
  have "fst (sendAll L (q # zs) b) =
      fst (sendAll L zs (fst (Send L (q_ioAppend q) (q_ioAck q) (q_now q) (q_ct q) (q_pr q) (q_payload q) b)))" for zs
    by (simp split: prod.split)
  then show ?case using Cons.IH by (simp del: sendAll.simps)
qed simp

lemma publishAll_eq:
  "publishAll L pubs = map (\<lambda>b. fst (sendAll L (map (\<lambda>i. msgRequest ContentJSON (newsPayload i)) [1..<numMessages + 1]) b)) pubs"
proof -
  have "foldl (\<lambda>pubs i. publishOne L (newsPayload i) pubs) pubs js =
      map (\<lambda>b. fst (sendAll L (map (\<lambda>i. msgRequest ContentJSON (newsPayload i)) js) b)) pubs" for js
    by (induction js arbitrary: pubs) (simp_all add: publishOne_def msgRequest_def split: prod.split)
  then show ?thesis by (simp add: publishAll_def)
qed

lemma inbounds_only:
  assumes "c \<in> set (map2 inboundOf ids qs)"
  obtains m where "c = OnInbound m"
  using assms by (auto simp: inboundOf_def)

lemma wgCount_inbounds:
  "\<forall>c\<in>set cs. \<exists>m. c = OnInbound m \<Longrightarrow> 0 \<le> n \<Longrightarrow>
   wgCount cs n = (if int (length cs) \<le> n then Some (n - int (length cs)) else None)"
proof (induction cs arbitrary: n)
  case (Cons c cs)
  then obtain m where "c = OnInbound m" by auto
  with Cons show ?case by auto
qed simp

lemma jsonReceived_inbounds:
  "\<forall>c\<in>set cs. \<exists>m. c = OnInbound m \<Longrightarrow> taken + length cs \<le> 3 \<Longrightarrow> jsonReceived cs (taken, 0) = Some (taken + length cs, 0)"
proof (induction cs arbitrary: taken)
  case (Cons c cs)
  then obtain m where "c = OnInbound m" by auto
  with Cons show ?case by auto
qed simp

section \<open>Properties\<close>

text \<open>Each program on its own: what its subscribers or its receiver count, and where it ends.\<close>

lemma pubsub_completes:
  assumes "zstd_roundtrip (zstdEncode L) (zstdDecode L)" and "\<And>xs ys. mset (merge xs ys) = mset (xs @ ys)"
  shows "\<exists>n. \<forall>turns1 turns2. length turns1 = n \<longrightarrow> length turns2 = n \<longrightarrow> (\<forall>t\<in>set (turns1 @ turns2). \<not> t_stopped t) \<longrightarrow>
        (\<exists>bs. pubsubMain L turns1 turns2 merge = Done bs)"
proof -
  let ?news = "map (\<lambda>i. msgRequest ContentJSON (newsPayload i)) [1..<numMessages + 1]"
  obtain p s where ps: "makeBrokerPair L (30 * 10 ^ 9) = Some (p, s)" "fresh p" "fresh s" using makeBrokerPair_fresh by blast
  have "\<forall>q\<in>set ?news. sendable L q"
    by (auto intro!: sendable_small simp: newsPayload_def asBytes_def numMessages_def ThresholdBytes_def upt_rec decimal.simps)
  then obtain n where n: "\<And>turns :: turn list. length turns = n \<Longrightarrow> \<forall>t\<in>set turns. \<not> t_stopped t \<Longrightarrow>
      \<exists>s'. readLoop L None turns (arrives (newBytes p (fst (sendAll L ?news p))) s) = Continue s' \<and>
        b_calls s' = map2 inboundOf (map (\<lambda>k. word_of_nat (Suc k)) [0..<length ?news]) ?news"
    using pair_exchange [OF assms(1) ps(2,3), of ?news] by (auto simp: numMessages_def)
  have "\<exists>bs. pubsubMain L turns1 turns2 merge = Done bs"
    if t: "length turns1 = n" "length turns2 = n" "\<forall>t\<in>set (turns1 @ turns2). \<not> t_stopped t" for turns1 turns2
  proof -
    let ?cs = "map2 inboundOf (map (\<lambda>k. word_of_nat (Suc k)) [0..<length ?news]) ?news"
    obtain s1 s2 where s: "readLoop L None turns1 (arrives (newBytes p (fst (sendAll L ?news p))) s) = Continue s1" "b_calls s1 = ?cs"
      "readLoop L None turns2 (arrives (newBytes p (fst (sendAll L ?news p))) s) = Continue s2" "b_calls s2 = ?cs"
      using n [OF t(1)] n [OF t(2)] t(3) by auto
    have m: "mset (merge ?cs ?cs) = mset (?cs @ ?cs)" by (rule assms(2))
    have "\<forall>c\<in>set (merge ?cs ?cs). \<exists>m. c = OnInbound m" using mset_eq_setD [OF m] by (auto simp: inboundOf_def)
    moreover have "int (length (merge ?cs ?cs)) = 2 * int numMessages" using mset_eq_length [OF m] by (simp add: numMessages_def)
    ultimately have "wgCount (merge ?cs ?cs) (2 * int numMessages) = Some 0" using wgCount_inbounds by simp
    then show ?thesis using s ps(1) by (simp add: pubsubMain_def publishAll_eq Let_def)
  qed
  then show "\<exists>n. \<forall>turns1 turns2. length turns1 = n \<longrightarrow> length turns2 = n \<longrightarrow> (\<forall>t\<in>set (turns1 @ turns2). \<not> t_stopped t) \<longrightarrow>
        (\<exists>bs. pubsubMain L turns1 turns2 merge = Done bs)" by blast
qed

lemma json_completes:
  assumes "zstd_roundtrip (zstdEncode L) (zstdDecode L)"
  shows "\<exists>n. \<forall>turns. length turns = n \<longrightarrow> (\<forall>t\<in>set turns. \<not> t_stopped t) \<longrightarrow> (\<exists>bs. jsonMain L turns = Done bs)"
proof -
  let ?qs = "map (msgRequest ContentJSON) jsonMessages"
  obtain p s where ps: "makeBrokerPair L (10 * 10 ^ 9) = Some (p, s)" "fresh p" "fresh s" using makeBrokerPair_fresh by blast
  have "\<forall>q\<in>set ?qs. sendable L q"
    by (auto intro!: sendable_small simp: jsonMessages_def asBytes_def ThresholdBytes_def decimal.simps)
  then obtain n where n: "\<And>turns :: turn list. length turns = n \<Longrightarrow> \<forall>t\<in>set turns. \<not> t_stopped t \<Longrightarrow>
      \<exists>s'. readLoop L None turns (arrives (newBytes p (fst (sendAll L ?qs p))) s) = Continue s' \<and>
        b_calls s' = map2 inboundOf (map (\<lambda>k. word_of_nat (Suc k)) [0..<length ?qs]) ?qs"
    using pair_exchange [OF assms(1) ps(2,3), of ?qs] by (auto simp: jsonMessages_def)
  let ?cs = "map2 inboundOf (map (\<lambda>k. word_of_nat (Suc k)) [0..<length ?qs]) ?qs"
  have "jsonReceived ?cs (0, 0) = Some (3, 0)"
    by (subst jsonReceived_inbounds) (auto simp: inboundOf_def jsonMessages_def)
  then have "\<exists>bs. jsonMain L turns = Done bs" if "length turns = n" "\<forall>t\<in>set turns. \<not> t_stopped t" for turns
    using n [OF that] ps(1) by (auto simp: jsonMain_def Let_def)
  then show "\<exists>n. \<forall>turns. length turns = n \<longrightarrow> (\<forall>t\<in>set turns. \<not> t_stopped t) \<longrightarrow> (\<exists>bs. jsonMain L turns = Done bs)" by blast
qed

lemma binary_completes:
  assumes "zstd_roundtrip (zstdEncode L) (zstdDecode L)"
    and "length payload = twoMB" and "zstdEncode L payload \<noteq> []" and "length (zstdEncode L payload) \<le> 65535 * ChunkSize"
  shows "\<exists>n. \<forall>turns. length turns = n \<longrightarrow> (\<forall>t\<in>set turns. \<not> t_stopped t) \<longrightarrow>
        (\<exists>bs. binaryMain L payload turns = ([True], Done bs))"
proof -
  let ?qs = "[msgRequest ContentBinary payload]"
  obtain p s where ps: "makeBrokerPair L (60 * 10 ^ 9) = Some (p, s)" "fresh p" "fresh s" using makeBrokerPair_fresh by blast
  have "\<exists>fs. Split (zstdEncode L) i ContentBinary payload = Inr fs" for i
    using Split_length [of payload "zstdEncode L" i ContentBinary] assms(2-4) by (auto simp: twoMB_def ThresholdBytes_def)
  then have "\<forall>q\<in>set ?qs. sendable L q" using assms(2) by (simp add: sendable_def msgRequest_def twoMB_def)
  then obtain n where n: "\<And>turns :: turn list. length turns = n \<Longrightarrow> \<forall>t\<in>set turns. \<not> t_stopped t \<Longrightarrow>
      \<exists>s'. readLoop L None turns (arrives (newBytes p (fst (sendAll L ?qs p))) s) = Continue s' \<and>
        b_calls s' = map2 inboundOf (map (\<lambda>k. word_of_nat (Suc k)) [0..<length ?qs]) ?qs"
    using pair_exchange [OF assms(1) ps(2,3), of ?qs] by auto
  have "\<exists>bs. binaryMain L payload turns = ([True], Done bs)" if "length turns = n" "\<forall>t\<in>set turns. \<not> t_stopped t" for turns
    using n [OF that] ps(1) assms(2) by (auto simp: binaryMain_def Let_def inboundOf_def msgRequest_def simp del: sendAll.simps)
  then show "\<exists>n. \<forall>turns. length turns = n \<longrightarrow> (\<forall>t\<in>set turns. \<not> t_stopped t) \<longrightarrow>
        (\<exists>bs. binaryMain L payload turns = ([True], Done bs))" by blast
qed

lemma wgCount_once_more: "wgCount cs k = Some 0 \<Longrightarrow> wgCount (cs @ [OnInbound m]) k = None"
  by (induction cs k rule: wgCount.induct) (auto split: if_splits)

lemma binaryReceived_once_more:
  "binaryReceived cs st = Some (oks, True) \<Longrightarrow> binaryReceived (cs @ [OnInbound m]) st = None"
  by (induction cs st rule: binaryReceived.induct) (auto split: if_splits)


definition exampleTurn :: turn where
  "exampleTurn = \<lparr>t_ioAck = (None, None), t_now = 9, t_stopped = False, t_attempts = []\<rparr>"


end
