(* ===== verification/Spec2Isabelle.thy ===== *)
theory Spec2Isabelle
  imports Recovery Slot_Wait Dir_Transfer Bench_Cmd Client_Session Punch_Sockets Relay_Server Examples
begin

text \<open>
  A model of the Go program p2p-messaging: a message broker and file transfer between two peers that
  meet through a relay, punch a direct connection or use the relay as a bridge, and talk over
  Noise-encrypted frames.

  \<^bold>\<open>Parts and theories.\<close>

  \<^item> \<^verbatim>\<open>P2P_Prelude\<close>, \<^verbatim>\<open>Net_Link\<close>, \<^verbatim>\<open>Paths\<close>, \<^verbatim>\<open>Text_Lines\<close>, \<^verbatim>\<open>Base64_Text\<close>: what the program uses of
    Go and its library, that is errors, big-endian integers, readers and writers that fail part-way,
    \<^verbatim>\<open>filepath\<close>, lines, fields and base64. The locales \<open>fixed_codec\<close>, \<open>framed\<close> and \<open>guarded_system\<close> state
    the interfaces the components share, with their lemmas; each is interpreted on the program's codecs,
    frames, connections, ring and assembler.
  \<^item> \<^verbatim>\<open>Protocol\<close> (\<^verbatim>\<open>pkg/protocol\<close>): the 20-byte header. \<^verbatim>\<open>Compress\<close> (\<^verbatim>\<open>pkg/compress\<close>): the threshold around
    the compression codec, which is an argument. \<^verbatim>\<open>Chunker\<close> (\<^verbatim>\<open>pkg/chunker\<close>): \<open>Split\<close> and the assembler.
  \<^item> \<^verbatim>\<open>Wal\<close> (\<^verbatim>\<open>pkg/wal\<close>): the write-ahead log as the bytes of its file.
  \<^item> \<^verbatim>\<open>Crypto_Session\<close>, \<^verbatim>\<open>Handshake\<close> (\<^verbatim>\<open>pkg/crypto/handshake.go\<close>): frames, sessions, the two handshake
    patterns; \<^verbatim>\<open>Identity\<close> (\<^verbatim>\<open>pkg/crypto/identity.go\<close>): the key files.
  \<^item> \<^verbatim>\<open>Conn\<close> (\<^verbatim>\<open>pkg/conn\<close>): framed messages over a plain or encrypted connection, with batching and
    reconnecting.
  \<^item> \<^verbatim>\<open>Retry_Ring\<close>, \<^verbatim>\<open>Slot_Wait\<close>, \<^verbatim>\<open>Broker\<close>, \<^verbatim>\<open>Delivery\<close>, \<^verbatim>\<open>Conversation\<close>, \<^verbatim>\<open>Recovery\<close> (\<^verbatim>\<open>pkg/broker\<close>): the ring of
    messages in flight, senders waiting for a slot, the broker's operations, delivery of one message and of
    a whole conversation between two brokers, and restart on the log. \<^verbatim>\<open>Examples\<close> (\<^verbatim>\<open>examples\<close>): the programs
    that demonstrate it.
  \<^item> \<^verbatim>\<open>Archive\<close>, \<^verbatim>\<open>Tar_Write\<close>, \<^verbatim>\<open>File_Transfer\<close>, \<^verbatim>\<open>Dir_Transfer\<close>, \<^verbatim>\<open>Parallel\<close> (\<^verbatim>\<open>pkg/transfer\<close>): unpacking and
    packing archives, single-stream transfer of files and of directories, and parallel transfer.
  \<^item> \<^verbatim>\<open>Relay\<close>, \<^verbatim>\<open>Relay_Server\<close> (\<^verbatim>\<open>cmd/relay\<close>), \<^verbatim>\<open>Holepunch\<close>, \<^verbatim>\<open>Punch_Sockets\<close> (\<^verbatim>\<open>pkg/holepunch\<close>), \<^verbatim>\<open>Rendezvous\<close> (\<^verbatim>\<open>pkg/rendezvous\<close>): how two peers
    meet. \<^verbatim>\<open>Streams\<close> (\<^verbatim>\<open>pkg/codephrase\<close>, \<^verbatim>\<open>cmd/p2p/dialer.go\<close>, \<^verbatim>\<open>cmd/p2p/streams.go\<close>): the dialer of a
    session and the negotiation of parallel streams.
  \<^item> \<^verbatim>\<open>App\<close>, \<^verbatim>\<open>P2P_Bench\<close>, \<^verbatim>\<open>Client_Session\<close> (\<^verbatim>\<open>cmd/p2p/main.go\<close>, \<^verbatim>\<open>cmd/p2p/bench.go\<close>): the client's modes, its
    benchmark, and a session from its start through callbacks and chat to its end.
    \<^verbatim>\<open>Humanize\<close> (\<^verbatim>\<open>pkg/humanize\<close>, \<^verbatim>\<open>cmd/p2p/progress.go\<close>): sizes, rates and progress in 64-bit floating point.
  \<^item> \<^verbatim>\<open>Line_Scanner\<close>, \<^verbatim>\<open>Peer\<close> (\<^verbatim>\<open>cmd/peer\<close>), \<^verbatim>\<open>Bench_Cmd\<close> (\<^verbatim>\<open>cmd/bench\<close>): the demo peer, whose input loops share
    arrays with the broker and are modelled over a store, and the throughput benchmark.

  \<^bold>\<open>How code becomes definitions.\<close> A struct is a record, a method a function from the record to the new
  record and its results; an error return is the left side of a sum or an error option, and a panic or a
  call that never returns is \<open>None\<close> where it can happen. A mutex-protected critical section is one step.
  Goroutines are modelled by the order of their steps: as events in any order (\<^verbatim>\<open>Retry_Ring\<close>), as an
  inductive step relation (\<^verbatim>\<open>Recovery\<close>, \<^verbatim>\<open>Relay\<close>, \<^verbatim>\<open>Slot_Wait\<close>), or as a schedule given as an argument (\<^verbatim>\<open>Parallel\<close>,
  \<^verbatim>\<open>Holepunch\<close>). What the operating system, the network, the clock and libraries outside the repository
  answer is an argument of the definitions; what is relied on of them is a hypothesis of the theorems and
  shown satisfiable by the witnesses: the ciphers and the Noise library stay in step
  (\<open>cipher_sync\<close>, \<open>noise_in_step\<close>), the compression and JSON codecs invert, SHA-256 is any function.

  \<^bold>\<open>What is shown.\<close> Messages: a payload is split, framed, encrypted, reassembled and delivered exactly once
  and acknowledged; a ring slot is neither leaked nor used twice; time-outs, retries, reconnects and
  negative acknowledgements do what the code says; the log refines a map of pending payloads, survives a
  cut at any byte, and a restart puts every message in flight back. Files: single-stream and parallel
  transfers are identities on contents under any order of chunks and any interleaving, only verified
  contents are saved, directories arrive as they are and unpacking stays inside the destination. Meeting: the relay pairs one to one,
  both clients end on the same transport, no connection of a punch is leaked, handshakes pair up and pin
  keys, key files round-trip, stream negotiation agrees. Among the theorems are limits of the code that
  the proofs brought out; they are stated as what the code does.

  \<^bold>\<open>Bounds.\<close> Loops are structural or have a measure (frames shrink the input, chunks advance the offset).
  Two may not return and are partial functions with \<open>None\<close> for that: waiting for a ring slot, and the
  handshake loop. Integers that can overflow are words or wrapped explicitly: header fields, fragment
  counts, back-off and range boundaries.

  \<^bold>\<open>Not modelled.\<close> Flag parsing, terminal output, signals and measured times of the commands, and deployment
  files: input and output around the modelled code. Sockets, TLS and socket options. The byte format
  of \<^verbatim>\<open>archive/tar\<close> and the text syntax of JSON, which are pairs of functions that invert each other.
  Deadlines: a read or write that times out is one of the errors the environment may give.
\<close>

section \<open>A file from one client to the other\<close>

text \<open>
  C21: Sending a file with the command-line client over parallel streams. The sender announces the transfer
  on the main session, which the joining client recognises; if the same stream indices open on both
  sides, both use exactly these streams in the same order, and the joining client saves exactly the
  file's contents under its base name and reports the size, provided each of its streams delivers what
  the sender wrote on the stream of the same index.
\<close>

theorem app_parallel_transfer:
  assumes "oI 0 = Inr 0" "oJ 0 = Inr 0" "0 < n" "int n < 2 ^ 63" "int n * int (length c) < 2 ^ 63"
    and "\<And>i. isl (oI i) \<or> oI i = Inr i" "\<And>i. isl (oJ i) \<or> oJ i = Inr i" "\<forall>i<n. isl (oI i) = isl (oJ i)"
    and "ps_stat src p = Inr \<lparr>fi_Regular = True, fi_Size = sz, fi_Mode = mode\<rparr>" "mode < 2 ^ 32" "ps_file src p = Inr c"
    and "env_ok env" "\<And>ls. mset (schedule ls) = mset (concat ls)" "\<And>t. pick [t] = t"
    and "f (placed overwrite cwd (Base p) f) \<noteq> Some DirNode"
    and "sendParallelMode sha256hex collect
      (openStreams True oI None None rd (Inr (Some (openedMsg (int (openedCount oJ n)))))) (\<lambda>_ _. None) src (PDone # acks) ae (int n) [p] []
      = Some (announced, ps, wrote, r)"
    and "\<And>k. k < length ps \<Longrightarrow> delivers (ps ! k) = wrote ! k"
  shows "joinerMode (hd announced) = JoinParallel \<and> r = Inr \<lparr>st_Bytes = int (length c)\<rparr> \<and>
    joinParallel sha256hex env untar schedule pick rerr
      (openStreams False oJ None None (Inr (Some (wantMsg (int n)))) (Inr (Some (openedMsg (int (openedCount oI n))))))
      delivers wantJ cwd overwrite f =
    Some (f(placed overwrite cwd (Base p) f \<mapsto> FileNode c (if mode \<noteq> 0 then mode else 384)),
          Inr (placed overwrite cwd (Base p) f, \<lparr>st_Bytes = int (length c)\<rparr>))"
proof -
  let ?is = "openedIdx oI n"
  note b = openedIdx_bounds [of oI n, OF assms(1,3)]
  obtain sI where oI: "openStreams True oI None None rd (Inr (Some (openedMsg (int (openedCount oJ n))))) (int n) = Some (sI, [], Inr ?is)"
    using open_same_streams(1) [of oI oJ n, OF assms(1-3,6-8)] by blast
  obtain sJ where oJ: "openStreams False oJ None None (Inr (Some (wantMsg (int n)))) (Inr (Some (openedMsg (int (openedCount oI n))))) wantJ =
      Some (sJ, [], Inr ?is)"
    using open_same_streams(2) [of oI oJ n, OF assms(1-3,6-8)] by blast
  obtain w r' where w: "SendParallel sha256hex (replicate (length ?is) (\<lambda>_. None)) src [p] (PDone # acks) ae = (w, r')" by force
  have "int (length ?is) * int (length c) \<le> int n * int (length c)" using b(2) by (intro mult_right_mono) simp_all
  then have "int (length ?is) * int (length c) < 2 ^ 63" "int (length ?is) < 2 ^ 63" using b(2) assms(4,5) by linarith+
  note pt = parallel_transfer [where schedule = schedule and pick = pick and f = f, OF b(1) this(2,1) assms(9-15) w]
  have "map (\<lambda>_ _. None) ?is = replicate (length ?is) (\<lambda>_ :: pmsg. None :: error option)" by (rule map_replicate_const)
  then have s: "announced = [parallelHello]" "ps = ?is" "wrote = w" "r = Inr \<lparr>st_Bytes = int (length c)\<rparr>"
    using assms(16) oI w pt by (auto simp: sendParallelMode_def collect_def)
  have "map delivers ?is = w" using assms(17) s pt by (intro nth_equalityI) simp_all
  then show ?thesis using s oJ pt classify_hello(2) by (simp add: joinParallel_def)
qed

theorem app_parallel_transfer_witness:
  "\<exists>announced ps wrote f'. sendParallelMode (\<lambda>_. ''h'') collect
      (openStreams True (\<lambda>i. Inr i) None None (Inl IoEOF) (Inr (Some (openedMsg (int (openedCount (\<lambda>i. Inr i :: nat result) 2))))))
      (\<lambda>_ _. None) (examplePSource [1, 2, 3]) [PDone] None (int 2) [''d/a.txt''] [] = Some (announced, ps, wrote, Inr \<lparr>st_Bytes = 3\<rparr>) \<and>
    joinerMode (hd announced) = JoinParallel \<and>
    joinParallel (\<lambda>_. ''h'') exampleEnv (\<lambda>_. ([], IoEOF)) concat hd IoEOF
      (openStreams False (\<lambda>i. Inr i) None None (Inr (Some (wantMsg (int 2)))) (Inr (Some (openedMsg (int (openedCount (\<lambda>i. Inr i :: nat result) 2))))))
      (\<lambda>i. the (map_of (zip ps wrote) i)) 8 ''/t'' None Map.empty = Some (f', Inr (''/t/a.txt'', \<lparr>st_Bytes = 3\<rparr>)) \<and>
    f' ''/t/a.txt'' = Some (FileNode [1, 2, 3] 420)"
proof -
  let ?o = "\<lambda>i. Inr i :: nat result"
  let ?opn = "openStreams True ?o None None (Inl IoEOF) (Inr (Some (openedMsg (int (openedCount ?o 2)))))"
  let ?src = "examplePSource [1, 2, 3]"
  obtain sI where oI: "?opn (int 2) = Some (sI, [], Inr (openedIdx ?o 2))"
    using open_same_streams(1) [of ?o ?o 2 "Inl IoEOF"] by auto
  obtain wrote r where w: "SendParallel (\<lambda>_. ''h'') (map (\<lambda>_ _. None) (openedIdx ?o 2)) ?src [''d/a.txt''] (PDone # []) None = (wrote, r)" by force
  have len: "openedIdx ?o 2 = [0, 1]" by (simp add: openedIdx_def upt_rec numeral_2_eq_2)
  have "map (\<lambda>_ _. None) (openedIdx ?o 2) = replicate 2 (\<lambda>_ :: pmsg. None :: error option)"
    using len by (simp add: numeral_2_eq_2)
  with w have w2: "SendParallel (\<lambda>_. ''h'') (replicate 2 (\<lambda>_. None)) ?src [''d/a.txt''] (PDone # []) None = (wrote, r)" by simp
  have "length wrote = 2 \<and> r = Inr \<lparr>st_Bytes = 3\<rparr>"
    using parallel_transfer [of 2 "[1, 2, 3]" ?src "''d/a.txt''" 3 420 exampleEnv concat hd Map.empty None "''/t''" "\<lambda>_. ''h''" "[]" None wrote r]
      w2 env_ok_example by (simp add: examplePSource_def)
  then have s: "sendParallelMode (\<lambda>_. ''h'') collect ?opn (\<lambda>_ _. None) ?src (PDone # []) None (int 2) [''d/a.txt''] [] =
      Some ([parallelHello], [0, 1], wrote, Inr \<lparr>st_Bytes = 3\<rparr>)" and lw: "length wrote = 2"
    using oI w len by (simp_all add: sendParallelMode_def collect_def)
  have d: "the (map_of (zip [0, 1 :: nat] wrote) ([0, 1] ! k)) = wrote ! k" if "k < length [0, 1 :: nat]" for k
    using that lw by (cases wrote; cases "tl wrote"; cases k) auto
  have pl: "placed None ''/t'' (Base ''d/a.txt'') Map.empty = ''/t/a.txt''" by code_simp
  have j: "joinerMode (hd [parallelHello]) = JoinParallel \<and> Inr \<lparr>st_Bytes = 3\<rparr> = (Inr \<lparr>st_Bytes = int (length [1, 2, 3 :: byte])\<rparr> :: Stats result) \<and>
    joinParallel (\<lambda>_. ''h'') exampleEnv (\<lambda>_. ([], IoEOF)) concat hd IoEOF
      (openStreams False ?o None None (Inr (Some (wantMsg (int 2)))) (Inr (Some (openedMsg (int (openedCount ?o 2))))))
      (\<lambda>i. the (map_of (zip [0, 1] wrote) i)) 8 ''/t'' None Map.empty =
    Some (Map.empty(placed None ''/t'' (Base ''d/a.txt'') Map.empty \<mapsto> FileNode [1, 2, 3] (if (420 :: nat) \<noteq> 0 then 420 else 384)),
          Inr (placed None ''/t'' (Base ''d/a.txt'') Map.empty, \<lparr>st_Bytes = int (length [1, 2, 3 :: byte])\<rparr>))"
    by (rule app_parallel_transfer [OF _ _ _ _ _ _ _ _ _ _ _ env_ok_example _ _ _ s d])
      (simp_all add: examplePSource_def)
  let ?f = "Map.empty(''/t/a.txt'' \<mapsto> FileNode [1, 2, 3] 420) :: fs"
  show ?thesis
  proof (rule exI [of _ "[parallelHello]"], rule exI [of _ "[0, 1]"], rule exI [of _ wrote], rule exI [of _ ?f], intro conjI)
    show "joinParallel (\<lambda>_. ''h'') exampleEnv (\<lambda>_. ([], IoEOF)) concat hd IoEOF
      (openStreams False ?o None None (Inr (Some (wantMsg (int 2)))) (Inr (Some (openedMsg (int (openedCount ?o 2))))))
      (\<lambda>i. the (map_of (zip [0, 1] wrote) i)) 8 ''/t'' None Map.empty = Some (?f, Inr (''/t/a.txt'', \<lparr>st_Bytes = 3\<rparr>))"
      using j [THEN conjunct2, THEN conjunct2] unfolding pl by simp
  qed (rule s, rule j [THEN conjunct1], simp)
qed

end
